(* ===== verification/Prelude.thy ===== *)
theory Prelude
  imports Main "HOL-Library.Word" "HOL-Library.Char_ord" "HOL-Library.List_Lexorder"
    "HOL-Library.AList"
begin

text \<open>
  Shared material of the development: Go's fixed-width integers, decimal printing and
  parsing as \<^verbatim>\<open>fmt\<close> and \<^verbatim>\<open>strconv\<close> do it, byte strings and their order, and the
  counting lemmas every quorum argument uses.

  A Go string is a sequence of bytes, so it is a \<^typ>\<open>string\<close> (a list of 8-bit
  characters) and Go's \<^verbatim>\<open><\<close> on strings is the library's lexicographic order. A Go
  \<^verbatim>\<open>int64\<close> is an \<^typ>\<open>int\<close> with \<open>wrap64\<close> written where the code's arithmetic can
  leave the range; a \<^verbatim>\<open>uint16\<close> or \<^verbatim>\<open>uint64\<close> is a word.
\<close>

named_theorems claim_simps "unfoldings the claim components share"
named_theorems clock_simps "unfoldings of the hybrid logical clock"

section \<open>Machine integers\<close>

type_synonym u16 = "16 word"
type_synonym u64 = "64 word"
type_synonym bytes = string

definition wrap64 :: "int \<Rightarrow> int" where
  "wrap64 i = (i + 2 ^ 63) mod 2 ^ 64 - 2 ^ 63"

definition in_i64 :: "int \<Rightarrow> bool" where
  "in_i64 i \<longleftrightarrow> - (2 ^ 63) \<le> i \<and> i < 2 ^ 63"

lemma wrap64_id [simp]: "in_i64 i \<Longrightarrow> wrap64 i = i"
  by (simp add: wrap64_def in_i64_def)

lemma in_i64_wrap64 [simp]: "in_i64 (wrap64 i)"
proof -
  have "0 \<le> (i + 2 ^ 63) mod 2 ^ 64" "(i + 2 ^ 63) mod 2 ^ 64 < (2 ^ 64 :: int)"
    by (rule pos_mod_sign pos_mod_bound; simp)+
  then show ?thesis by (simp add: wrap64_def in_i64_def)
qed

lemma wrap64_below: "i < - (2 ^ 63) \<Longrightarrow> - (2 ^ 64) \<le> i \<Longrightarrow> wrap64 i = i + 2 ^ 64"
proof -
  assume a: "i < - (2 ^ 63)" "- (2 ^ 64) \<le> i"
  have "(i + 2 ^ 63) mod 2 ^ 64 = (i + 2 ^ 63 + 2 ^ 64) mod (2 ^ 64 :: int)"
    by (rule mod_add_self2 [symmetric])
  also have "\<dots> = i + 2 ^ 63 + 2 ^ 64" using a by (intro mod_pos_pos_trivial) simp_all
  finally show ?thesis by (simp add: wrap64_def)
qed

section \<open>Decimal digits\<close>

definition digit :: "nat \<Rightarrow> char" where
  "digit n = char_of (48 + n)"

definition is_digit :: "char \<Rightarrow> bool" where
  "is_digit c \<longleftrightarrow> 48 \<le> (of_char c :: nat) \<and> (of_char c :: nat) \<le> 57"

definition digit_val :: "char \<Rightarrow> nat" where
  "digit_val c = of_char c - 48"

lemma of_char_digit [simp]: "n < 10 \<Longrightarrow> (of_char (digit n) :: nat) = 48 + n"
  by (simp add: digit_def)

lemma digit_less_iff [simp]: "m < 10 \<Longrightarrow> n < 10 \<Longrightarrow> digit m < digit n \<longleftrightarrow> m < n"
  by (simp add: less_char_def)

lemma is_digit_digit [simp]: "n < 10 \<Longrightarrow> is_digit (digit n)"
  by (simp add: is_digit_def)

lemma digit_val_digit [simp]: "n < 10 \<Longrightarrow> digit_val (digit n) = n"
  by (simp add: digit_val_def)

lemma digit_inj [simp]: "m < 10 \<Longrightarrow> n < 10 \<Longrightarrow> digit m = digit n \<longleftrightarrow> m = n"
  by (metis digit_val_digit)

text \<open>The decimal digits of a natural number, most significant first (\<open>strconv.FormatInt\<close>).\<close>

fun dec :: "nat \<Rightarrow> string" where
  "dec n = (if n < 10 then [digit n] else dec (n div 10) @ [digit (n mod 10)])"

declare dec.simps [simp del]

text \<open>Zero padding on the left, as the \<open>%0wd\<close> verb does for a non-negative number.\<close>

definition pad0 :: "nat \<Rightarrow> string \<Rightarrow> string" where
  "pad0 w s = replicate (w - length s) (digit 0) @ s"

text \<open>The digits of \<open>n mod 10 ^ w\<close> in exactly \<open>w\<close> places.\<close>

primrec fixw :: "nat \<Rightarrow> nat \<Rightarrow> string" where
  "fixw 0 n = []"
| "fixw (Suc w) n = fixw w (n div 10) @ [digit (n mod 10)]"

lemma length_fixw [simp]: "length (fixw w n) = w"
  by (induction w arbitrary: n) auto

lemma fixw_zero: "fixw w 0 = replicate w (digit 0)"
  by (induction w) (auto simp: replicate_append_same)

lemma length_dec_le: "n < 10 ^ w \<Longrightarrow> 0 < w \<Longrightarrow> length (dec n) \<le> w"
proof (induction n arbitrary: w rule: dec.induct)
  case (1 n)
  show ?case
  proof (cases "n < 10")
    case True
    then show ?thesis using "1.prems" by (simp add: dec.simps [of n])
  next
    case False
    with "1.prems" obtain v where w: "w = Suc v" "0 < v"
      by (metis One_nat_def Suc_pred not_gr_zero power_one_right)
    then have "n div 10 < 10 ^ v" using "1.prems" by (simp add: less_mult_imp_div_less mult.commute)
    with "1.IH" [OF False this w(2)] w False show ?thesis by (simp add: dec.simps [of n])
  qed
qed

lemma pad0_dec: "n < 10 ^ w \<Longrightarrow> 0 < w \<Longrightarrow> pad0 w (dec n) = fixw w n"
proof (induction n arbitrary: w rule: dec.induct)
  case (1 n)
  obtain v where w: "w = Suc v" using "1.prems" by (cases w) auto
  show ?case
  proof (cases "n < 10")
    case True
    then show ?thesis using w by (simp add: dec.simps [of n] pad0_def fixw_zero)
  next
    case False
    with "1.prems" w have v: "0 < v" by (cases v) auto
    have lt: "n div 10 < 10 ^ v"
      using "1.prems" w by (simp add: less_mult_imp_div_less mult.commute)
    have "pad0 w (dec n) = pad0 v (dec (n div 10)) @ [digit (n mod 10)]"
      using False w by (simp add: dec.simps [of n] pad0_def)
    also have "\<dots> = fixw w n" using "1.IH" [OF False lt v] w by simp
    finally show ?thesis .
  qed
qed

text \<open>Reading digits back, as \<open>strconv.ParseUint\<close> does in base 10: no sign, at least one digit.\<close>

fun digits_val :: "nat \<Rightarrow> string \<Rightarrow> nat option" where
  "digits_val acc [] = Some acc"
| "digits_val acc (c # cs) = (if is_digit c then digits_val (acc * 10 + digit_val c) cs else None)"

lemma digits_val_append:
  "digits_val acc (xs @ ys) = Option.bind (digits_val acc xs) (\<lambda>a. digits_val a ys)"
  by (induction acc xs rule: digits_val.induct) auto

lemma digits_val_fixw: "n < 10 ^ w \<Longrightarrow> digits_val acc (fixw w n) = Some (acc * 10 ^ w + n)"
proof (induction w arbitrary: n)
  case (Suc w)
  then have "n div 10 < 10 ^ w" by (simp add: less_mult_imp_div_less mult.commute)
  then have "digits_val acc (fixw w (n div 10)) = Some (acc * 10 ^ w + n div 10)"
    by (rule Suc.IH)
  then show ?case by (simp add: digits_val_append algebra_simps)
qed simp

lemma digits_val_dec: "digits_val 0 (dec n) = Some n"
proof (induction n rule: dec.induct)
  case (1 n)
  show ?case
  proof (cases "n < 10")
    case True
    then show ?thesis by (simp add: dec.simps [of n])
  next
    case False
    then have "digits_val 0 (dec (n div 10)) = Some (n div 10)" by (rule "1.IH")
    then show ?thesis using False by (simp add: dec.simps [of n] digits_val_append)
  qed
qed

lemma dec_inj [simp]: "dec m = dec n \<longleftrightarrow> m = n"
  by (metis digits_val_dec option.inject)

lemma hd_dec: "is_digit (hd (dec n)) \<and> dec n \<noteq> []"
proof (induction n rule: dec.induct)
  case (1 n)
  then show ?case by (cases "n < 10") (auto simp: dec.simps [of n])
qed

text \<open>The same two functions over \<open>int\<close>, for evaluation: numerals of type \<open>nat\<close> are unary there.\<close>

function dec_int :: "int \<Rightarrow> string" where
  "dec_int i = (if i < 10 then [digit (nat i)] else dec_int (i div 10) @ [digit (nat (i mod 10))])"
  by pat_completeness auto
termination by (relation "measure nat") auto

declare dec_int.simps [simp del]

lemma dec_int_dec: "dec_int (int n) = dec n"
proof (induction n rule: dec.induct)
  case (1 n)
  show ?case
  proof (cases "n < 10")
    case True
    then show ?thesis by (simp add: dec.simps [of n] dec_int.simps [of "int n"])
  next
    case False
    have dm: "int n div 10 = int (n div 10)" "int n mod 10 = int (n mod 10)"
      by (simp_all only: of_nat_div of_nat_mod of_nat_numeral)
    have "\<not> int n < 10" using False by simp
    then have "dec_int (int n) = dec_int (int (n div 10)) @ [digit (nat (int (n mod 10)))]"
      by (simp only: dec_int.simps [of "int n"] if_False dm)
    also have "\<dots> = dec n" using 1 [OF False] False by (simp only: dec.simps [of n] if_False nat_int)
    finally show ?thesis .
  qed
qed

lemma dec_nat: "0 \<le> i \<Longrightarrow> dec (nat i) = dec_int i"
  using dec_int_dec [of "nat i"] by simp

fun digits_int :: "int \<Rightarrow> string \<Rightarrow> int option" where
  "digits_int acc [] = Some acc"
| "digits_int acc (c # cs) = (if is_digit c then digits_int (acc * 10 + int (digit_val c)) cs else None)"

lemma digits_int_val: "digits_int (int acc) s = map_option int (digits_val acc s)"
proof (induction acc s rule: digits_val.induct)
  case (2 acc c cs)
  have "int acc * 10 + int (digit_val c) = int (acc * 10 + digit_val c)" by simp
  then have "digits_int (int acc * 10 + int (digit_val c)) cs = map_option int (digits_val (acc * 10 + digit_val c) cs)"
    if "is_digit c" using 2 [OF that] by (simp only:)
  then show ?case by (cases "is_digit c") (simp_all only: digits_int.simps digits_val.simps option.map if_True if_False)
qed simp

text \<open>\<open>strconv.FormatInt(i, 10)\<close>.\<close>

definition FormatInt :: "int \<Rightarrow> string" where
  "FormatInt i = (if i < 0 then CHR ''-'' # dec_int (- i) else dec_int i)"

section \<open>Byte strings and their order\<close>

lemma less_append_same_length:
  fixes xs ys :: "'a :: linorder list"
  shows "length xs = length ys \<Longrightarrow> xs @ us < ys @ vs \<longleftrightarrow> xs < ys \<or> xs = ys \<and> us < vs"
  by (induction xs ys rule: list_induct2) auto

lemma fixw_inj: "m < 10 ^ w \<Longrightarrow> n < 10 ^ w \<Longrightarrow> fixw w m = fixw w n \<longleftrightarrow> m = n"
  by (metis digits_val_fixw option.inject add_left_cancel)

lemma less_div_mod_10:
  fixes a b p q :: nat
  shows "a < 10 \<Longrightarrow> b < 10 \<Longrightarrow> p * 10 + a < q * 10 + b \<longleftrightarrow> p < q \<or> p = q \<and> a < b"
  by linarith

lemma fixw_less: "m < 10 ^ w \<Longrightarrow> n < 10 ^ w \<Longrightarrow> fixw w m < fixw w n \<longleftrightarrow> m < n"
proof (induction w arbitrary: m n)
  case (Suc w)
  then have "m div 10 < 10 ^ w" "n div 10 < 10 ^ w"
    by (simp_all add: less_mult_imp_div_less mult.commute)
  then have "fixw w (m div 10) < fixw w (n div 10) \<longleftrightarrow> m div 10 < n div 10"
    and "fixw w (m div 10) = fixw w (n div 10) \<longleftrightarrow> m div 10 = n div 10"
    by (rule Suc.IH fixw_inj)+
  moreover have "m < n \<longleftrightarrow> m div 10 < n div 10 \<or> m div 10 = n div 10 \<and> m mod 10 < n mod 10"
    using less_div_mod_10 [of "m mod 10" "n mod 10" "m div 10" "n div 10"] by simp
  ultimately show ?case by (simp add: less_append_same_length)
qed simp

section \<open>Lists and quorums\<close>

lemma overlap_nonempty:
  assumes "finite U" "P \<subseteq> U" "Q \<subseteq> U" "card U < card P + card Q"
  shows "P \<inter> Q \<noteq> {}"
proof
  assume "P \<inter> Q = {}"
  with assms have "card P + card Q = card (P \<union> Q)"
    by (metis card_Un_disjoint finite_subset)
  also have "\<dots> \<le> card U" using assms by (intro card_mono) auto
  finally show False using assms by simp
qed

lemma majority_intersects:
  assumes "finite A" "P \<subseteq> A" "Q \<subseteq> A" "card A div 2 < card P" "card A div 2 < card Q"
  shows "P \<inter> Q \<noteq> {}"
  using assms by (intro overlap_nonempty [of A]) auto

lemma map_of_update_conv [simp]: "map_of (AList.update k v al) = (map_of al)(k \<mapsto> v)"
  by (rule update_conv')

end
