(* ===== verification/ClaimTypes.thy ===== *)
theory ClaimTypes
  imports Prelude
begin

text \<open>
  The types of single-decree recovery claims (\<^verbatim>\<open>internal/corrosion/recovery_claims.go\<close>):
  claim keys, the ballot order, claim values and their digest, the signed accept, the
  certificate and its offline verification.

  A Go struct is a record whose fields carry a short prefix (\<open>k_\<close> for \<open>ClaimKey\<close>, \<open>p_\<close> for
  \<open>ActionProof\<close>, \<open>a_\<close> for \<open>ClaimAccept\<close>, \<open>ct_\<close> for \<open>ClaimCertificate\<close>, \<open>w_\<close> for
  \<open>CertExpectation\<close>) followed by the source's field name. The cryptographic primitives are
  parameters: \<open>sha\<close> is SHA-256 on the bytes written to the hash, \<open>hex\<close> the hexadecimal
  rendering of a digest, and a verifier carries certificate parsing, chain building,
  revocation and ECDSA verification as functions.
\<close>

section \<open>Claim keys\<close>

definition ClaimKindVoterConfig :: string where
  "ClaimKindVoterConfig = ''voter_config''"

definition ClaimKindVM :: string where
  "ClaimKindVM = ''vm''"

definition ClaimKindContainer :: string where
  "ClaimKindContainer = ''container''"

record ClaimKey =
  k_TargetKind :: string
  k_TargetName :: string
  k_OwnerEpoch :: int
  k_Attempt :: int
  k_Incarnation :: string

definition UnstampedIncarnation :: string where
  "UnstampedIncarnation = ''unstamped''"

definition IncarnationOf :: "string \<Rightarrow> string" where
  "IncarnationOf createdAt = (if createdAt = '''' then UnstampedIncarnation else createdAt)"

definition Legacy :: "ClaimKey \<Rightarrow> ClaimKey" where
  "Legacy k = k\<lparr>k_Incarnation := ''''\<rparr>"

definition SameDecision :: "ClaimKey \<Rightarrow> ClaimKey \<Rightarrow> bool" where
  "SameDecision k k' \<longleftrightarrow> Legacy k = Legacy k'"

definition WithIncarnation :: "ClaimKey \<Rightarrow> string \<Rightarrow> ClaimKey" where
  "WithIncarnation k inc = k\<lparr>k_Incarnation := inc\<rparr>"

definition IsVoterConfig :: "ClaimKey \<Rightarrow> bool" where
  "IsVoterConfig k \<longleftrightarrow> k_TargetKind k = ClaimKindVoterConfig"

definition IsWorkload :: "ClaimKey \<Rightarrow> bool" where
  "IsWorkload k \<longleftrightarrow> k_TargetKind k = ClaimKindVM \<or> k_TargetKind k = ClaimKindContainer"

text \<open>\<open>Validate\<close> returns nil exactly where this is true.\<close>

definition ClaimKey_Validate :: "ClaimKey \<Rightarrow> bool" where
  "ClaimKey_Validate k =
     (if IsVoterConfig k then
        \<not> (k_TargetName k \<noteq> '''' \<or> k_Attempt k \<noteq> 0 \<or> k_OwnerEpoch k < 0 \<or> k_Incarnation k \<noteq> '''')
      else if IsWorkload k then
        \<not> (k_TargetName k = '''' \<or> k_OwnerEpoch k < 0 \<or> k_Attempt k < 0)
      else False)"

lemma kinds_distinct [simp]: "IsWorkload k \<Longrightarrow> \<not> IsVoterConfig k"
  by (auto simp: IsWorkload_def IsVoterConfig_def ClaimKindVoterConfig_def ClaimKindVM_def
      ClaimKindContainer_def)

lemma Legacy_simps [simp]:
  "k_Incarnation (Legacy k) = ''''" "k_TargetKind (Legacy k) = k_TargetKind k"
  "k_TargetName (Legacy k) = k_TargetName k" "k_OwnerEpoch (Legacy k) = k_OwnerEpoch k"
  "k_Attempt (Legacy k) = k_Attempt k" "Legacy (Legacy k) = Legacy k"
  "IsWorkload (Legacy k) = IsWorkload k" "IsVoterConfig (Legacy k) = IsVoterConfig k"
  by (simp_all add: Legacy_def IsWorkload_def IsVoterConfig_def)

lemma Legacy_id [simp]: "k_Incarnation k = '''' \<Longrightarrow> Legacy k = k"
  by (simp add: Legacy_def)

section \<open>Ballots\<close>

datatype Ballot = Ballot (Round: u64) (Coordinator: string) (Nonce: bytes)

definition Ballot_IsZero :: "Ballot \<Rightarrow> bool" where
  "Ballot_IsZero b \<longleftrightarrow> Round b = 0 \<and> Coordinator b = '''' \<and> length (Nonce b) = 0"

abbreviation zero_ballot :: Ballot where
  "zero_ballot \<equiv> Ballot 0 '''' ''''"

lemma Ballot_IsZero_iff [simp]: "Ballot_IsZero b \<longleftrightarrow> b = zero_ballot"
  by (cases b) (simp add: Ballot_IsZero_def)

text \<open>\<open>bytes.Compare\<close>: lexicographic, -1, 0 or 1.\<close>

definition bytes_Compare :: "bytes \<Rightarrow> bytes \<Rightarrow> int" where
  "bytes_Compare a b = (if a < b then -1 else if a = b then 0 else 1)"

definition CompareBallots :: "Ballot \<Rightarrow> Ballot \<Rightarrow> int" where
  "CompareBallots a b =
     (if Round a > Round b then 1
      else if Round a < Round b then -1
      else if Coordinator a < Coordinator b then 1
      else if Coordinator a > Coordinator b then -1
      else bytes_Compare (Nonce a) (Nonce b))"

definition Ballot_Equal :: "Ballot \<Rightarrow> Ballot \<Rightarrow> bool" where
  "Ballot_Equal b o' \<longleftrightarrow> CompareBallots b o' = 0"

text \<open>
  \<open>CompareBallots\<close> decides a total order, in which the lexicographically lower coordinator of
  two equal rounds is the higher ballot. It is the order of the type.
\<close>

instantiation Ballot :: linorder
begin

definition less_Ballot :: "Ballot \<Rightarrow> Ballot \<Rightarrow> bool" where
  "less_Ballot a b \<longleftrightarrow> CompareBallots a b < 0"

definition less_eq_Ballot :: "Ballot \<Rightarrow> Ballot \<Rightarrow> bool" where
  "less_eq_Ballot a b \<longleftrightarrow> CompareBallots a b \<le> 0"

instance
proof
  fix x y z :: Ballot
  note d = less_Ballot_def less_eq_Ballot_def CompareBallots_def bytes_Compare_def
  show "x < y \<longleftrightarrow> x \<le> y \<and> \<not> y \<le> x" by (auto simp: d split: if_splits)
  show "x \<le> x" by (simp add: d)
  show "x \<le> y \<Longrightarrow> y \<le> z \<Longrightarrow> x \<le> z" by (auto simp: d split: if_splits)
  show "x \<le> y \<Longrightarrow> y \<le> x \<Longrightarrow> x = y"
    by (cases x; cases y) (auto simp: d not_less split: if_splits)
  show "x \<le> y \<or> y \<le> x" by (auto simp: d split: if_splits)
qed

end

lemma CompareBallots_less: "CompareBallots a b < 0 \<longleftrightarrow> a < b"
  by (simp add: less_Ballot_def)

lemma CompareBallots_greater: "CompareBallots a b > 0 \<longleftrightarrow> b < a"
  by (auto simp: less_Ballot_def CompareBallots_def bytes_Compare_def)

lemma CompareBallots_eq: "CompareBallots a b = 0 \<longleftrightarrow> a = b"
  by (cases a; cases b) (auto simp: CompareBallots_def bytes_Compare_def not_less split: if_splits)

lemma Ballot_Equal_iff: "Ballot_Equal a b \<longleftrightarrow> a = b"
  by (simp add: Ballot_Equal_def CompareBallots_eq)

lemmas ballot_order [claim_simps] = CompareBallots_less CompareBallots_greater CompareBallots_eq
  Ballot_Equal_iff

lemma zero_ballot_least: "Round b \<noteq> 0 \<Longrightarrow> zero_ballot < b"
  by (cases b) (simp add: less_Ballot_def CompareBallots_def word_neq_0_conv)

section \<open>Values and their digest\<close>

record VoterMember =
  m_Name :: string
  m_Incarnation :: string

record VoterConfigValue =
  c_Generation :: int
  c_Members :: "VoterMember list"
  c_Change :: string
  c_CreatedBy :: string
  c_CreatedAt :: string

record ActionProof =
  p_ID :: string
  p_Action :: string
  p_TargetKind :: string
  p_TargetName :: string
  p_DestHost :: string
  p_Coordinator :: string
  p_LeaseHolder :: string
  p_LeaseExpiresAt :: string
  p_QuorumLive :: int
  p_QuorumNeeded :: int
  p_OwnerEpoch :: string
  p_FenceEpoch :: string
  p_RelocationToken :: string
  p_LeaseTerm :: int
  p_LeaseKey :: string
  p_ClaimCertificate :: string

record ClaimValue =
  v_Proof :: "ActionProof option"
  v_SourceHost :: string
  v_Config :: "VoterConfigValue option"

text \<open>\<open>binary.BigEndian.PutUint64\<close> of a length, and a length-prefixed field.\<close>

definition be64 :: "nat \<Rightarrow> bytes" where
  "be64 n = map (\<lambda>i. char_of (n div 256 ^ i mod 256)) [7, 6, 5, 4, 3, 2, 1, 0]"

definition claimField :: "string \<Rightarrow> bytes" where
  "claimField s = be64 (length s) @ s"

definition claimFields :: "string list \<Rightarrow> bytes" where
  "claimFields fs = concat (map claimField fs)"

definition i64 :: "int \<Rightarrow> string" where
  "i64 v = (if v < 0 then CHR ''-'' # dec (nat (- v)) else dec (nat v))"

definition MembersHash :: "(bytes \<Rightarrow> bytes) \<Rightarrow> (bytes \<Rightarrow> string) \<Rightarrow> VoterMember list \<Rightarrow> string" where
  "MembersHash sha hex members =
     hex (sha (claimFields (''litevirt-voter-members-v1'' # i64 (int (length members)) #
       concat (map (\<lambda>m. [m_Name m, m_Incarnation m]) members))))"

definition SortMembers :: "VoterMember list \<Rightarrow> VoterMember list" where
  "SortMembers members = sort_key m_Name members"

definition proof_fields :: "ActionProof \<Rightarrow> string \<Rightarrow> string list" where
  "proof_fields p src =
     [p_ID p, p_Action p, p_TargetKind p, p_TargetName p, p_DestHost p, p_Coordinator p,
      p_RelocationToken p, p_FenceEpoch p, p_OwnerEpoch p, i64 (p_LeaseTerm p), p_LeaseKey p, src]"

definition Digest :: "(bytes \<Rightarrow> bytes) \<Rightarrow> (bytes \<Rightarrow> string) \<Rightarrow> ClaimValue \<Rightarrow> string option" where
  "Digest sha hex v =
     (case (v_Proof v, v_Config v) of
        (Some p, None) \<Rightarrow>
          Some (hex (sha (claimFields (''litevirt-recovery-value-v1'' # proof_fields p (v_SourceHost v)))))
      | (None, Some cfg) \<Rightarrow>
          if v_SourceHost v = '''' then
            Some (hex (sha (claimFields [''litevirt-voter-config-value-v1'', i64 (c_Generation cfg),
              MembersHash sha hex (c_Members cfg), c_Change cfg, c_CreatedBy cfg, c_CreatedAt cfg])))
          else None
      | _ \<Rightarrow> None)"

section \<open>Accepts and certificates\<close>

record ClaimAccept =
  a_Voter :: string
  a_VoterIncarnation :: string
  a_ConfigGeneration :: int
  a_Key :: ClaimKey
  a_Ballot :: Ballot
  a_ValueDigest :: string
  a_CertPEM :: string
  a_Signature :: bytes

record ClaimCertificate =
  ct_Key :: ClaimKey
  ct_ConfigGeneration :: int
  ct_Ballot :: Ballot
  ct_ValueDigest :: string
  ct_SourceHost :: string
  ct_Accepts :: "ClaimAccept list"

definition accept_fields ::
  "ClaimKey \<Rightarrow> int \<Rightarrow> Ballot \<Rightarrow> string \<Rightarrow> string \<Rightarrow> string \<Rightarrow> string list" where
  "accept_fields key gen b digest voter incarnation =
     (if k_Incarnation key = ''''
      then [''litevirt-recovery-accept-v1'', k_TargetKind key, k_TargetName key]
      else [''litevirt-recovery-accept-v2'', k_TargetKind key, k_TargetName key, k_Incarnation key]) @
     [i64 (k_OwnerEpoch key), i64 (k_Attempt key), i64 gen, dec (unat (Round b)), Coordinator b,
      Nonce b, digest, voter, incarnation]"

definition acceptPayload ::
  "(bytes \<Rightarrow> bytes) \<Rightarrow> ClaimKey \<Rightarrow> int \<Rightarrow> Ballot \<Rightarrow> string \<Rightarrow> string \<Rightarrow> string \<Rightarrow> bytes" where
  "acceptPayload sha key gen b digest voter incarnation =
     sha (claimFields (accept_fields key gen b digest voter incarnation))"

text \<open>\<open>sg_Sign\<close> is the ECDSA signature of a payload, \<open>None\<close> when signing failed or no key is loaded.\<close>

record ClaimSigner =
  sg_Name :: string
  sg_CertPEM :: string
  sg_Sign :: "bytes \<Rightarrow> bytes option"

definition Sign :: "(bytes \<Rightarrow> bytes) \<Rightarrow> ClaimSigner \<Rightarrow> ClaimKey \<Rightarrow> int \<Rightarrow> Ballot \<Rightarrow> string \<Rightarrow> string \<Rightarrow>
    ClaimAccept option" where
  "Sign sha s key gen b digest incarnation =
     (case sg_Sign s (acceptPayload sha key gen b digest (sg_Name s) incarnation) of
        None \<Rightarrow> None
      | Some sig \<Rightarrow> Some \<lparr>a_Voter = sg_Name s, a_VoterIncarnation = incarnation,
          a_ConfigGeneration = gen, a_Key = key, a_Ballot = b, a_ValueDigest = digest,
          a_CertPEM = sg_CertPEM s, a_Signature = sig\<rparr>)"

record x509_cert =
  x_CommonName :: string
  x_SerialNumber :: nat
  x_PublicKey :: "bytes option"

record ClaimVerifier =
  cv_parseCertPEM :: "string \<Rightarrow> x509_cert option"
  cv_chains :: "x509_cert \<Rightarrow> bool"
  cv_IsCertRevoked :: "nat \<Rightarrow> bool"
  cv_VerifyASN1 :: "bytes \<Rightarrow> bytes \<Rightarrow> bytes \<Rightarrow> bool"
  cv_historical :: bool

definition Historical :: "ClaimVerifier \<Rightarrow> ClaimVerifier" where
  "Historical v = v\<lparr>cv_historical := True\<rparr>"

definition cert_revoked :: "ClaimVerifier \<Rightarrow> x509_cert \<Rightarrow> bool" where
  "cert_revoked v c \<longleftrightarrow> \<not> cv_historical v \<and> cv_IsCertRevoked v (x_SerialNumber c)"

record CertExpectation =
  w_Key :: ClaimKey
  w_ValueDigest :: string
  w_ConfigGeneration :: int
  w_Electorate :: "VoterMember list"
  w_Quorum :: int

definition MajorityOf :: "nat \<Rightarrow> nat" where
  "MajorityOf n = n div 2 + 1"

datatype VerifyError = NoVerifier | WrongKey | WrongValue | WrongGeneration | NoQuorum
  | TooFewAccepts nat int
  | NotMember | WrongIncarnation | DifferentAccept | BadCertificate | Unchained | WrongName
  | Revoked | NotECDSA | BadSignature

text \<open>The electorate as the map the loop builds: a later entry of a name replaces an earlier one.\<close>

definition electorate_map :: "VoterMember list \<Rightarrow> (string \<rightharpoonup> string)" where
  "electorate_map ms = map_of (rev (map (\<lambda>m. (m_Name m, m_Incarnation m)) ms))"

definition verifyAccept :: "(bytes \<Rightarrow> bytes) \<Rightarrow> ClaimVerifier \<Rightarrow> ClaimCertificate \<Rightarrow> ClaimAccept \<Rightarrow>
    (string \<rightharpoonup> string) \<Rightarrow> VerifyError option" where
  "verifyAccept sha v cert a electorate =
     (case electorate (a_Voter a) of None \<Rightarrow> Some NotMember
      | Some inc \<Rightarrow>
        if a_VoterIncarnation a \<noteq> inc then Some WrongIncarnation
        else if a_Key a \<noteq> ct_Key cert \<or> \<not> Ballot_Equal (a_Ballot a) (ct_Ballot cert) \<or>
          a_ValueDigest a \<noteq> ct_ValueDigest cert \<or> a_ConfigGeneration a \<noteq> ct_ConfigGeneration cert
        then Some DifferentAccept
        else case cv_parseCertPEM v (a_CertPEM a) of None \<Rightarrow> Some BadCertificate
          | Some c \<Rightarrow>
            if \<not> cv_chains v c then Some Unchained
            else if x_CommonName c \<noteq> a_Voter a then Some WrongName
            else if cert_revoked v c then Some Revoked
            else case x_PublicKey c of None \<Rightarrow> Some NotECDSA
              | Some pub \<Rightarrow>
                if \<not> cv_VerifyASN1 v pub
                  (acceptPayload sha (a_Key a) (a_ConfigGeneration a) (a_Ballot a) (a_ValueDigest a)
                    (a_Voter a) (a_VoterIncarnation a)) (a_Signature a)
                then Some BadSignature else None)"

definition counted_voters :: "(bytes \<Rightarrow> bytes) \<Rightarrow> ClaimVerifier \<Rightarrow> ClaimCertificate \<Rightarrow>
    VoterMember list \<Rightarrow> string list" where
  "counted_voters sha v cert ms =
     remdups (map a_Voter (filter (\<lambda>a. verifyAccept sha v cert a (electorate_map ms) = None) (ct_Accepts cert)))"

definition Verify :: "(bytes \<Rightarrow> bytes) \<Rightarrow> ClaimVerifier option \<Rightarrow> ClaimCertificate \<Rightarrow> CertExpectation \<Rightarrow>
    VerifyError option" where
  "Verify sha vo cert want =
     (case vo of None \<Rightarrow> Some NoVerifier
      | Some v \<Rightarrow>
        if ct_Key cert \<noteq> w_Key want then Some WrongKey
        else if ct_ValueDigest cert \<noteq> w_ValueDigest want then Some WrongValue
        else if ct_ConfigGeneration cert \<noteq> w_ConfigGeneration want then Some WrongGeneration
        else if w_Quorum want < 1 then Some NoQuorum
        else let counted = counted_voters sha v cert (w_Electorate want) in
          if int (length counted) < w_Quorum want then Some (TooFewAccepts (length counted) (w_Quorum want))
          else None)"

section \<open>The field encoding is injective\<close>

lemma length_be64 [simp]: "length (be64 n) = 8"
  by (simp add: be64_def)

text \<open>The same bytes computed on integers, for evaluation.\<close>

lemma be64_code [code]:
  "be64 n = (let m = int n in map (\<lambda>i. char_of (m div 256 ^ i mod 256)) [7, 6, 5, 4, 3, 2, 1, 0])"
proof -
  have "char_of (int n div 256 ^ i mod 256) = (char_of (n div 256 ^ i mod 256) :: char)" for i
    by (metis char_of_nat of_nat_numeral of_nat_power zdiv_int zmod_int)
  then show ?thesis by (simp only: be64_def Let_def)
qed

lemma base256_mod_eq:
  "(\<And>i. i < k \<Longrightarrow> m div 256 ^ i mod 256 = n div 256 ^ i mod 256) \<Longrightarrow> m mod 256 ^ k = n mod (256 ^ k :: nat)"
proof (induction k)
  case (Suc k)
  have "m mod 256 ^ Suc k = m mod (256 ^ k) + 256 ^ k * (m div 256 ^ k mod 256)"
    "n mod 256 ^ Suc k = n mod (256 ^ k) + 256 ^ k * (n div 256 ^ k mod 256)"
    by (simp_all add: power_Suc2 mod_mult2_eq del: power_Suc)
  then show ?case using Suc by simp
qed simp

lemma be64_inj: "be64 m = be64 n \<Longrightarrow> m < 2 ^ 64 \<Longrightarrow> n < 2 ^ 64 \<Longrightarrow> m = n"
proof -
  assume eq: "be64 m = be64 n" and lt: "m < 2 ^ 64" "n < 2 ^ 64"
  have "m mod 256 ^ 8 = n mod (256 ^ 8 :: nat)"
  proof (rule base256_mod_eq)
    fix i :: nat assume "i < 8"
    then have "i \<in> set [7, 6, 5, 4, 3, 2, 1, 0]" by auto
    then have "char_of (m div 256 ^ i mod 256) = (char_of (n div 256 ^ i mod 256) :: char)"
      using eq [unfolded be64_def map_eq_conv] by (rule bspec [rotated])
    then have "(of_char (char_of (m div 256 ^ i mod 256) :: char) :: nat) =
      of_char (char_of (n div 256 ^ i mod 256) :: char)" by (rule arg_cong)
    then show "m div 256 ^ i mod 256 = n div 256 ^ i mod 256" by simp
  qed
  then show "m = n" using lt by simp
qed

definition short_fields :: "string list \<Rightarrow> bool" where
  "short_fields fs \<longleftrightarrow> list_all (\<lambda>s. length s < 2 ^ 64) fs"

lemma short_fields_code [code]: "short_fields fs \<longleftrightarrow> list_all (\<lambda>s. int (length s) < 2 ^ 64) fs"
proof -
  have "int (length s) < 2 ^ 64 \<longleftrightarrow> length s < 2 ^ 64" for s :: string
    using of_nat_less_iff [of "length s" "2 ^ 64", where ?'a = int] by simp
  then show ?thesis by (simp only: short_fields_def)
qed

lemma claimFields_simps:
  "claimFields [] = []" "claimFields (f # fs) = be64 (length f) @ f @ claimFields fs"
  by (simp_all add: claimFields_def claimField_def)

lemma claimFields_inj:
  "claimFields fs = claimFields gs \<Longrightarrow> short_fields fs \<Longrightarrow> short_fields gs \<Longrightarrow> fs = gs"
proof (induction fs arbitrary: gs)
  case Nil
  then show ?case by (cases gs) (auto simp: be64_def claimFields_simps)
next
  case (Cons f fs)
  then obtain g gs' where gs: "gs = g # gs'" by (cases gs) (auto simp: be64_def claimFields_simps)
  have "be64 (length f) = be64 (length g)" and rest: "f @ claimFields fs = g @ claimFields gs'"
    using Cons.prems(1) gs by (simp_all add: claimFields_simps)
  then have "length f = length g" using Cons.prems(2,3) gs be64_inj by (simp add: short_fields_def)
  then have "f = g" "claimFields fs = claimFields gs'" using rest by simp_all
  then show ?case using Cons.IH [of gs'] Cons.prems(2,3) gs by (simp add: short_fields_def)
qed

lemma i64_inj [simp]: "i64 a = i64 b \<longleftrightarrow> a = b"
proof -
  have neq: "CHR ''-'' # xs \<noteq> dec n" "dec n \<noteq> CHR ''-'' # xs" for xs n
  proof -
    show "CHR ''-'' # xs \<noteq> dec n"
    proof
      assume "CHR ''-'' # xs = dec n"
      then have "hd (dec n) = CHR ''-''" by (metis list.sel(1))
      then show False using hd_dec [of n] by (simp add: is_digit_def)
    qed
    then show "dec n \<noteq> CHR ''-'' # xs" by metis
  qed
  show ?thesis by (cases "a < 0"; cases "b < 0") (auto simp: i64_def neq eq_nat_nat_iff)
qed

text \<open>The fields the digest binds; the lease-holder, quorum and certificate fields are not among them.\<close>

definition binding :: "ClaimValue \<Rightarrow> string list + (int \<times> VoterMember list \<times> string \<times> string \<times> string)" where
  "binding v = (case v_Proof v of
      Some p \<Rightarrow> Inl (proof_fields p (v_SourceHost v))
    | None \<Rightarrow> (case v_Config v of
        Some c \<Rightarrow> Inr (c_Generation c, c_Members c, c_Change c, c_CreatedBy c, c_CreatedAt c)
      | None \<Rightarrow> Inl []))"

text \<open>The field lists \<open>Digest\<close> hashes for a value, the one of its member list included.\<close>

definition members_fields :: "VoterMember list \<Rightarrow> string list" where
  "members_fields ms = ''litevirt-voter-members-v1'' # i64 (int (length ms)) #
     concat (map (\<lambda>m. [m_Name m, m_Incarnation m]) ms)"

definition config_fields :: "(bytes \<Rightarrow> bytes) \<Rightarrow> (bytes \<Rightarrow> string) \<Rightarrow> VoterConfigValue \<Rightarrow> string list" where
  "config_fields sha hex c = [''litevirt-voter-config-value-v1'', i64 (c_Generation c),
     MembersHash sha hex (c_Members c), c_Change c, c_CreatedBy c, c_CreatedAt c]"

definition hashed_fields :: "(bytes \<Rightarrow> bytes) \<Rightarrow> (bytes \<Rightarrow> string) \<Rightarrow> ClaimValue \<Rightarrow> string list set" where
  "hashed_fields sha hex v =
     (case v_Proof v of
        Some p \<Rightarrow> {''litevirt-recovery-value-v1'' # proof_fields p (v_SourceHost v)} | None \<Rightarrow> {}) \<union>
     (case v_Config v of
        Some c \<Rightarrow> {members_fields (c_Members c), config_fields sha hex c} | None \<Rightarrow> {})"

text \<open>
  What a digest needs of the hash to tell two values apart: the few byte strings actually
  hashed for them do not collide, and no field is longer than an \<open>uint64\<close> can say.
\<close>

definition no_collision :: "(bytes \<Rightarrow> bytes) \<Rightarrow> (bytes \<Rightarrow> string) \<Rightarrow> string list set \<Rightarrow> bool" where
  "no_collision sha hex F \<longleftrightarrow>
     inj_on (\<lambda>x. hex (sha x)) (claimFields ` F) \<and> (\<forall>fs \<in> F. short_fields fs)"

lemma no_collisionD:
  "no_collision sha hex F \<Longrightarrow> fs \<in> F \<Longrightarrow> gs \<in> F \<Longrightarrow>
   hex (sha (claimFields fs)) = hex (sha (claimFields gs)) \<Longrightarrow> fs = gs"
  by (rule claimFields_inj) (auto simp: no_collision_def inj_on_def)

lemma members_fields_inj: "members_fields ms = members_fields ns \<Longrightarrow> ms = ns"
proof (induction ms arbitrary: ns)
  case Nil
  then show ?case by (cases ns) (simp_all add: members_fields_def)
next
  case (Cons m ms)
  then obtain n ns' where ns: "ns = n # ns'" by (cases ns) (simp_all add: members_fields_def)
  with Cons.prems have "m = n" by (simp add: members_fields_def)
  then show ?case using Cons.IH [of ns'] Cons.prems ns by (simp add: members_fields_def)
qed

lemma MembersHash_fields: "MembersHash sha hex ms = hex (sha (claimFields (members_fields ms)))"
  by (simp only: MembersHash_def members_fields_def)

lemma accept_fields_inj:
  assumes "accept_fields k g b d q i = accept_fields k' g' b' d' q' i'"
  shows "k = k' \<and> g = g' \<and> b = b' \<and> d = d' \<and> q = q' \<and> i = i'"
proof -
  have inc: "(k_Incarnation k = []) = (k_Incarnation k' = [])"
    using arg_cong [OF assms, of length] by (simp add: accept_fields_def split: if_splits)
  have "k = k'"
    using assms inc by (cases "k_Incarnation k = []")
      (simp_all add: accept_fields_def ClaimKey.equality)
  moreover have "b = b'"
    using assms inc by (cases "k_Incarnation k = []"; cases b; cases b')
      (simp_all add: accept_fields_def word_unat_eq_iff)
  ultimately show ?thesis
    using assms inc by (cases "k_Incarnation k = []") (simp_all add: accept_fields_def)
qed

text \<open>What a digest is the hash of.\<close>

lemma Digest_cases:
  assumes "Digest sha hex v = Some d"
  obtains (workload) p where "v_Proof v = Some p" "v_Config v = None"
      "d = hex (sha (claimFields (''litevirt-recovery-value-v1'' # proof_fields p (v_SourceHost v))))"
  | (config) c where "v_Proof v = None" "v_Config v = Some c" "v_SourceHost v = ''''"
      "d = hex (sha (claimFields (config_fields sha hex c)))"
  using assms unfolding Digest_def config_fields_def
  by (auto split: option.splits if_splits)

section \<open>Certificates\<close>

lemma verifyAccept_sound:
  assumes "verifyAccept sha v cert a (electorate_map ms) = None"
  shows "a_Voter a \<in> m_Name ` set ms" "a_Key a = ct_Key cert" "a_Ballot a = ct_Ballot cert"
    "a_ValueDigest a = ct_ValueDigest cert" "a_ConfigGeneration a = ct_ConfigGeneration cert"
    "electorate_map ms (a_Voter a) = Some (a_VoterIncarnation a)"
proof -
  show e: "electorate_map ms (a_Voter a) = Some (a_VoterIncarnation a)"
    using assms by (auto simp: verifyAccept_def split: option.splits if_splits)
  then have "(a_Voter a, a_VoterIncarnation a) \<in> set (map (\<lambda>m. (m_Name m, m_Incarnation m)) ms)"
    unfolding electorate_map_def by (metis map_of_SomeD set_rev)
  then show "a_Voter a \<in> m_Name ` set ms" by auto
qed (use assms in \<open>auto simp: verifyAccept_def ballot_order split: option.splits if_splits\<close>)

lemma set_counted_voters:
  "set (counted_voters sha v cert ms) \<subseteq> m_Name ` set ms"
  using verifyAccept_sound(1) by (fastforce simp: counted_voters_def)

text \<open>A certificate that verifies carries a quorum of distinct members' accepts for its value.\<close>

lemma Verify_quorum:
  assumes "Verify sha (Some v) cert want = None"
  shows "ct_Key cert = w_Key want" "ct_ValueDigest cert = w_ValueDigest want"
    "ct_ConfigGeneration cert = w_ConfigGeneration want"
    "\<exists>Q. Q \<subseteq> m_Name ` set (w_Electorate want) \<and> w_Quorum want \<le> int (card Q) \<and> 1 \<le> w_Quorum want \<and>
      (\<forall>q \<in> Q. \<exists>a \<in> set (ct_Accepts cert).
        a_Voter a = q \<and> verifyAccept sha v cert a (electorate_map (w_Electorate want)) = None)"
proof -
  let ?C = "counted_voters sha v cert (w_Electorate want)"
  have "w_Quorum want \<le> int (card (set ?C))" "1 \<le> w_Quorum want"
    using assms by (auto simp: Verify_def Let_def counted_voters_def length_remdups_card_conv
        split: if_splits)
  moreover have "set ?C \<subseteq> m_Name ` set (w_Electorate want)" by (rule set_counted_voters)
  moreover have "\<forall>q \<in> set ?C. \<exists>a \<in> set (ct_Accepts cert).
      a_Voter a = q \<and> verifyAccept sha v cert a (electorate_map (w_Electorate want)) = None"
    by (auto simp: counted_voters_def)
  ultimately show "\<exists>Q. Q \<subseteq> m_Name ` set (w_Electorate want) \<and> w_Quorum want \<le> int (card Q) \<and>
      1 \<le> w_Quorum want \<and> (\<forall>q \<in> Q. \<exists>a \<in> set (ct_Accepts cert).
        a_Voter a = q \<and> verifyAccept sha v cert a (electorate_map (w_Electorate want)) = None)"
    by blast
qed (use assms in \<open>auto simp: Verify_def split: if_splits\<close>)

section \<open>Properties\<close>

text \<open>a digest identifies its value. Two claim values with the same digest agree on every
  binding field (for a recovery: proof id, action, target, destination, coordinator, token,
  epochs, lease term and key, and the source host; for a voter configuration: generation,
  members, change and creation), and a recovery never shares a digest with a configuration.
  The fields the code leaves out of the digest are not claimed. The hypothesis is that the byte
  strings hashed for these two values do not collide.\<close>

theorem Digest_binds_value:
  assumes "Digest sha hex v = Some d" "Digest sha hex v' = Some d"
    and nc: "no_collision sha hex (hashed_fields sha hex v \<union> hashed_fields sha hex v')"
  shows "binding v = binding v'"
  using assms(1)
proof (cases rule: Digest_cases)
  case (workload p)
  note w = this
  from assms(2) show ?thesis
  proof (cases rule: Digest_cases)
    case (workload p')
    then have "''litevirt-recovery-value-v1'' # proof_fields p (v_SourceHost v) =
        ''litevirt-recovery-value-v1'' # proof_fields p' (v_SourceHost v')"
      using w by (intro no_collisionD [OF nc]) (simp_all add: hashed_fields_def)
    then show ?thesis using w workload by (simp add: binding_def)
  next
    case (config c)
    then have "''litevirt-recovery-value-v1'' # proof_fields p (v_SourceHost v) = config_fields sha hex c"
      using w by (intro no_collisionD [OF nc]) (simp_all add: hashed_fields_def)
    then show ?thesis by (simp add: config_fields_def)
  qed
next
  case (config c)
  note w = this
  from assms(2) show ?thesis
  proof (cases rule: Digest_cases)
    case (workload p)
    then have "config_fields sha hex c = ''litevirt-recovery-value-v1'' # proof_fields p (v_SourceHost v')"
      using w by (intro no_collisionD [OF nc]) (simp_all add: hashed_fields_def)
    then show ?thesis by (simp add: config_fields_def)
  next
    case (config c')
    then have eq: "config_fields sha hex c = config_fields sha hex c'"
      using w by (intro no_collisionD [OF nc]) (simp_all add: hashed_fields_def)
    then have "members_fields (c_Members c) = members_fields (c_Members c')"
      using w config by (intro no_collisionD [OF nc])
        (simp_all add: hashed_fields_def config_fields_def MembersHash_fields)
    then have "c_Members c = c_Members c'" by (rule members_fields_inj)
    then show ?thesis using eq w config by (simp add: binding_def config_fields_def)
  qed
qed

text \<open>what a voter signs identifies what it accepted. Two accept payloads with the same
  bytes under a hash that does not collide on them are for the same key (incarnation
  included), generation, ballot, value digest, voter and voter incarnation; in particular a
  signature made at a legacy key never verifies at an incarnation-scoped one.\<close>

theorem acceptPayload_binds:
  assumes "acceptPayload sha k g b d q i = acceptPayload sha k' g' b' d' q' i'"
    and "inj_on sha {claimFields (accept_fields k g b d q i), claimFields (accept_fields k' g' b' d' q' i')}"
    and "short_fields (accept_fields k g b d q i)" "short_fields (accept_fields k' g' b' d' q' i')"
  shows "k = k' \<and> g = g' \<and> b = b' \<and> d = d' \<and> q = q' \<and> i = i'"
proof -
  have "claimFields (accept_fields k g b d q i) = claimFields (accept_fields k' g' b' d' q' i')"
    using assms(1) unfolding acceptPayload_def by (rule inj_onD [OF assms(2)]) simp_all
  then have "accept_fields k g b d q i = accept_fields k' g' b' d' q' i'"
    using assms(3,4) by (rule claimFields_inj)
  then show ?thesis by (rule accept_fields_inj)
qed

text \<open>The concrete values of the witnesses below; \<open>id\<close> stands in for the hash and its rendering.\<close>

definition demo_proof :: "string \<Rightarrow> string \<Rightarrow> ActionProof" where
  "demo_proof i dest = \<lparr>p_ID = i, p_Action = ''reschedule'', p_TargetKind = ''vm'', p_TargetName = ''web'',
     p_DestHost = dest, p_Coordinator = ''a'', p_LeaseHolder = '''', p_LeaseExpiresAt = '''',
     p_QuorumLive = 0, p_QuorumNeeded = 0, p_OwnerEpoch = ''4'', p_FenceEpoch = '''',
     p_RelocationToken = '''', p_LeaseTerm = 7, p_LeaseKey = '''', p_ClaimCertificate = ''''\<rparr>"

definition demo_value :: "string \<Rightarrow> string \<Rightarrow> ClaimValue" where
  "demo_value i dest = \<lparr>v_Proof = Some (demo_proof i dest), v_SourceHost = ''e'', v_Config = None\<rparr>"

definition demo_key :: ClaimKey where
  "demo_key = \<lparr>k_TargetKind = ''vm'', k_TargetName = ''web'', k_OwnerEpoch = 4, k_Attempt = 0,
     k_Incarnation = ''''\<rparr>"

lemma dec_small [simp]: "n < 10 \<Longrightarrow> dec n = [digit n]"
  by (simp add: dec.simps)

theorem Digest_binds_value_witness:
  "binding ((demo_value ''p1'' ''b'')\<lparr>v_Proof := Some ((demo_proof ''p1'' ''b'')\<lparr>p_QuorumLive := 3\<rparr>)\<rparr>) =
   binding (demo_value ''p1'' ''b'')"
proof -
  let ?v = "demo_value ''p1'' ''b''"
  let ?w = "?v\<lparr>v_Proof := Some ((demo_proof ''p1'' ''b'')\<lparr>p_QuorumLive := 3\<rparr>)\<rparr>"
  have d: "Digest id id ?w = Digest id id ?v"
    by (simp add: Digest_def demo_value_def proof_fields_def)
  obtain x where x: "Digest id id ?v = Some x" by (simp add: Digest_def demo_value_def)
  have nc: "no_collision id id (hashed_fields id id ?w \<union> hashed_fields id id ?v)"
    by (simp add: no_collision_def hashed_fields_def demo_value_def demo_proof_def proof_fields_def
        short_fields_def i64_def)
  show ?thesis using Digest_binds_value [OF _ x nc] d x by simp
qed

theorem acceptPayload_binds_witness:
  "Legacy (demo_key\<lparr>k_Incarnation := ''t0''\<rparr>) = demo_key"
proof -
  let ?k = "Legacy (demo_key\<lparr>k_Incarnation := ''t0''\<rparr>)"
  let ?f = "\<lambda>k. accept_fields k 3 (Ballot 5 ''a'' ''n'') ''d'' ''b'' ''i''"
  have f: "?f ?k = ?f demo_key" by (simp add: accept_fields_def demo_key_def)
  have s: "short_fields (?f ?k)" "short_fields (?f demo_key)"
    by (simp_all add: short_fields_def accept_fields_def demo_key_def i64_def)
  have p: "acceptPayload id ?k 3 (Ballot 5 ''a'' ''n'') ''d'' ''b'' ''i'' =
      acceptPayload id demo_key 3 (Ballot 5 ''a'' ''n'') ''d'' ''b'' ''i''"
    unfolding acceptPayload_def f ..
  show ?thesis using acceptPayload_binds [OF p _ s] by simp
qed

end
