(* ===== verification/VoterSet.thy ===== *)
theory VoterSet
  imports ClaimTypes
begin

text \<open>
  The explicit voter set (\<^verbatim>\<open>internal/corrosion/voter_config.go\<close>): one generation of members,
  which change of it voters may decide, and what the certificate deciding it must certify.
  The table that stores the rows and the adoption records is part of the voter's database
  (theory \<open>ClaimVoter\<close>).

  Generations count decided changes and stay far below the end of \<open>int64\<close>, so they are
  unbounded integers here.
\<close>

record VoterConfig =
  vc_Value :: VoterConfigValue
  vc_MembersHash :: string
  vc_Certificate :: string

abbreviation vc_Generation :: "VoterConfig \<Rightarrow> int" where
  "vc_Generation c \<equiv> c_Generation (vc_Value c)"

abbreviation vc_Members :: "VoterConfig \<Rightarrow> VoterMember list" where
  "vc_Members c \<equiv> c_Members (vc_Value c)"

text \<open>A nil \<open>*VoterConfig\<close> is \<open>None\<close>; the methods are defined on it, as in the source.\<close>

definition Explicit :: "VoterConfig option \<Rightarrow> bool" where
  "Explicit v \<longleftrightarrow> (case v of None \<Rightarrow> False | Some c \<Rightarrow> length (vc_Members c) > 0)"

definition Member :: "VoterConfig option \<Rightarrow> string \<Rightarrow> VoterMember option" where
  "Member v name = (case v of None \<Rightarrow> None | Some c \<Rightarrow> find (\<lambda>m. m_Name m = name) (vc_Members c))"

definition Names :: "VoterConfig option \<Rightarrow> string list" where
  "Names v = (case v of None \<Rightarrow> [] | Some c \<Rightarrow> sort (map m_Name (vc_Members c)))"

definition VoterChangeGenesis :: string where "VoterChangeGenesis = ''genesis''"

definition VoterChangeReset :: string where "VoterChangeReset = ''reset''"

definition VoterChangeAdd :: "string \<Rightarrow> string" where
  "VoterChangeAdd host = ''add:'' @ host"

definition VoterChangeRm :: "string \<Rightarrow> string" where
  "VoterChangeRm host = ''rm:'' @ host"

definition IsForcedChange :: "string \<Rightarrow> bool" where
  "IsForcedChange change \<longleftrightarrow> take (length ''force:'') change = ''force:''"

datatype ConfigError = DoesNotFollow | EmptyAfterEmpty | MemberLacksField | MemberTwice | OnlyGenesis
  | ResetWithMembers | IncarnationChanged | NotDescribed | EmptiesSet | NotOneChange | BadValue

definition prev_generation :: "VoterConfig option \<Rightarrow> int" where
  "prev_generation prev = (case prev of None \<Rightarrow> 0 | Some c \<Rightarrow> vc_Generation c)"

definition ExpectedVoterConfigCertificate ::
  "(bytes \<Rightarrow> bytes) \<Rightarrow> (bytes \<Rightarrow> string) \<Rightarrow> VoterConfig option \<Rightarrow> VoterConfigValue \<Rightarrow>
   ConfigError + CertExpectation" where
  "ExpectedVoterConfigCertificate sha hex prev next =
     (let prevGen = prev_generation prev in
      if c_Generation next \<noteq> prevGen + 1 then Inl DoesNotFollow
      else case Digest sha hex \<lparr>v_Proof = None, v_SourceHost = '''', v_Config = Some next\<rparr> of
        None \<Rightarrow> Inl BadValue
      | Some digest \<Rightarrow>
          let want = (\<lambda>electorate quorum.
            \<lparr>w_Key = \<lparr>k_TargetKind = ClaimKindVoterConfig, k_TargetName = '''', k_OwnerEpoch = prevGen,
                k_Attempt = 0, k_Incarnation = ''''\<rparr>,
              w_ValueDigest = digest, w_ConfigGeneration = prevGen, w_Electorate = electorate,
              w_Quorum = quorum\<rparr>) in
          if Explicit prev then
            (case prev of Some c \<Rightarrow> Inr (want (vc_Members c) (int (MajorityOf (length (vc_Members c)))))
             | None \<Rightarrow> Inl BadValue)
          else if length (c_Members next) = 0 then Inl EmptyAfterEmpty
          else Inr (want (c_Members next) (int (length (c_Members next)))))"

text \<open>The first loop over the members: every entry complete, no name twice.\<close>

fun check_members :: "string list \<Rightarrow> VoterMember list \<Rightarrow> ConfigError option" where
  "check_members seen [] = None"
| "check_members seen (m # ms) =
     (if m_Name m = '''' \<or> m_Incarnation m = '''' then Some MemberLacksField
      else if m_Name m \<in> set seen then Some MemberTwice
      else check_members (m_Name m # seen) ms)"

text \<open>The second loop: the names \<open>old\<close> does not have, or an error at a changed incarnation.\<close>

fun added_members :: "(string \<rightharpoonup> string) \<Rightarrow> VoterMember list \<Rightarrow> ConfigError + string list" where
  "added_members old [] = Inr []"
| "added_members old (m # ms) =
     (case old (m_Name m) of
        None \<Rightarrow> (case added_members old ms of Inl e \<Rightarrow> Inl e | Inr as \<Rightarrow> Inr (m_Name m # as))
      | Some inc \<Rightarrow> if inc \<noteq> m_Incarnation m then Inl IncarnationChanged else added_members old ms)"

definition removed_members :: "VoterMember list \<Rightarrow> VoterMember list \<Rightarrow> string list" where
  "removed_members prev next =
     filter (\<lambda>n. n \<notin> m_Name ` set next) (remdups (map m_Name prev))"

text \<open>\<open>ValidateVoterChange\<close> returns nil exactly where this is \<open>None\<close>.\<close>

definition ValidateVoterChange :: "VoterConfig option \<Rightarrow> VoterConfigValue \<Rightarrow> ConfigError option" where
  "ValidateVoterChange prev next =
     (if c_Generation next \<noteq> prev_generation prev + 1 then Some DoesNotFollow
      else case check_members [] (c_Members next) of Some e \<Rightarrow> Some e
      | None \<Rightarrow>
        (case prev of
           Some p \<Rightarrow>
             if \<not> Explicit prev then
               (if c_Change next \<noteq> VoterChangeGenesis \<or> length (c_Members next) = 0
                then Some OnlyGenesis else None)
             else if c_Change next = VoterChangeReset then
               (if length (c_Members next) \<noteq> 0 then Some ResetWithMembers else None)
             else (case added_members (electorate_map (vc_Members p)) (c_Members next) of
               Inl e \<Rightarrow> Some e
             | Inr added \<Rightarrow>
                 let removed = removed_members (vc_Members p) (c_Members next) in
                 if length added = 1 \<and> length removed = 0 then
                   (if c_Change next \<noteq> VoterChangeAdd (added ! 0) then Some NotDescribed else None)
                 else if length removed = 1 \<and> length added = 0 then
                   (if length (c_Members next) = 0 then Some EmptiesSet
                    else if c_Change next \<noteq> VoterChangeRm (removed ! 0) then Some NotDescribed
                    else None)
                 else Some NotOneChange)
         | None \<Rightarrow>
             (if c_Change next \<noteq> VoterChangeGenesis \<or> length (c_Members next) = 0
              then Some OnlyGenesis else None)))"

section \<open>What a validated change keeps\<close>

definition member_names :: "VoterMember list \<Rightarrow> string set" where
  "member_names ms = m_Name ` set ms"

definition well_formed_members :: "VoterMember list \<Rightarrow> bool" where
  "well_formed_members ms \<longleftrightarrow> distinct (map m_Name ms)"

lemma card_member_names: "well_formed_members ms \<Longrightarrow> card (member_names ms) = length ms"
  using distinct_card [of "map m_Name ms"] by (simp add: member_names_def well_formed_members_def)

lemma check_members_distinct:
  "check_members seen ms = None \<Longrightarrow>
   distinct (map m_Name ms) \<and> (\<forall>m \<in> set ms. m_Name m \<notin> set seen)"
proof (induction ms arbitrary: seen)
  case (Cons m ms)
  then have "check_members (m_Name m # seen) ms = None" "m_Name m \<notin> set seen"
    by (simp_all split: if_splits)
  then show ?case using Cons.IH [of "m_Name m # seen"] by auto
qed simp

lemma added_members_set:
  "added_members old ms = Inr as \<Longrightarrow> distinct (map m_Name ms) \<Longrightarrow>
   set as = {n \<in> m_Name ` set ms. old n = None} \<and> distinct as \<and>
   (\<forall>m \<in> set ms. old (m_Name m) = None \<or> old (m_Name m) = Some (m_Incarnation m))"
proof (induction ms arbitrary: as)
  case (Cons m ms)
  then show ?case
    by (auto split: option.splits sum.splits if_splits)
qed simp

lemma electorate_map_dom [simp]: "electorate_map ms n = None \<longleftrightarrow> n \<notin> member_names ms"
  by (simp add: electorate_map_def member_names_def map_of_eq_None_iff image_image)

lemma removed_members_set:
  "set (removed_members prev next) = member_names prev - member_names next"
  by (auto simp: removed_members_def member_names_def)

lemma distinct_removed [simp]: "distinct (removed_members prev next)"
  by (simp add: removed_members_def)

text \<open>
  A change between two generations with members adds one name or removes one, and every member
  that stays keeps its entry.
\<close>

lemma ValidateVoterChange_cases:
  assumes "ValidateVoterChange (Some p) next = None" "vc_Members p \<noteq> []" "c_Members next \<noteq> []"
  shows "well_formed_members (c_Members next)"
    and "(\<exists>n. n \<notin> member_names (vc_Members p) \<and>
            member_names (c_Members next) = insert n (member_names (vc_Members p))) \<or>
         (\<exists>n. n \<in> member_names (vc_Members p) \<and>
            member_names (c_Members next) = member_names (vc_Members p) - {n})"
    and "\<forall>m \<in> set (c_Members next). m_Name m \<in> member_names (vc_Members p) \<longrightarrow>
           electorate_map (vc_Members p) (m_Name m) = Some (m_Incarnation m)"
proof -
  let ?old = "electorate_map (vc_Members p)"
  have cm: "check_members [] (c_Members next) = None"
    using assms(1) by (auto simp: ValidateVoterChange_def split: option.splits if_splits)
  then have d: "distinct (map m_Name (c_Members next))" using check_members_distinct by blast
  then show "well_formed_members (c_Members next)" by (simp add: well_formed_members_def)
  have ex: "Explicit (Some p)" using assms(2) by (simp add: Explicit_def)
  obtain as where as: "added_members ?old (c_Members next) = Inr as"
    using assms cm ex by (auto simp: ValidateVoterChange_def split: sum.splits if_splits)
  note A = added_members_set [OF as d]
  then have set_as: "set as = member_names (c_Members next) - member_names (vc_Members p)"
    by (auto simp: member_names_def)
  show "\<forall>m \<in> set (c_Members next). m_Name m \<in> member_names (vc_Members p) \<longrightarrow>
      ?old (m_Name m) = Some (m_Incarnation m)"
    using A electorate_map_dom by blast
  let ?rm = "removed_members (vc_Members p) (c_Members next)"
  have "length as = 1 \<and> length ?rm = 0 \<or> length ?rm = 1 \<and> length as = 0"
    using assms cm ex as by (auto simp: ValidateVoterChange_def Let_def split: if_splits)
  then show "(\<exists>n. n \<notin> member_names (vc_Members p) \<and>
            member_names (c_Members next) = insert n (member_names (vc_Members p))) \<or>
         (\<exists>n. n \<in> member_names (vc_Members p) \<and>
            member_names (c_Members next) = member_names (vc_Members p) - {n})"
  proof
    assume l: "length as = 1 \<and> length ?rm = 0"
    then obtain n where "as = [n]" by (auto simp: length_Suc_conv)
    then have "member_names (c_Members next) - member_names (vc_Members p) = {n}" using set_as by simp
    moreover have "member_names (vc_Members p) - member_names (c_Members next) = {}"
      using l removed_members_set [of "vc_Members p" "c_Members next"] by simp
    ultimately show ?thesis by blast
  next
    assume l: "length ?rm = 1 \<and> length as = 0"
    then obtain n where "?rm = [n]" by (auto simp: length_Suc_conv)
    then have "member_names (vc_Members p) - member_names (c_Members next) = {n}"
      using removed_members_set [of "vc_Members p" "c_Members next"] by simp
    moreover have "member_names (c_Members next) - member_names (vc_Members p) = {}"
      using l set_as by simp
    ultimately show ?thesis by blast
  qed
qed

lemma finite_member_names [simp]: "finite (member_names ms)"
  by (simp add: member_names_def)

section \<open>Properties\<close>

text \<open>C17: adjacent generations share a voter. When a change passes \<open>ValidateVoterChange\<close> between
  two generations with members, every majority of the old generation and every majority of the
  new one have a member in common, and that member's entry (its incarnation) is the same in
  both.\<close>

theorem adjacent_majorities_intersect:
  assumes "ValidateVoterChange (Some p) next = None" "vc_Members p \<noteq> []" "c_Members next \<noteq> []"
    and "well_formed_members (vc_Members p)"
    and "P \<subseteq> member_names (vc_Members p)" "MajorityOf (length (vc_Members p)) \<le> card P"
    and "Q \<subseteq> member_names (c_Members next)" "MajorityOf (length (c_Members next)) \<le> card Q"
  shows "\<exists>n \<in> P \<inter> Q. electorate_map (c_Members next) n = electorate_map (vc_Members p) n"
proof -
  note V = ValidateVoterChange_cases [OF assms(1-3)]
  let ?N = "member_names (vc_Members p)" and ?M = "member_names (c_Members next)"
  have N: "card ?N = length (vc_Members p)" and M: "card ?M = length (c_Members next)"
    using card_member_names assms(4) V(1) by auto
  have "P \<inter> Q \<noteq> {}"
    using V(2)
  proof (elim disjE exE conjE)
    fix n assume n: "n \<notin> ?N" "?M = insert n ?N"
    then have "card ?M = Suc (card ?N)" by simp
    then show ?thesis using assms(5-8) N M n
      by (intro overlap_nonempty [of ?M]) (auto simp: MajorityOf_def)
  next
    fix n assume n: "n \<in> ?N" "?M = ?N - {n}"
    then have "card ?N = Suc (card ?M)" using card_Suc_Diff1 [of ?N n] by simp
    then show ?thesis using assms(5-8) N M n
      by (intro overlap_nonempty [of ?N]) (auto simp: MajorityOf_def)
  qed
  then obtain n where n: "n \<in> P" "n \<in> Q" by blast
  then obtain inc where inc: "electorate_map (c_Members next) n = Some inc"
    using assms(7) electorate_map_dom by (metis not_None_eq subsetD)
  then have "(n, inc) \<in> set (map (\<lambda>m. (m_Name m, m_Incarnation m)) (c_Members next))"
    unfolding electorate_map_def by (metis map_of_SomeD set_rev)
  then have "electorate_map (vc_Members p) n = Some inc" using V(3) n assms(5) by auto
  then show ?thesis using n inc by (intro bexI [of _ n]) simp_all
qed

definition demo_members :: "string list \<Rightarrow> VoterMember list" where
  "demo_members ns = map (\<lambda>n. \<lparr>m_Name = n, m_Incarnation = ''i''\<rparr>) ns"

definition demo_config :: "int \<Rightarrow> string list \<Rightarrow> string \<Rightarrow> VoterConfigValue" where
  "demo_config g ns ch = \<lparr>c_Generation = g, c_Members = demo_members ns, c_Change = ch,
     c_CreatedBy = ''op'', c_CreatedAt = ''t''\<rparr>"

definition demo_row :: "int \<Rightarrow> string list \<Rightarrow> string \<Rightarrow> VoterConfig" where
  "demo_row g ns ch = \<lparr>vc_Value = demo_config g ns ch, vc_MembersHash = '''', vc_Certificate = ''''\<rparr>"

lemmas demo_config_defs = demo_row_def demo_config_def demo_members_def

theorem adjacent_majorities_intersect_witness:
  "\<exists>n \<in> {''a'', ''b''} \<inter> {''b'', ''c'', ''d''}.
     electorate_map (demo_members [''a'', ''b'', ''c'', ''d'']) n = electorate_map (demo_members [''a'', ''b'', ''c'']) n"
proof -
  have v: "ValidateVoterChange (Some (demo_row 1 [''a'', ''b'', ''c''] ''genesis''))
      (demo_config 2 [''a'', ''b'', ''c'', ''d''] ''add:d'') = None"
    by (simp add: ValidateVoterChange_def demo_config_defs prev_generation_def Explicit_def
        VoterChangeReset_def electorate_map_def removed_members_def VoterChangeAdd_def)
  show ?thesis
    using adjacent_majorities_intersect [OF v, of "{''a'', ''b''}" "{''b'', ''c'', ''d''}"]
    by (simp add: demo_config_defs well_formed_members_def member_names_def MajorityOf_def)
qed

end
