(* ===== verification/ClaimVoter.thy ===== *)
theory ClaimVoter
  imports VoterSet "HOL-Library.Product_Lexorder"
begin

text \<open>
  The voter of the recovery-claim protocol
  (\<^verbatim>\<open>internal/corrosion/recovery_claims_voter.go\<close>, with the adoption table of
  \<^verbatim>\<open>voter_config.go\<close>): its durable state, \<open>ClaimPrepare\<close>, \<open>ClaimAccept\<close>, and the import
  that carries claim state into a new voter generation.

  \<open>voter_db\<close> is the part of a node's SQLite database these operations touch. Each table is an
  association list in row order. \<open>db_claims\<close> is \<^verbatim>\<open>local_recovery_claims\<close> (legacy keys),
  \<open>db_inc_claims\<close> is \<^verbatim>\<open>local_incarnation_claims\<close>, \<open>db_adoptions\<close> is
  \<^verbatim>\<open>local_voter_adoption\<close>, \<open>db_seals\<close> is \<^verbatim>\<open>local_voter_seals\<close>, \<open>db_configs\<close> the live rows of
  \<^verbatim>\<open>voter_configs\<close>, and \<open>db_targets\<close> the live \<^verbatim>\<open>vms\<close> and \<^verbatim>\<open>containers\<close> rows, each with its kind
  and name. A value column holds the value itself: storing it as JSON and reading it back is the
  identity. An operation is one transaction, so it is a function of the database; an error of
  the code's own checks is \<open>Inl\<close> and leaves the database as it was. Refusal details, which are
  texts for the operator, are left out.
\<close>

section \<open>State\<close>

datatype Refusal = RefusalWrongGeneration | RefusalNotMember | RefusalIncarnationMismatch
  | RefusalNoVoterConfig | RefusalSealed | RefusalBallotStale | RefusalValueConflict
  | RefusalInvalidValue | RefusalOwnerReachable | RefusalSourceMismatch | RefusalProbeUnavailable
  | RefusalSupersedeUnproven | RefusalLegacyKeySealed | ReasonUnreachable

record ClaimVoterState =
  st_Key :: ClaimKey
  st_Promised :: Ballot
  st_Accepted :: Ballot
  st_Value :: "ClaimValue option"
  st_ValueDigest :: string
  st_Accept :: "ClaimAccept option"
  st_ConfigGeneration :: int

definition zero_state :: "ClaimKey \<Rightarrow> ClaimVoterState" where
  "zero_state key = \<lparr>st_Key = key, st_Promised = zero_ballot, st_Accepted = zero_ballot,
     st_Value = None, st_ValueDigest = '''', st_Accept = None, st_ConfigGeneration = 0\<rparr>"

record PrepareResult =
  pr_Promised :: bool
  pr_PromisedBallot :: Ballot
  pr_State :: "ClaimVoterState option"
  pr_Legacy :: "ClaimVoterState option"
  pr_Voter :: string
  pr_Incarnation :: string
  pr_Refusal :: "Refusal option"

record AcceptResult =
  ar_Accepted :: bool
  ar_PromisedBallot :: Ballot
  ar_Accept :: "ClaimAccept option"
  ar_Voter :: string
  ar_Refusal :: "Refusal option"

record TargetRow =
  tr_host_name :: string
  tr_state :: string
  tr_epoch :: int
  tr_pending :: string
  tr_created_at :: string

record voter_db =
  db_hostName :: string
  db_adoptions :: "(int \<times> string list) list"
  db_configs :: "VoterConfig list"
  db_incarnation :: "string option"
  db_claims :: "(ClaimKey \<times> ClaimVoterState) list"
  db_inc_claims :: "(ClaimKey \<times> ClaimVoterState) list"
  db_seals :: "int list"
  db_targets :: "(string \<times> string \<times> TargetRow) list"

datatype StoreError = MissingConfigRow int | NoIncarnation | NoSigningKey | SignFailed
  | CannotAdopt int int | ImportDigestMismatch

section \<open>Standing\<close>

record voterStanding =
  vs_me :: string
  vs_incarnation :: string
  vs_adopted :: int
  vs_cfg :: "VoterConfig option"
  vs_sealed :: bool

text \<open>\<open>SELECT COALESCE(MAX(generation), 0)\<close> over the adoption records.\<close>

definition AdoptedVoterGeneration :: "voter_db \<Rightarrow> int" where
  "AdoptedVoterGeneration db =
     (case map fst (db_adoptions db) of [] \<Rightarrow> 0 | g # gs \<Rightarrow> fold max gs g)"

definition scanVoterConfig :: "VoterConfig \<Rightarrow> VoterConfig" where
  "scanVoterConfig r = r\<lparr>vc_Value := (vc_Value r)\<lparr>c_Members := SortMembers (vc_Members r)\<rparr>\<rparr>"

definition GetVoterConfig :: "voter_db \<Rightarrow> int \<Rightarrow> VoterConfig option" where
  "GetVoterConfig db generation =
     map_option scanVoterConfig (find (\<lambda>r. vc_Generation r = generation) (db_configs db))"

definition AdoptedVoterConfig :: "voter_db \<Rightarrow> StoreError + VoterConfig option" where
  "AdoptedVoterConfig db =
     (let g = AdoptedVoterGeneration db in
      if g = 0 then Inr None
      else case GetVoterConfig db g of None \<Rightarrow> Inl (MissingConfigRow g) | Some v \<Rightarrow> Inr (Some v))"

text \<open>\<open>accepted_round > 0\<close>: the column is a signed 64-bit integer holding the round's bits.\<close>

definition accepted_row :: "ClaimVoterState \<Rightarrow> bool" where
  "accepted_row s \<longleftrightarrow> 0 < sint (Round (st_Accepted s))"

definition config_change_accepted :: "voter_db \<Rightarrow> int \<Rightarrow> bool" where
  "config_change_accepted db g =
     list_ex (\<lambda>(k, s). k_TargetKind k = ClaimKindVoterConfig \<and> k_OwnerEpoch k = g \<and> accepted_row s)
       (db_claims db)"

definition readStandingTx :: "voter_db \<Rightarrow> StoreError + voterStanding" where
  "readStandingTx db =
     (let adopted = AdoptedVoterGeneration db;
          cfg = (if adopted > 0 then GetVoterConfig db adopted else None) in
      if adopted > 0 \<and> cfg = None then Inl (MissingConfigRow adopted)
      else case db_incarnation db of
        None \<Rightarrow> Inl NoIncarnation
      | Some inc \<Rightarrow>
          if inc = '''' then Inl NoIncarnation
          else Inr \<lparr>vs_me = db_hostName db, vs_incarnation = inc, vs_adopted = adopted, vs_cfg = cfg,
            vs_sealed = config_change_accepted db adopted \<or> adopted \<in> set (db_seals db)\<rparr>)"

definition memberCheck :: "voterStanding \<Rightarrow> VoterConfig option \<Rightarrow> Refusal option" where
  "memberCheck st members =
     (case Member members (vs_me st) of
        None \<Rightarrow> Some RefusalNotMember
      | Some m \<Rightarrow> if m_Incarnation m \<noteq> vs_incarnation st then Some RefusalIncarnationMismatch else None)"

definition admit_config :: "voterStanding \<Rightarrow> ClaimKey \<Rightarrow> ClaimValue option \<Rightarrow> Refusal option" where
  "admit_config st key v =
     (if k_OwnerEpoch key \<noteq> vs_adopted st then Some RefusalWrongGeneration
      else case (if Explicit (vs_cfg st) then memberCheck st (vs_cfg st) else None) of
        Some r \<Rightarrow> Some r
      | None \<Rightarrow>
        (case v of None \<Rightarrow> None
         | Some val \<Rightarrow>
           (case v_Config val of
              None \<Rightarrow> Some RefusalInvalidValue
            | Some cfg \<Rightarrow>
                if v_Proof val \<noteq> None then Some RefusalInvalidValue
                else case (if \<not> Explicit (vs_cfg st)
                    then memberCheck st (Some \<lparr>vc_Value = cfg, vc_MembersHash = '''', vc_Certificate = ''''\<rparr>)
                    else None) of
                  Some r \<Rightarrow> Some r
                | None \<Rightarrow>
                    if ValidateVoterChange (vs_cfg st) cfg \<noteq> None then Some RefusalInvalidValue else None)))"

definition admit_workload :: "voterStanding \<Rightarrow> ClaimKey \<Rightarrow> ClaimValue option \<Rightarrow> Refusal option" where
  "admit_workload st key v =
     (if \<not> Explicit (vs_cfg st) then Some RefusalNoVoterConfig
      else case memberCheck st (vs_cfg st) of
        Some r \<Rightarrow> Some r
      | None \<Rightarrow>
        if vs_sealed st then Some RefusalSealed
        else case v of None \<Rightarrow> None
        | Some val \<Rightarrow>
          (case v_Proof val of
             None \<Rightarrow> Some RefusalInvalidValue
           | Some p \<Rightarrow>
               if v_Config val \<noteq> None then Some RefusalInvalidValue
               else if p_TargetKind p \<noteq> k_TargetKind key \<or> p_TargetName p \<noteq> k_TargetName key \<or>
                 p_OwnerEpoch p \<noteq> i64 (k_OwnerEpoch key) then Some RefusalInvalidValue
               else if p_ID p = '''' \<or> p_DestHost p = '''' \<or> v_SourceHost val = ''''
               then Some RefusalInvalidValue
               else None))"

text \<open>\<open>admit\<close>: \<open>None\<close> admits; the value is \<open>None\<close> for a Prepare.\<close>

definition admit :: "voterStanding \<Rightarrow> ClaimKey \<Rightarrow> int \<Rightarrow> ClaimValue option \<Rightarrow> Refusal option" where
  "admit st key gen v =
     (if \<not> ClaimKey_Validate key then Some RefusalInvalidValue
      else if gen \<noteq> vs_adopted st then Some RefusalWrongGeneration
      else if IsVoterConfig key then admit_config st key v
      else admit_workload st key v)"

section \<open>Claim rows\<close>

definition claim_row :: "voter_db \<Rightarrow> ClaimKey \<Rightarrow> ClaimVoterState option" where
  "claim_row db key = map_of (if k_Incarnation key = '''' then db_claims db else db_inc_claims db) key"

definition loadClaimRowTx :: "voter_db \<Rightarrow> ClaimKey \<Rightarrow> ClaimVoterState \<times> bool" where
  "loadClaimRowTx db key =
     (case claim_row db key of None \<Rightarrow> (zero_state key, False) | Some st \<Rightarrow> (st, True))"

definition saveClaimRowTx :: "voter_db \<Rightarrow> ClaimVoterState \<Rightarrow> voter_db" where
  "saveClaimRowTx db st =
     (if k_Incarnation (st_Key st) \<noteq> ''''
      then db\<lparr>db_inc_claims := AList.update (st_Key st) st (db_inc_claims db)\<rparr>
      else db\<lparr>db_claims := AList.update (st_Key st) st (db_claims db)\<rparr>)"

definition legacyKeySealedTx :: "voter_db \<Rightarrow> ClaimKey \<Rightarrow> bool" where
  "legacyKeySealedTx db key =
     (if \<not> IsWorkload key \<or> k_Incarnation key \<noteq> '''' then False
      else list_ex (\<lambda>(k, s). SameDecision k key) (db_inc_claims db))"

section \<open>Phase 1\<close>

definition refuse_prepare :: "voter_db \<Rightarrow> string \<Rightarrow> Refusal \<Rightarrow> PrepareResult" where
  "refuse_prepare db inc r = \<lparr>pr_Promised = False, pr_PromisedBallot = zero_ballot, pr_State = None,
     pr_Legacy = None, pr_Voter = db_hostName db, pr_Incarnation = inc, pr_Refusal = Some r\<rparr>"

text \<open>What a promise at an incarnation-scoped key reports of the legacy key.\<close>

definition legacy_report :: "voter_db \<Rightarrow> ClaimKey \<Rightarrow> ClaimVoterState option" where
  "legacy_report db key =
     (if IsWorkload key \<and> k_Incarnation key \<noteq> '''' then
        (case loadClaimRowTx db (Legacy key) of (legacy, found) \<Rightarrow>
           if found \<and> \<not> Ballot_IsZero (st_Accepted legacy) \<and> st_Value legacy \<noteq> None
           then Some legacy else None)
      else None)"

definition ClaimPrepare :: "voter_db \<Rightarrow> ClaimKey \<Rightarrow> Ballot \<Rightarrow> int \<Rightarrow>
    StoreError + PrepareResult \<times> voter_db" where
  "ClaimPrepare db key b gen =
     (if Round b = 0 \<or> Coordinator b = '''' then Inr (refuse_prepare db '''' RefusalInvalidValue, db)
      else case readStandingTx db of Inl e \<Rightarrow> Inl e
      | Inr st \<Rightarrow>
        (case admit st key gen None of
           Some r \<Rightarrow> Inr (refuse_prepare db (vs_incarnation st) r, db)
         | None \<Rightarrow>
           if legacyKeySealedTx db key
           then Inr (refuse_prepare db (vs_incarnation st) RefusalLegacyKeySealed, db)
           else let row = fst (loadClaimRowTx db key); cmp = CompareBallots (st_Promised row) b in
             if cmp > 0 then
               Inr ((refuse_prepare db (vs_incarnation st) RefusalBallotStale)
                 \<lparr>pr_PromisedBallot := st_Promised row, pr_State := Some row\<rparr>, db)
             else
               let row' = (if cmp = 0 then row else row\<lparr>st_Promised := b, st_ConfigGeneration := gen\<rparr>);
                   db' = (if cmp = 0 then db else saveClaimRowTx db row') in
               Inr (\<lparr>pr_Promised = True, pr_PromisedBallot = b, pr_State = Some row',
                   pr_Legacy = legacy_report db' key, pr_Voter = db_hostName db,
                   pr_Incarnation = vs_incarnation st, pr_Refusal = None\<rparr>, db')))"

section \<open>Phase 2\<close>

text \<open>
  One transaction of \<open>ClaimAccept\<close>. It either ends the call or asks for the owner check, which
  the call makes outside the transaction, because it is network I/O, and then tries again.
\<close>

datatype accept_tx = TxErr StoreError | TxNeedsOwnerCheck | TxNeedsSourceCheck
  | TxDone AcceptResult voter_db

definition refuse_accept :: "voter_db \<Rightarrow> Refusal \<Rightarrow> AcceptResult" where
  "refuse_accept db r = \<lparr>ar_Accepted = False, ar_PromisedBallot = zero_ballot, ar_Accept = None,
     ar_Voter = db_hostName db, ar_Refusal = Some r\<rparr>"

definition accepted_result :: "voter_db \<Rightarrow> Ballot \<Rightarrow> ClaimAccept option \<Rightarrow> AcceptResult" where
  "accepted_result db b a = \<lparr>ar_Accepted = True, ar_PromisedBallot = b, ar_Accept = a,
     ar_Voter = db_hostName db, ar_Refusal = None\<rparr>"

text \<open>Whether this voter accepted the digest at the legacy form of an incarnation-scoped key.\<close>

definition legacy_held :: "voter_db \<Rightarrow> ClaimKey \<Rightarrow> string \<Rightarrow> bool" where
  "legacy_held db key digest =
     (k_Incarnation key \<noteq> '''' \<and>
      (case loadClaimRowTx db (Legacy key) of (legacy, found) \<Rightarrow>
         found \<and> \<not> Ballot_IsZero (st_Accepted legacy) \<and> st_ValueDigest legacy = digest))"

definition accept_row :: "ClaimVoterState \<Rightarrow> Ballot \<Rightarrow> ClaimValue \<Rightarrow> string \<Rightarrow> ClaimAccept \<Rightarrow> int \<Rightarrow>
    ClaimVoterState" where
  "accept_row row b v digest a gen =
     row\<lparr>st_Promised := b, st_Accepted := b, st_Value := Some v, st_ValueDigest := digest,
       st_Accept := Some a, st_ConfigGeneration := gen\<rparr>"

definition ClaimAcceptTx :: "(bytes \<Rightarrow> bytes) \<Rightarrow> ClaimSigner \<Rightarrow> bool \<Rightarrow> voter_db \<Rightarrow> ClaimKey \<Rightarrow> Ballot \<Rightarrow>
    ClaimValue \<Rightarrow> string \<Rightarrow> int \<Rightarrow> accept_tx" where
  "ClaimAcceptTx sha signer ownerChecked db key b v digest gen =
     (case readStandingTx db of Inl e \<Rightarrow> TxErr e
      | Inr st \<Rightarrow>
        (case admit st key gen (Some v) of
           Some r \<Rightarrow> TxDone (refuse_accept db r) db
         | None \<Rightarrow>
           if legacyKeySealedTx db key then TxDone (refuse_accept db RefusalLegacyKeySealed) db
           else let row = fst (loadClaimRowTx db key) in
             if CompareBallots (st_Promised row) b > 0 then
               TxDone ((refuse_accept db RefusalBallotStale)\<lparr>ar_PromisedBallot := st_Promised row\<rparr>) db
             else if Ballot_Equal (st_Accepted row) b \<and> st_ValueDigest row \<noteq> digest then
               TxDone (refuse_accept db RefusalValueConflict) db
             else if Ballot_Equal (st_Accepted row) b \<and> st_Accept row \<noteq> None \<and>
               a_ConfigGeneration (the (st_Accept row)) = gen then
               TxDone (accepted_result db (st_Promised row) (st_Accept row)) db
             else if IsWorkload key \<and> st_ValueDigest row \<noteq> digest \<and> \<not> ownerChecked then
               (if legacy_held db key digest then TxNeedsSourceCheck else TxNeedsOwnerCheck)
             else (case Sign sha signer key gen b digest (vs_incarnation st) of
                 None \<Rightarrow> TxErr SignFailed
               | Some a \<Rightarrow> TxDone (accepted_result db b (Some a))
                   (saveClaimRowTx db (accept_row row b v digest a gen)))))"

section \<open>The owner check\<close>

definition transferStates :: "string list" where
  "transferStates = [''pending'', ''starting'', ''migrating'', ''relocating'']"

definition claimTargetRow :: "voter_db \<Rightarrow> ClaimKey \<Rightarrow> TargetRow option" where
  "claimTargetRow db key =
     (if k_TargetKind key = ClaimKindVM \<or> k_TargetKind key = ClaimKindContainer then
        (case filter (\<lambda>(kind, name, r). kind = k_TargetKind key \<and> name = k_TargetName key) (db_targets db) of
           [(kind, name, r)] \<Rightarrow> Some r | _ \<Rightarrow> None)
      else None)"

definition rowIsIncarnation :: "TargetRow \<Rightarrow> ClaimKey \<Rightarrow> bool" where
  "rowIsIncarnation r key \<longleftrightarrow> k_Incarnation key = '''' \<or> IncarnationOf (tr_created_at r) = k_Incarnation key"

definition settledOwner :: "voter_db \<Rightarrow> ClaimKey \<Rightarrow> string option" where
  "settledOwner db key =
     (case claimTargetRow db key of None \<Rightarrow> None
      | Some r \<Rightarrow>
          if tr_epoch r \<noteq> k_OwnerEpoch key \<or> \<not> rowIsIncarnation r key \<or>
            tr_state r \<in> set transferStates \<or> tr_pending r \<noteq> '''' then None
          else Some (tr_host_name r))"

definition ClaimProbeHint :: "voter_db \<Rightarrow> ClaimKey \<Rightarrow> string" where
  "ClaimProbeHint db key =
     (case claimTargetRow db key of None \<Rightarrow> ''''
      | Some r \<Rightarrow> if tr_epoch r \<noteq> k_OwnerEpoch key \<or> \<not> rowIsIncarnation r key then ''''
                  else tr_host_name r)"

text \<open>\<open>probe\<close> is \<open>None\<close> when no probe is wired; otherwise it says whether it reached a host.\<close>

definition checkClaimOwner :: "voter_db \<Rightarrow> ClaimKey \<Rightarrow> ClaimValue \<Rightarrow> (string \<Rightarrow> bool) option \<Rightarrow> bool \<Rightarrow>
    Refusal option" where
  "checkClaimOwner db key v probe probeSource =
     (if v_SourceHost v = db_hostName db then Some RefusalOwnerReachable
      else if (case settledOwner db key of Some owner \<Rightarrow> owner \<noteq> v_SourceHost v | None \<Rightarrow> False)
      then Some RefusalSourceMismatch
      else if \<not> probeSource then None
      else case probe of None \<Rightarrow> Some RefusalProbeUnavailable
        | Some reaches \<Rightarrow> if reaches (v_SourceHost v) then Some RefusalOwnerReachable else None)"

text \<open>
  The whole call: a transaction, at most one owner check, a second transaction. The database is
  not locked between them: \<open>before\<close> is what other transactions of this node commit before the
  check reads the workload's row, \<open>during\<close> what they commit from then to the next transaction.
\<close>

lemma ClaimAcceptTx_checked:
  "ClaimAcceptTx sha signer True db key b v digest gen \<noteq> TxNeedsOwnerCheck"
  "ClaimAcceptTx sha signer True db key b v digest gen \<noteq> TxNeedsSourceCheck"
  by (auto simp: ClaimAcceptTx_def Let_def split: sum.splits option.splits if_splits)

function claim_accept_loop :: "(bytes \<Rightarrow> bytes) \<Rightarrow> ClaimSigner \<Rightarrow> (string \<Rightarrow> bool) option \<Rightarrow>
    (voter_db \<Rightarrow> voter_db) \<Rightarrow> (voter_db \<Rightarrow> voter_db) \<Rightarrow> ClaimKey \<Rightarrow> Ballot \<Rightarrow> ClaimValue \<Rightarrow> string \<Rightarrow> int \<Rightarrow> bool \<Rightarrow> voter_db \<Rightarrow>
    StoreError + AcceptResult \<times> voter_db" where
  "claim_accept_loop sha signer probe before during key b v digest gen ownerChecked db =
     (let tx = ClaimAcceptTx sha signer ownerChecked db key b v digest gen in
      case tx of
        TxErr e \<Rightarrow> Inl e
      | TxDone res db' \<Rightarrow> Inr (res, db')
      | _ \<Rightarrow>
        (case checkClaimOwner (before db) key v probe (tx = TxNeedsOwnerCheck) of
           Some r \<Rightarrow> Inr (refuse_accept db r, during (before db))
         | None \<Rightarrow> claim_accept_loop sha signer probe before during key b v digest gen True (during (before db))))"
  by pat_completeness auto
termination
proof (relation "measure (\<lambda>(sha, signer, probe, before, during, key, b, v, digest, gen, oc, db). if oc then 0 else 1)",
    goal_cases)
  case 1
  show ?case by simp
next
  case (2 sha signer probe before during key b v digest gen oc db x)
  then show ?case using ClaimAcceptTx_checked(1) [of sha signer db key b v digest gen] by (cases oc) auto
next
  case (3 sha signer probe before during key b v digest gen oc db x)
  then show ?case using ClaimAcceptTx_checked(2) [of sha signer db key b v digest gen] by (cases oc) auto
qed

declare claim_accept_loop.simps [simp del]

definition ClaimAccept :: "(bytes \<Rightarrow> bytes) \<Rightarrow> (bytes \<Rightarrow> string) \<Rightarrow> ClaimSigner option \<Rightarrow>
    (string \<Rightarrow> bool) option \<Rightarrow> (voter_db \<Rightarrow> voter_db) \<Rightarrow> (voter_db \<Rightarrow> voter_db) \<Rightarrow> voter_db \<Rightarrow> ClaimKey \<Rightarrow> Ballot \<Rightarrow> ClaimValue \<Rightarrow> int \<Rightarrow>
    StoreError + AcceptResult \<times> voter_db" where
  "ClaimAccept sha hex signer probe before during db key b v gen =
     (case Digest sha hex v of
        None \<Rightarrow> Inr (refuse_accept db RefusalInvalidValue, db)
      | Some digest \<Rightarrow>
          if Round b = 0 \<or> Coordinator b = '''' then Inr (refuse_accept db RefusalInvalidValue, db)
          else case signer of None \<Rightarrow> Inl NoSigningKey
            | Some s \<Rightarrow>
                if sg_Name s \<noteq> db_hostName db then Inl NoSigningKey
                else claim_accept_loop sha s probe before during key b v digest gen False db)"

section \<open>Carrying claim state into a new generation\<close>

record ClaimImportSource =
  im_Voter :: string
  im_Frozen :: bool
  im_Adopted :: int
  im_States :: "ClaimVoterState list"

definition import_rows :: "(ClaimKey \<times> ClaimVoterState) list \<Rightarrow> ClaimVoterState list" where
  "import_rows t = map (\<lambda>(k, s). s\<lparr>st_Key := k\<rparr>) (filter (\<lambda>(k, s). IsWorkload k \<and> accepted_row s) t)"

definition import_order :: "ClaimVoterState \<Rightarrow> string \<times> string \<times> string \<times> int \<times> int" where
  "import_order s = (k_TargetKind (st_Key s), k_TargetName (st_Key s), k_Incarnation (st_Key s),
     k_OwnerEpoch (st_Key s), k_Attempt (st_Key s))"

definition ClaimStatesForImport :: "voter_db \<Rightarrow> int \<Rightarrow> StoreError + ClaimImportSource" where
  "ClaimStatesForImport db gen =
     (case readStandingTx db of Inl e \<Rightarrow> Inl e
      | Inr st \<Rightarrow> Inr \<lparr>im_Voter = db_hostName db,
          im_Frozen = (vs_adopted st > gen \<or> vs_adopted st = gen \<and> vs_sealed st),
          im_Adopted = vs_adopted st,
          im_States = sort_key import_order (import_rows (db_claims db) @ import_rows (db_inc_claims db))\<rparr>)"

text \<open>The highest-ballot accepted state of every workload key, in the order the keys appear.\<close>

fun best_states :: "(bytes \<Rightarrow> bytes) \<Rightarrow> (bytes \<Rightarrow> string) \<Rightarrow> (ClaimKey \<times> ClaimVoterState) list \<Rightarrow>
    ClaimVoterState list \<Rightarrow> StoreError + (ClaimKey \<times> ClaimVoterState) list" where
  "best_states sha hex best [] = Inr best"
| "best_states sha hex best (s # ss) =
     (if \<not> IsWorkload (st_Key s) \<or> Ballot_IsZero (st_Accepted s) then best_states sha hex best ss
      else case st_Value s of None \<Rightarrow> best_states sha hex best ss
      | Some v \<Rightarrow>
          if Digest sha hex v \<noteq> Some (st_ValueDigest s) then Inl ImportDigestMismatch
          else
            let keep = (case map_of best (st_Key s) of None \<Rightarrow> True
                        | Some cur \<Rightarrow> CompareBallots (st_Accepted s) (st_Accepted cur) > 0) in
            best_states sha hex (if keep then AList.update (st_Key s) s best else best) ss)"

definition import_row :: "int \<Rightarrow> ClaimVoterState \<Rightarrow> ClaimVoterState \<Rightarrow> ClaimVoterState" where
  "import_row newGen inc row =
     (let adopt = CompareBallots (st_Accepted inc) (st_Accepted row) > 0;
          row1 = (if adopt then row\<lparr>st_Accepted := st_Accepted inc, st_Value := st_Value inc,
            st_ValueDigest := st_ValueDigest inc, st_Accept := None\<rparr> else row);
          raise = CompareBallots (st_Accepted row1) (st_Promised row1) > 0;
          row2 = (if raise then row1\<lparr>st_Promised := st_Accepted row1\<rparr> else row1) in
      if adopt \<or> raise then row2\<lparr>st_ConfigGeneration := newGen\<rparr> else row)"

definition import_one :: "int \<Rightarrow> ClaimKey \<times> ClaimVoterState \<Rightarrow> nat \<times> voter_db \<Rightarrow> nat \<times> voter_db" where
  "import_one newGen = (\<lambda>(k, inc) (n, db).
     let row = fst (loadClaimRowTx db k); row' = import_row newGen inc row in
     if CompareBallots (st_Accepted inc) (st_Accepted row) > 0 \<or>
       CompareBallots (st_Accepted row') (st_Promised row) > 0
     then (n + 1, saveClaimRowTx db row') else (n, db))"

text \<open>\<open>INSERT OR IGNORE\<close> into the adoption table, with the sources sorted.\<close>

definition recordAdoptionTx :: "voter_db \<Rightarrow> int \<Rightarrow> string list \<Rightarrow> voter_db" where
  "recordAdoptionTx db g from =
     (if g \<in> fst ` set (db_adoptions db) then db
      else db\<lparr>db_adoptions := db_adoptions db @ [(g, sort from)]\<rparr>)"

definition RecordVoterAdoption :: "voter_db \<Rightarrow> int \<Rightarrow> voter_db" where
  "RecordVoterAdoption db g = recordAdoptionTx db g []"

definition ImportClaimsAndAdopt :: "(bytes \<Rightarrow> bytes) \<Rightarrow> (bytes \<Rightarrow> string) \<Rightarrow> voter_db \<Rightarrow> int \<Rightarrow> string list \<Rightarrow>
    ClaimVoterState list \<Rightarrow> StoreError + nat \<times> voter_db" where
  "ImportClaimsAndAdopt sha hex db newGen from states =
     (case readStandingTx db of Inl e \<Rightarrow> Inl e
      | Inr st \<Rightarrow>
          if vs_adopted st \<ge> newGen then Inr (0, db)
          else if vs_adopted st \<noteq> newGen - 1 then Inl (CannotAdopt newGen (vs_adopted st))
          else case best_states sha hex [] states of Inl e \<Rightarrow> Inl e
          | Inr best \<Rightarrow>
              (case fold (import_one newGen) best (0, db) of (n, db') \<Rightarrow>
                 Inr (n, recordAdoptionTx db' newGen from)))"

text \<open>\<open>INSERT OR IGNORE\<close> into \<open>voter_configs\<close>: the row of a generation is immutable.\<close>

definition insert_voter_config :: "voter_db \<Rightarrow> VoterConfig \<Rightarrow> voter_db" where
  "insert_voter_config db row =
     (if vc_Generation row \<in> vc_Generation ` set (db_configs db) then db
      else db\<lparr>db_configs := db_configs db @ [row]\<rparr>)"

definition seal_generation :: "voter_db \<Rightarrow> int \<Rightarrow> voter_db" where
  "seal_generation db g =
     (if g \<in> set (db_seals db) then db else db\<lparr>db_seals := db_seals db @ [g]\<rparr>)"

section \<open>Steps of a voter\<close>

text \<open>
  Everything that commits to a voter's tables. An accept is its transaction with either value of
  the flag, so that the relation has every interleaving of a call's two transactions with other
  calls; \<open>targets\<close> is replication changing the workload rows.
\<close>

inductive voter_step :: "(bytes \<Rightarrow> bytes) \<Rightarrow> (bytes \<Rightarrow> string) \<Rightarrow> voter_db \<Rightarrow> voter_db \<Rightarrow> bool"
  for sha hex where
  step_prepare: "ClaimPrepare db key b gen = Inr (r, db') \<Longrightarrow> voter_step sha hex db db'"
| step_accept: "Digest sha hex v = Some d \<Longrightarrow> Round b \<noteq> 0 \<Longrightarrow>
    ClaimAcceptTx sha signer oc db key b v d gen = TxDone r db' \<Longrightarrow> voter_step sha hex db db'"
| step_import: "ImportClaimsAndAdopt sha hex db newGen from states = Inr (n, db') \<Longrightarrow> voter_step sha hex db db'"
| step_adopt: "0 \<le> g \<Longrightarrow> voter_step sha hex db (RecordVoterAdoption db g)"
| step_config: "voter_step sha hex db (insert_voter_config db row)"
| step_seal: "voter_step sha hex db (seal_generation db g)"
| step_targets: "voter_step sha hex db (db\<lparr>db_targets := t\<rparr>)"

abbreviation voter_run :: "(bytes \<Rightarrow> bytes) \<Rightarrow> (bytes \<Rightarrow> string) \<Rightarrow> voter_db \<Rightarrow> voter_db \<Rightarrow> bool" where
  "voter_run sha hex \<equiv> (voter_step sha hex)\<^sup>*\<^sup>*"

text \<open>What holds of every claim row, and of the tables.\<close>

definition row_ok :: "(bytes \<Rightarrow> bytes) \<Rightarrow> (bytes \<Rightarrow> string) \<Rightarrow> ClaimKey \<Rightarrow> ClaimVoterState \<Rightarrow> bool" where
  "row_ok sha hex k s \<longleftrightarrow> st_Key s = k \<and> st_Accepted s \<le> st_Promised s \<and>
     (if st_Accepted s = zero_ballot then st_Value s = None \<and> st_ValueDigest s = '''' \<and> st_Accept s = None
      else \<exists>v. st_Value s = Some v \<and> Digest sha hex v = Some (st_ValueDigest s)) \<and>
     (\<forall>a. st_Accept s = Some a \<longrightarrow>
        a_Key a = k \<and> a_Ballot a = st_Accepted s \<and> a_ValueDigest a = st_ValueDigest s)"

definition table_ok :: "(ClaimKey \<Rightarrow> ClaimVoterState \<Rightarrow> bool) \<Rightarrow> (ClaimKey \<times> ClaimVoterState) list \<Rightarrow> bool" where
  "table_ok P t \<longleftrightarrow> distinct (map fst t) \<and> (\<forall>(k, s) \<in> set t. P k s)"

definition voter_ok :: "(bytes \<Rightarrow> bytes) \<Rightarrow> (bytes \<Rightarrow> string) \<Rightarrow> voter_db \<Rightarrow> bool" where
  "voter_ok sha hex db \<longleftrightarrow>
     table_ok (\<lambda>k s. k_Incarnation k = '''' \<and> row_ok sha hex k s) (db_claims db) \<and>
     table_ok (\<lambda>k s. k_Incarnation k \<noteq> '''' \<and> row_ok sha hex k s) (db_inc_claims db)"

text \<open>The state a voter acts on for a key, the zero state where it has no row.\<close>

abbreviation row_of :: "voter_db \<Rightarrow> ClaimKey \<Rightarrow> ClaimVoterState" where
  "row_of db k \<equiv> fst (loadClaimRowTx db k)"

definition row_le :: "ClaimVoterState \<Rightarrow> ClaimVoterState \<Rightarrow> bool" where
  "row_le s s' \<longleftrightarrow> st_Promised s \<le> st_Promised s' \<and> st_Accepted s \<le> st_Accepted s' \<and>
     (st_Accepted s = st_Accepted s' \<longrightarrow> st_ValueDigest s = st_ValueDigest s')"

lemma row_le_refl [simp]: "row_le s s"
  by (simp add: row_le_def)

lemma row_le_trans: "row_le a b \<Longrightarrow> row_le b c \<Longrightarrow> row_le a c"
proof -
  assume le: "row_le a b" "row_le b c"
  have "st_ValueDigest a = st_ValueDigest c" if eq: "st_Accepted a = st_Accepted c"
  proof -
    have "st_Accepted a = st_Accepted b" "st_Accepted b = st_Accepted c"
      using le eq by (auto simp: row_le_def)
    with le show ?thesis by (simp add: row_le_def)
  qed
  with le show ?thesis unfolding row_le_def by (blast intro: order.trans)
qed

lemma row_ok_zero [simp]: "row_ok sha hex k (zero_state k)"
  by (simp add: row_ok_def zero_state_def)

subsection \<open>Rows after a write\<close>

lemma set_update_subset: "set (AList.update k s t) \<subseteq> insert (k, s) (set t)"
  by (induction t) auto

lemma table_ok_update:
  "table_ok P t \<Longrightarrow> P k s \<Longrightarrow> table_ok P (AList.update k s t)"
  unfolding table_ok_def using set_update_subset [of k s t] by (auto simp: distinct_update)

lemma claim_row_save [simp]:
  "claim_row (saveClaimRowTx db st) k = (if k = st_Key st then Some st else claim_row db k)"
  by (auto simp: claim_row_def saveClaimRowTx_def map_of_update_conv)

lemma row_of_conv: "row_of db k = (case claim_row db k of None \<Rightarrow> zero_state k | Some s \<Rightarrow> s)"
  by (simp add: loadClaimRowTx_def split: option.splits)

lemma row_of_save [simp]:
  "row_of (saveClaimRowTx db st) k = (if k = st_Key st then st else row_of db k)"
  by (simp add: row_of_conv)

lemma voter_ok_row:
  assumes "voter_ok sha hex db"
  shows "row_ok sha hex k (row_of db k)"
proof (cases "claim_row db k")
  case None
  then show ?thesis by (simp add: row_of_conv)
next
  case (Some s)
  then show ?thesis
    using assms by (auto simp: row_of_conv claim_row_def voter_ok_def table_ok_def
        dest!: map_of_SomeD split: if_splits)
qed

lemma voter_ok_save: "voter_ok sha hex db \<Longrightarrow> row_ok sha hex (st_Key st) st \<Longrightarrow> voter_ok sha hex (saveClaimRowTx db st)"
  by (auto simp: voter_ok_def saveClaimRowTx_def intro!: table_ok_update)

lemma save_fields [simp]:
  "db_hostName (saveClaimRowTx db st) = db_hostName db"
  "db_adoptions (saveClaimRowTx db st) = db_adoptions db"
  "db_configs (saveClaimRowTx db st) = db_configs db"
  "db_incarnation (saveClaimRowTx db st) = db_incarnation db"
  "db_seals (saveClaimRowTx db st) = db_seals db"
  "db_targets (saveClaimRowTx db st) = db_targets db"
  by (simp_all add: saveClaimRowTx_def)

lemma GetVoterConfig_save [simp]: "GetVoterConfig (saveClaimRowTx db s) g = GetVoterConfig db g"
  by (simp add: GetVoterConfig_def)

lemma AdoptedVoterGeneration_save [simp]: "AdoptedVoterGeneration (saveClaimRowTx db s) = AdoptedVoterGeneration db"
  by (simp add: AdoptedVoterGeneration_def)

subsection \<open>The branches of the operations\<close>

lemma ClaimPrepare_cases:
  assumes "ClaimPrepare db key b gen = Inr (r, db')" "st_Key (row_of db key) = key"
  obtains (refused) "\<not> pr_Promised r" "pr_Refusal r \<noteq> None" "db' = db"
  | (promised) st where "pr_Promised r" "pr_PromisedBallot r = b" "Round b \<noteq> 0" "readStandingTx db = Inr st"
      "admit st key gen None = None" "st_Promised (row_of db key) \<le> b" "\<not> legacyKeySealedTx db key"
      "pr_State r = Some (row_of db' key)" "pr_Legacy r = legacy_report db' key"
      "db' = (if st_Promised (row_of db key) = b then db
              else saveClaimRowTx db ((row_of db key)\<lparr>st_Promised := b, st_ConfigGeneration := gen\<rparr>))"
      "pr_Voter r = db_hostName db"
proof (cases "pr_Promised r")
  case False
  with assms show ?thesis
    by (intro refused)
       (auto simp: ClaimPrepare_def refuse_prepare_def Let_def split: if_splits sum.splits option.splits)
next
  case True
  from assms(1) True obtain st where st: "Round b \<noteq> 0" "readStandingTx db = Inr st" "admit st key gen None = None"
      "\<not> legacyKeySealedTx db key"
    by (auto simp: ClaimPrepare_def refuse_prepare_def split: if_splits sum.splits option.splits)
  from assms True st show ?thesis
    by (intro promised [of st])
       (auto simp: ClaimPrepare_def refuse_prepare_def Let_def ballot_order split: if_splits)
qed

lemma ClaimAcceptTx_cases:
  assumes "ClaimAcceptTx sha signer oc db key b v d gen = TxDone r db'"
  obtains (refused) "\<not> ar_Accepted r" "ar_Refusal r \<noteq> None" "db' = db"
  | (repeated) st where "ar_Accepted r" "readStandingTx db = Inr st" "admit st key gen (Some v) = None"
      "\<not> legacyKeySealedTx db key" "st_Accepted (row_of db key) = b" "st_Promised (row_of db key) \<le> b"
      "st_ValueDigest (row_of db key) = d" "ar_Accept r = st_Accept (row_of db key)"
      "ar_Accept r \<noteq> None" "a_ConfigGeneration (the (ar_Accept r)) = gen" "db' = db"
  | (accepted) st a where "ar_Accepted r" "readStandingTx db = Inr st" "admit st key gen (Some v) = None"
      "\<not> legacyKeySealedTx db key" "st_Promised (row_of db key) \<le> b"
      "st_Accepted (row_of db key) = b \<Longrightarrow> st_ValueDigest (row_of db key) = d"
      "\<not> IsWorkload key \<or> st_ValueDigest (row_of db key) = d \<or> oc"
      "Sign sha signer key gen b d (vs_incarnation st) = Some a" "ar_Accept r = Some a"
      "db' = saveClaimRowTx db (accept_row (row_of db key) b v d a gen)"
proof (cases "ar_Accepted r")
  case False
  with assms show ?thesis
    by (intro refused)
       (auto simp: ClaimAcceptTx_def refuse_accept_def accepted_result_def Let_def
         split: if_splits sum.splits option.splits)
next
  case True
  from assms True obtain st where st: "readStandingTx db = Inr st" "admit st key gen (Some v) = None"
      "\<not> legacyKeySealedTx db key"
    by (auto simp: ClaimAcceptTx_def refuse_accept_def split: if_splits sum.splits option.splits)
  show ?thesis
  proof (cases "st_Accepted (row_of db key) = b \<and> st_Accept (row_of db key) \<noteq> None \<and>
      a_ConfigGeneration (the (st_Accept (row_of db key))) = gen")
    case rep: True
    with assms True st show ?thesis
      by (intro repeated [of st])
         (auto simp: ClaimAcceptTx_def refuse_accept_def accepted_result_def Let_def ballot_order
           split: if_splits)
  next
    case new: False
    with assms True st obtain a where "Sign sha signer key gen b d (vs_incarnation st) = Some a"
      by (auto simp: ClaimAcceptTx_def refuse_accept_def Let_def ballot_order split: if_splits option.splits)
    with assms True st new show ?thesis
      by (intro accepted [of st a])
         (auto simp: ClaimAcceptTx_def refuse_accept_def accepted_result_def Let_def ballot_order not_less
           split: if_splits)
  qed
qed

lemma Sign_fields:
  "Sign sha s key gen b d inc = Some a \<Longrightarrow>
   a_Key a = key \<and> a_Ballot a = b \<and> a_ValueDigest a = d \<and> a_ConfigGeneration a = gen \<and>
   a_Voter a = sg_Name s \<and> a_VoterIncarnation a = inc"
  by (auto simp: Sign_def split: option.splits)

lemma row_ok_promise:
  "row_ok sha hex k s \<Longrightarrow> st_Promised s \<le> b \<Longrightarrow> row_ok sha hex k (s\<lparr>st_Promised := b, st_ConfigGeneration := g\<rparr>)"
  by (auto simp: row_ok_def)

lemma row_ok_accept:
  "row_ok sha hex k s \<Longrightarrow> Digest sha hex v = Some d \<Longrightarrow> Round b \<noteq> 0 \<Longrightarrow>
   Sign sha signer k gen b d inc = Some a \<Longrightarrow> row_ok sha hex k (accept_row s b v d a gen)"
  by (auto simp: row_ok_def accept_row_def dest!: Sign_fields)

lemma prepare_preserves:
  assumes "ClaimPrepare db key b gen = Inr (r, db')" "voter_ok sha hex db"
  shows "voter_ok sha hex db'" "row_le (row_of db k) (row_of db' k)"
proof -
  have ok: "row_ok sha hex key (row_of db key)" using assms(2) by (rule voter_ok_row)
  then have key: "st_Key (row_of db key) = key" by (simp add: row_ok_def)
  show "voter_ok sha hex db'"
    using assms(1) key
  proof (cases rule: ClaimPrepare_cases)
    case (promised st)
    with assms(2) key show ?thesis by (auto intro!: voter_ok_save row_ok_promise ok)
  qed (use assms(2) in simp)
  show "row_le (row_of db k) (row_of db' k)"
    using assms(1) key
    by (cases rule: ClaimPrepare_cases) (auto simp: row_le_def key)
qed

lemma accept_preserves:
  assumes "ClaimAcceptTx sha signer oc db key b v d gen = TxDone r db'" "voter_ok sha hex db"
    and v: "Digest sha hex v = Some d" "Round b \<noteq> 0"
  shows "voter_ok sha hex db'" "row_le (row_of db k) (row_of db' k)"
proof -
  have ok: "row_ok sha hex key (row_of db key)" using assms(2) by (rule voter_ok_row)
  then have key: "st_Key (row_of db key) = key" and le: "st_Accepted (row_of db key) \<le> st_Promised (row_of db key)"
    by (simp_all add: row_ok_def)
  show "voter_ok sha hex db'"
    using assms(1)
  proof (cases rule: ClaimAcceptTx_cases)
    case (accepted st a)
    have "row_ok sha hex key (accept_row (row_of db key) b v d a gen)"
      using ok v accepted(8) by (rule row_ok_accept)
    with assms(2) accepted(10) key show ?thesis by (auto intro!: voter_ok_save simp: accept_row_def)
  qed (use assms(2) in simp_all)
  show "row_le (row_of db k) (row_of db' k)"
    using assms(1) le
    by (cases rule: ClaimAcceptTx_cases) (auto simp: row_le_def key accept_row_def intro: order.trans)
qed

subsection \<open>Import\<close>

text \<open>What \<open>best_states\<close> keeps of the imported states.\<close>

definition importable :: "ClaimVoterState \<Rightarrow> bool" where
  "importable s \<longleftrightarrow> IsWorkload (st_Key s) \<and> st_Accepted s \<noteq> zero_ballot \<and> st_Value s \<noteq> None"

definition best_ok :: "(bytes \<Rightarrow> bytes) \<Rightarrow> (bytes \<Rightarrow> string) \<Rightarrow> ClaimKey \<Rightarrow> ClaimVoterState \<Rightarrow> bool" where
  "best_ok sha hex k s \<longleftrightarrow> st_Key s = k \<and> importable s \<and>
     (\<exists>v. st_Value s = Some v \<and> Digest sha hex v = Some (st_ValueDigest s))"

lemma table_ok_Nil [simp]: "table_ok P []"
  by (simp add: table_ok_def)

lemma best_states_step:
  assumes "best_states sha hex best (s # ss) = Inr best'"
  obtains best1 where "best_states sha hex best1 ss = Inr best'"
    "best1 = best \<or> best1 = AList.update (st_Key s) s best \<and> best_ok sha hex (st_Key s) s \<and>
       (\<forall>c. map_of best (st_Key s) = Some c \<longrightarrow> st_Accepted c < st_Accepted s)"
    "importable s \<longrightarrow> (\<exists>c. map_of best1 (st_Key s) = Some c \<and> st_Accepted s \<le> st_Accepted c)"
proof (cases "importable s")
  case False
  with assms show ?thesis
    by (intro that [of best]) (auto simp: importable_def split: if_splits)
next
  case True
  let ?keep = "case map_of best (st_Key s) of None \<Rightarrow> True
    | Some cur \<Rightarrow> CompareBallots (st_Accepted s) (st_Accepted cur) > 0"
  from assms True have *: "best_states sha hex (if ?keep then AList.update (st_Key s) s best else best) ss = Inr best'"
    and ok: "best_ok sha hex (st_Key s) s"
    by (auto simp: importable_def best_ok_def split: if_splits)
  show ?thesis
    using * ok by (intro that [OF *])
      (auto simp: ballot_order map_of_update_conv not_less split: option.splits)
qed

lemma best_states_ok:
  "best_states sha hex best ss = Inr best' \<Longrightarrow> table_ok (best_ok sha hex) best \<Longrightarrow>
   table_ok (best_ok sha hex) best' \<and>
   (\<forall>k c. map_of best k = Some c \<longrightarrow> (\<exists>c'. map_of best' k = Some c' \<and> st_Accepted c \<le> st_Accepted c')) \<and>
   (\<forall>s \<in> set ss. importable s \<longrightarrow> (\<exists>c'. map_of best' (st_Key s) = Some c' \<and> st_Accepted s \<le> st_Accepted c'))"
proof (induction ss arbitrary: best)
  case (Cons s ss)
  from Cons.prems(1) obtain best1 where b1: "best_states sha hex best1 ss = Inr best'"
    and up: "best1 = best \<or> best1 = AList.update (st_Key s) s best \<and> best_ok sha hex (st_Key s) s \<and>
       (\<forall>c. map_of best (st_Key s) = Some c \<longrightarrow> st_Accepted c < st_Accepted s)"
    and im: "importable s \<longrightarrow> (\<exists>c. map_of best1 (st_Key s) = Some c \<and> st_Accepted s \<le> st_Accepted c)"
    by (rule best_states_step)
  have t: "table_ok (best_ok sha hex) best1" using up Cons.prems(2) by (auto intro: table_ok_update)
  note IH = Cons.IH [OF b1 t]
  have up': "\<exists>c1. map_of best1 k = Some c1 \<and> st_Accepted c \<le> st_Accepted c1" if "map_of best k = Some c" for k c
    using up that by (auto simp: map_of_update_conv)
  have "\<exists>c'. map_of best' k = Some c' \<and> st_Accepted c \<le> st_Accepted c'" if "map_of best k = Some c" for k c
    using up' [OF that] IH by (meson order.trans)
  moreover have "\<exists>c'. map_of best' (st_Key s) = Some c' \<and> st_Accepted s \<le> st_Accepted c'" if "importable s"
    using im that IH by (meson order.trans)
  ultimately show ?case using IH by simp
qed simp

lemma import_row_ok:
  assumes "row_ok sha hex k row" "best_ok sha hex k inc"
  shows "row_ok sha hex k (import_row g inc row)" "row_le row (import_row g inc row)"
    "st_Accepted inc \<le> st_Accepted (import_row g inc row)"
  using assms
  by (auto simp: row_ok_def best_ok_def importable_def import_row_def row_le_def Let_def ballot_order not_less)

lemma import_one_row:
  assumes "voter_ok sha hex db" "best_ok sha hex k inc" "import_one g (k, inc) (n, db) = (n', db')"
  shows "voter_ok sha hex db'" "row_of db' k' = (if k' = k then import_row g inc (row_of db k) else row_of db k')"
    "db_hostName db' = db_hostName db" "db_adoptions db' = db_adoptions db" "db_configs db' = db_configs db"
proof -
  let ?row = "import_row g inc (row_of db k)"
  have ok: "row_ok sha hex k (row_of db k)" using assms(1) by (rule voter_ok_row)
  have ok': "row_ok sha hex k ?row" by (rule import_row_ok(1) [OF ok assms(2)])
  have key: "st_Key ?row = k" using ok' by (simp add: row_ok_def)
  have db': "db' = saveClaimRowTx db ?row \<or> db' = db \<and> ?row = row_of db k"
    using assms(3) by (auto simp: import_one_def Let_def import_row_def split: if_splits)
  with assms(1) ok' key show "voter_ok sha hex db'" by (auto intro: voter_ok_save)
  show "row_of db' k' = (if k' = k then ?row else row_of db k')"
    "db_hostName db' = db_hostName db" "db_adoptions db' = db_adoptions db" "db_configs db' = db_configs db"
    using db' key by auto
qed

lemma import_fold:
  "fold (import_one g) best (n, db) = (n', db') \<Longrightarrow> voter_ok sha hex db \<Longrightarrow> table_ok (best_ok sha hex) best \<Longrightarrow>
   voter_ok sha hex db' \<and> (\<forall>k. row_le (row_of db k) (row_of db' k)) \<and>
   (\<forall>(k, inc) \<in> set best. st_Accepted inc \<le> st_Accepted (row_of db' k)) \<and>
   db_hostName db' = db_hostName db \<and> db_adoptions db' = db_adoptions db \<and> db_configs db' = db_configs db"
proof (induction best arbitrary: n db)
  case (Cons kinc best)
  obtain k inc where kinc: "kinc = (k, inc)" by (cases kinc)
  obtain n1 db1 where one: "import_one g (k, inc) (n, db) = (n1, db1)" by (cases "import_one g (k, inc) (n, db)")
  have b: "best_ok sha hex k inc" and t: "table_ok (best_ok sha hex) best"
    using Cons.prems(3) by (auto simp: kinc table_ok_def)
  note r = import_one_row [OF Cons.prems(2) b one]
  have "fold (import_one g) best (n1, db1) = (n', db')" using Cons.prems(1) by (simp add: kinc one)
  note IH = Cons.IH [OF this r(1) t]
  note ir = import_row_ok [OF voter_ok_row [OF Cons.prems(2)] b]
  have le: "row_le (row_of db k') (row_of db' k')" for k'
    using IH ir(2) r(2) [of k'] by (metis row_le_trans)
  have "st_Accepted inc \<le> st_Accepted (row_of db1 k)" using ir(3) [of g] r(2) [of k] by simp
  also have "\<dots> \<le> st_Accepted (row_of db' k)" using IH by (auto simp: row_le_def)
  finally show ?case using IH le r(3-) by (simp add: kinc)
qed simp

lemma recordAdoption_simps [simp]:
  "claim_row (recordAdoptionTx db g from) k = claim_row db k"
  "row_of (recordAdoptionTx db g from) k = row_of db k"
  "voter_ok sha hex (recordAdoptionTx db g from) = voter_ok sha hex db"
  "db_hostName (recordAdoptionTx db g from) = db_hostName db"
  "db_configs (recordAdoptionTx db g from) = db_configs db"
  by (simp_all add: recordAdoptionTx_def claim_row_def voter_ok_def row_of_conv)

lemma import_preserves:
  assumes "ImportClaimsAndAdopt sha hex db newGen from states = Inr (n, db')" "voter_ok sha hex db"
  shows "voter_ok sha hex db'" "row_le (row_of db k) (row_of db' k)"
    "AdoptedVoterGeneration db < newGen \<Longrightarrow> s \<in> set states \<Longrightarrow> importable s \<Longrightarrow>
      st_Accepted s \<le> st_Accepted (row_of db' (st_Key s))"
proof -
  consider (adopted) "db' = db" "AdoptedVoterGeneration db \<ge> newGen"
    | (imported) best db1 where "best_states sha hex [] states = Inr best"
      "fold (import_one newGen) best (0, db) = (n, db1)" "db' = recordAdoptionTx db1 newGen from"
    using assms(1)
    by (auto simp: ImportClaimsAndAdopt_def readStandingTx_def Let_def
        split: sum.splits if_splits prod.splits option.splits)
  note cs = this
  show "voter_ok sha hex db'" "row_le (row_of db k) (row_of db' k)"
    using cs by (cases; use assms(2) in \<open>auto dest!: best_states_ok import_fold\<close>)+
  show "st_Accepted s \<le> st_Accepted (row_of db' (st_Key s))"
    if im: "AdoptedVoterGeneration db < newGen" "s \<in> set states" "importable s"
    using cs
  proof cases
    case imported
    have t: "table_ok (best_ok sha hex) best \<and>
        (\<forall>s \<in> set states. importable s \<longrightarrow> (\<exists>c'. map_of best (st_Key s) = Some c' \<and> st_Accepted s \<le> st_Accepted c'))"
      using best_states_ok [OF imported(1) table_ok_Nil] by blast
    then obtain c where c: "map_of best (st_Key s) = Some c" "st_Accepted s \<le> st_Accepted c" using im by blast
    have "st_Accepted c \<le> st_Accepted (row_of db1 (st_Key s))"
      using import_fold [OF imported(2) assms(2)] t map_of_SomeD [OF c(1)] by fastforce
    with c show ?thesis by (auto simp: imported(3))
  qed (use im in simp)
qed

subsection \<open>Runs\<close>

lemma insert_config_simps [simp]:
  "claim_row (insert_voter_config db row) k = claim_row db k"
  "row_of (insert_voter_config db row) k = row_of db k"
  "voter_ok sha hex (insert_voter_config db row) = voter_ok sha hex db"
  "db_hostName (insert_voter_config db row) = db_hostName db"
  "db_adoptions (insert_voter_config db row) = db_adoptions db"
  by (simp_all add: insert_voter_config_def claim_row_def voter_ok_def row_of_conv)

lemma seal_simps [simp]:
  "claim_row (seal_generation db g) k = claim_row db k"
  "row_of (seal_generation db g) k = row_of db k"
  "voter_ok sha hex (seal_generation db g) = voter_ok sha hex db"
  "db_hostName (seal_generation db g) = db_hostName db"
  by (simp_all add: seal_generation_def claim_row_def voter_ok_def row_of_conv)

lemma targets_simps [simp]:
  "claim_row (db\<lparr>db_targets := t\<rparr>) k = claim_row db k"
  "row_of (db\<lparr>db_targets := t\<rparr>) k = row_of db k"
  "voter_ok sha hex (db\<lparr>db_targets := t\<rparr>) = voter_ok sha hex db"
  by (simp_all add: claim_row_def voter_ok_def row_of_conv)

lemma voter_step_preserves:
  "voter_step sha hex db db' \<Longrightarrow> voter_ok sha hex db \<Longrightarrow>
   voter_ok sha hex db' \<and> row_le (row_of db k) (row_of db' k)"
  by (induction rule: voter_step.induct)
     (auto simp: RecordVoterAdoption_def dest: prepare_preserves accept_preserves import_preserves(1,2))

lemma voter_run_preserves:
  "voter_run sha hex db db' \<Longrightarrow> voter_ok sha hex db \<Longrightarrow>
   voter_ok sha hex db' \<and> row_le (row_of db k) (row_of db' k)"
  by (induction rule: rtranclp_induct) (auto dest: voter_step_preserves [of _ _ _ _ k] intro: row_le_trans)

lemma import_row_exists:
  "claim_row db k \<noteq> None \<Longrightarrow> fold (import_one g) best (n, db) = (n', db') \<Longrightarrow> claim_row db' k \<noteq> None"
proof (induction best arbitrary: n db)
  case (Cons x best)
  obtain n1 db1 where one: "import_one g x (n, db) = (n1, db1)" by (cases "import_one g x (n, db)")
  then have "claim_row db1 k \<noteq> None"
    using Cons.prems(1) by (cases x) (auto simp: import_one_def Let_def split: if_splits)
  with Cons.IH Cons.prems(2) one show ?case by simp
qed simp

lemma voter_run_row_exists:
  "voter_run sha hex db db' \<Longrightarrow> claim_row db k \<noteq> None \<Longrightarrow> claim_row db' k \<noteq> None"
proof (induction rule: rtranclp_induct)
  case (step db1 db2)
  from step.hyps(2) show ?case
    using step.IH [OF step.prems]
  proof (cases rule: voter_step.cases)
    case (step_prepare key b gen r)
    with step.IH [OF step.prems] show ?thesis
      by (auto simp: ClaimPrepare_def Let_def split: if_splits sum.splits option.splits)
  next
    case (step_accept v d b signer oc key gen r)
    from this(3) step.IH [OF step.prems] show ?thesis by (cases rule: ClaimAcceptTx_cases) auto
  next
    case (step_import newGen src states n)
    with step.IH [OF step.prems] show ?thesis
      by (auto simp: ImportClaimsAndAdopt_def split: if_splits sum.splits prod.splits
          dest!: import_row_exists [rotated])
  qed (auto simp: RecordVoterAdoption_def)
qed

lemma AdoptedVoterGeneration_Max:
  "AdoptedVoterGeneration db = (if db_adoptions db = [] then 0 else Max (fst ` set (db_adoptions db)))"
  unfolding AdoptedVoterGeneration_def
  by (cases "db_adoptions db") (simp_all flip: Max.set_eq_fold)

lemma AdoptedVoterGeneration_record:
  assumes "AdoptedVoterGeneration db < g" "0 \<le> AdoptedVoterGeneration db"
  shows "AdoptedVoterGeneration (recordAdoptionTx db g from) = g"
proof (cases "db_adoptions db = []")
  case True
  then show ?thesis by (simp add: AdoptedVoterGeneration_Max recordAdoptionTx_def)
next
  case False
  with assms(1) have "Max (fst ` set (db_adoptions db)) < g" by (simp add: AdoptedVoterGeneration_Max)
  with False have "g \<notin> fst ` set (db_adoptions db)" by (subst (asm) Max_less_iff) auto
  with assms False show ?thesis by (simp add: AdoptedVoterGeneration_Max recordAdoptionTx_def)
qed

lemma import_fold_adoptions:
  "fold (import_one g) best (n, db) = (n', db') \<Longrightarrow>
   db_adoptions db' = db_adoptions db \<and> db_seals db' = db_seals db \<and> db_hostName db' = db_hostName db"
proof (induction best arbitrary: n db)
  case (Cons x best)
  then show ?case
    by (cases "import_one g x (n, db)", cases x) (auto simp: import_one_def Let_def split: if_splits)
qed simp

lemma recordAdoption_grows:
  "0 \<le> g \<Longrightarrow> set (db_adoptions db) \<subseteq> set (db_adoptions (recordAdoptionTx db g from)) \<and>
   AdoptedVoterGeneration db \<le> AdoptedVoterGeneration (recordAdoptionTx db g from)"
  by (auto simp: recordAdoptionTx_def AdoptedVoterGeneration_Max)

lemma voter_step_frame:
  "voter_step sha hex db db' \<Longrightarrow>
   AdoptedVoterGeneration db \<le> AdoptedVoterGeneration db' \<and> set (db_seals db) \<subseteq> set (db_seals db') \<and>
   db_hostName db' = db_hostName db"
proof (induction rule: voter_step.induct)
  case (step_prepare db key b gen r db')
  then show ?case by (auto simp: ClaimPrepare_def Let_def split: if_splits sum.splits option.splits)
next
  case (step_accept v d b signer oc db key gen r db')
  from step_accept(3) show ?case by (cases rule: ClaimAcceptTx_cases) auto
next
  case (step_import db newGen src states n db')
  consider "db' = db"
    | best db1 where "fold (import_one newGen) best (0, db) = (n, db1)" "db' = recordAdoptionTx db1 newGen src"
        "AdoptedVoterGeneration db = newGen - 1"
    using step_import by (auto simp: ImportClaimsAndAdopt_def readStandingTx_def Let_def
        split: sum.splits if_splits prod.splits option.splits)
  then show ?case
  proof cases
    case (2 best db1)
    note f = import_fold_adoptions [OF 2(1)]
    then have "AdoptedVoterGeneration db1 = AdoptedVoterGeneration db" by (simp add: AdoptedVoterGeneration_def)
    moreover have "AdoptedVoterGeneration db1 \<le> AdoptedVoterGeneration db'"
      by (cases "db_adoptions db1 = []")
         (use 2 calculation in \<open>auto simp: recordAdoptionTx_def AdoptedVoterGeneration_Max\<close>)
    ultimately show ?thesis using f by (simp add: 2(2) recordAdoptionTx_def)
  qed simp
next
  case (step_adopt g db)
  then show ?case using recordAdoption_grows [of g db "[]"] by (simp add: RecordVoterAdoption_def recordAdoptionTx_def)
qed (auto simp: insert_voter_config_def seal_generation_def AdoptedVoterGeneration_def)

lemma voter_run_frame:
  "voter_run sha hex db db' \<Longrightarrow>
   AdoptedVoterGeneration db \<le> AdoptedVoterGeneration db' \<and> set (db_seals db) \<subseteq> set (db_seals db') \<and>
   db_hostName db' = db_hostName db"
  by (induction rule: rtranclp_induct) (fastforce dest: voter_step_frame)+

lemmas voter_run_hostName = conjunct2 [OF conjunct2 [OF voter_run_frame]]

section \<open>The whole accept\<close>

text \<open>What other calls on the node do between two transactions of an accept is a run of steps.\<close>

definition run_fun :: "(bytes \<Rightarrow> bytes) \<Rightarrow> (bytes \<Rightarrow> string) \<Rightarrow> (voter_db \<Rightarrow> voter_db) \<Rightarrow> bool" where
  "run_fun sha hex f \<longleftrightarrow> (\<forall>db. voter_run sha hex db (f db))"

lemma run_fun_id [simp]: "run_fun sha hex (\<lambda>db. db)"
  by (simp add: run_fun_def)

text \<open>
  An accept that succeeds ends in one transaction that accepted, either the first one, on the
  database the call found, or the one after an owner check that passed.
\<close>

lemma claim_accept_loop_checked:
  "claim_accept_loop sha s probe before during key b v d gen True db = Inr (r, db') \<longleftrightarrow>
   ClaimAcceptTx sha s True db key b v d gen = TxDone r db'"
  using ClaimAcceptTx_checked [of sha s db key b v d gen]
  by (subst claim_accept_loop.simps, cases "ClaimAcceptTx sha s True db key b v d gen") auto

lemma ClaimAccept_accepted:
  assumes "ClaimAccept sha hex signer probe before during db key b v gen = Inr (r, db')" "ar_Accepted r"
  obtains (first) s d where "signer = Some s" "sg_Name s = db_hostName db" "Digest sha hex v = Some d" "Round b \<noteq> 0"
      "ClaimAcceptTx sha s False db key b v d gen = TxDone r db'"
  | (checked) s d where "signer = Some s" "sg_Name s = db_hostName db" "Digest sha hex v = Some d" "Round b \<noteq> 0"
      "ClaimAcceptTx sha s False db key b v d gen = TxNeedsOwnerCheck"
      "checkClaimOwner (before db) key v probe True = None"
      "ClaimAcceptTx sha s True (during (before db)) key b v d gen = TxDone r db'"
  | (held) s d where "signer = Some s" "sg_Name s = db_hostName db" "Digest sha hex v = Some d" "Round b \<noteq> 0"
      "ClaimAcceptTx sha s False db key b v d gen = TxNeedsSourceCheck"
      "checkClaimOwner (before db) key v probe False = None"
      "ClaimAcceptTx sha s True (during (before db)) key b v d gen = TxDone r db'"
proof -
  from assms obtain s d where sd: "signer = Some s" "sg_Name s = db_hostName db" "Digest sha hex v = Some d" "Round b \<noteq> 0"
    and loop: "claim_accept_loop sha s probe before during key b v d gen False db = Inr (r, db')"
    by (auto simp: ClaimAccept_def refuse_accept_def split: option.splits if_splits)
  note last = iffD1 [OF claim_accept_loop_checked]
  show ?thesis
  proof (cases "ClaimAcceptTx sha s False db key b v d gen")
    case (TxDone r1 db1)
    with loop have "ClaimAcceptTx sha s False db key b v d gen = TxDone r db'"
      by (subst (asm) claim_accept_loop.simps) simp
    with sd show ?thesis by (intro first)
  next
    case TxNeedsOwnerCheck
    with loop assms(2) have "checkClaimOwner (before db) key v probe True = None"
      "claim_accept_loop sha s probe before during key b v d gen True (during (before db)) = Inr (r, db')"
      by (subst (asm) claim_accept_loop.simps, auto simp: refuse_accept_def split: option.splits)+
    with sd TxNeedsOwnerCheck show ?thesis by (intro checked) (auto dest: last)
  next
    case TxNeedsSourceCheck
    with loop assms(2) have "checkClaimOwner (before db) key v probe False = None"
      "claim_accept_loop sha s probe before during key b v d gen True (during (before db)) = Inr (r, db')"
      by (subst (asm) claim_accept_loop.simps, auto simp: refuse_accept_def split: option.splits)+
    with sd TxNeedsSourceCheck show ?thesis by (intro held) (auto dest: last)
  next
    case (TxErr e)
    with loop show ?thesis by (subst (asm) claim_accept_loop.simps) simp
  qed
qed

text \<open>So a call that accepted did so in a transaction on a database the run reaches.\<close>

lemma ClaimAccept_tx:
  assumes "ClaimAccept sha hex signer probe before during db key b v gen = Inr (r, db')" "ar_Accepted r"
    and "run_fun sha hex before" "run_fun sha hex during"
  obtains s d oc db1 where "Digest sha hex v = Some d" "Round b \<noteq> 0" "voter_run sha hex db db1"
    "signer = Some s" "ClaimAcceptTx sha s oc db1 key b v d gen = TxDone r db'"
proof -
  have run: "voter_run sha hex db (during (before db))"
    using assms(3,4) by (auto simp: run_fun_def intro: rtranclp_trans)
  from assms(1,2) show ?thesis
    by (cases rule: ClaimAccept_accepted) (use run that in blast)+
qed

lemma ClaimAcceptTx_above_promise:
  "ClaimAcceptTx sha s oc db key b v d gen = TxDone r db' \<Longrightarrow> ar_Accepted r \<Longrightarrow> st_Promised (row_of db key) \<le> b"
  by (erule ClaimAcceptTx_cases) auto

lemma readStanding_fields:
  "readStandingTx db = Inr st \<Longrightarrow>
   vs_me st = db_hostName db \<and> vs_adopted st = AdoptedVoterGeneration db \<and>
   db_incarnation db = Some (vs_incarnation st) \<and>
   vs_cfg st = (if AdoptedVoterGeneration db > 0 then GetVoterConfig db (AdoptedVoterGeneration db) else None) \<and>
   (vs_sealed st \<longleftrightarrow> config_change_accepted db (AdoptedVoterGeneration db) \<or>
     AdoptedVoterGeneration db \<in> set (db_seals db))"
  by (auto simp: readStandingTx_def Let_def split: if_splits option.splits)

lemma admit_gen: "admit st key gen v = None \<Longrightarrow> gen = vs_adopted st \<and> ClaimKey_Validate key"
  by (auto simp: admit_def split: if_splits)

lemma admit_workload_sealed: "admit st key gen v = None \<Longrightarrow> IsWorkload key \<Longrightarrow> \<not> vs_sealed st"
  by (auto simp: admit_def admit_workload_def split: if_splits option.splits)

lemma Validate_kind: "ClaimKey_Validate key \<Longrightarrow> \<not> IsVoterConfig key \<Longrightarrow> IsWorkload key"
  by (simp add: ClaimKey_Validate_def split: if_splits)

text \<open>A write to the row of a key the voter admitted changes neither its standing nor the admission.\<close>

lemma config_change_accepted_inc:
  "k_Incarnation (st_Key s) \<noteq> '''' \<Longrightarrow> config_change_accepted (saveClaimRowTx db s) g = config_change_accepted db g"
  by (simp add: config_change_accepted_def saveClaimRowTx_def)

lemma list_ex_update:
  "(\<And>s'. \<not> P (k, s')) \<Longrightarrow> list_ex P (AList.update k s t) = list_ex P t"
  by (induction t) auto

lemma config_change_accepted_workload:
  "IsWorkload (st_Key s) \<Longrightarrow> config_change_accepted (saveClaimRowTx db s) g = config_change_accepted db g"
  using kinds_distinct [of "st_Key s"]
  by (auto simp: config_change_accepted_def saveClaimRowTx_def IsVoterConfig_def intro!: list_ex_update)


lemma readStanding_save:
  assumes "readStandingTx db = Inr st"
  shows "readStandingTx (saveClaimRowTx db s) =
    Inr (st\<lparr>vs_sealed := config_change_accepted (saveClaimRowTx db s) (vs_adopted st) \<or> vs_adopted st \<in> set (db_seals db)\<rparr>)"
  using assms by (auto simp: readStandingTx_def Let_def split: if_splits option.splits)

lemma admit_config_sealed [simp]: "admit_config (st\<lparr>vs_sealed := x\<rparr>) key v = admit_config st key v"
  by (simp add: admit_config_def memberCheck_def cong: if_cong option.case_cong)

lemma admit_after_save:
  assumes "readStandingTx db = Inr st" "admit st (st_Key s) gen v = None"
  shows "\<exists>st'. readStandingTx (saveClaimRowTx db s) = Inr st' \<and> admit st' (st_Key s) gen v = None \<and>
    vs_incarnation st' = vs_incarnation st"
proof (cases "IsVoterConfig (st_Key s)")
  case True
  then show ?thesis
    using readStanding_save [OF assms(1), of s] assms(2) by (simp add: admit_def split: if_splits)
next
  case False
  then have "IsWorkload (st_Key s)" using admit_gen [OF assms(2)] by (blast intro: Validate_kind)
  then have "readStandingTx (saveClaimRowTx db s) = Inr st"
    using readStanding_save [OF assms(1), of s] readStanding_fields [OF assms(1)]
    by (simp add: config_change_accepted_workload)
  with assms(2) show ?thesis by simp
qed

lemma legacyKeySealed_save:
  "legacyKeySealedTx (saveClaimRowTx db s) (st_Key s) = legacyKeySealedTx db (st_Key s)"
  by (simp add: legacyKeySealedTx_def saveClaimRowTx_def)

subsection \<open>Seals\<close>

lemma Round_mono: "a \<le> b \<Longrightarrow> Round a \<le> Round (b :: Ballot)"
  by (auto simp: less_eq_Ballot_def CompareBallots_def split: if_splits)

lemma sint_pos: "0 < sint (w :: u64) \<Longrightarrow> w \<noteq> 0"
  by auto

lemma sint_small_pos:
  assumes "(w :: u64) < 2 ^ 63" "w \<noteq> 0"
  shows "0 < sint w"
proof -
  have u: "uint w < 2 ^ 63" using assms(1) by (simp add: word_less_def)
  have n: "- (2 ^ 63) \<le> uint w" by (rule order.trans [of _ 0]) simp_all
  have "signed_take_bit 63 (uint w) = uint w" by (rule signed_take_bit_int_eq_self [OF n u])
  then have "sint w = uint w" by (simp add: sint_uint)
  moreover have "0 < uint w" using assms(2) by (simp add: uint_0_iff less_le)
  ultimately show ?thesis by simp
qed

text \<open>No ballot round has reached the sign bit of the integer column that stores it.\<close>

definition rounds_ok :: "voter_db \<Rightarrow> bool" where
  "rounds_ok db \<longleftrightarrow> (\<forall>k. Round (st_Accepted (row_of db k)) < 2 ^ 63)"

lemma accepted_row_grows:
  "accepted_row s \<Longrightarrow> row_le s s' \<Longrightarrow> Round (st_Accepted s') < 2 ^ 63 \<Longrightarrow> accepted_row s'"
  using Round_mono [of "st_Accepted s" "st_Accepted s'"]
  by (auto simp: accepted_row_def row_le_def intro!: sint_small_pos dest: sint_pos)

lemma config_change_accepted_iff:
  assumes "voter_ok sha hex db"
  shows "config_change_accepted db g \<longleftrightarrow> (\<exists>k s. claim_row db k = Some s \<and> k_Incarnation k = '''' \<and>
    k_TargetKind k = ClaimKindVoterConfig \<and> k_OwnerEpoch k = g \<and> accepted_row s)"
  using assms map_of_is_SomeI [of "db_claims db"]
  by (fastforce simp: config_change_accepted_def list_ex_iff claim_row_def voter_ok_def table_ok_def
      dest: map_of_SomeD)

lemma config_change_accepted_stays:
  assumes "config_change_accepted db g" "voter_run sha hex db db'" "voter_ok sha hex db" "rounds_ok db'"
  shows "config_change_accepted db' g"
proof -
  from assms(1) obtain k s where k: "claim_row db k = Some s" "k_Incarnation k = ''''"
      "k_TargetKind k = ClaimKindVoterConfig" "k_OwnerEpoch k = g" "accepted_row s"
    by (auto simp: config_change_accepted_iff [OF assms(3)])
  obtain s' where s': "claim_row db' k = Some s'" using voter_run_row_exists [OF assms(2), of k] k(1) by auto
  have run: "voter_ok sha hex db'" "row_le (row_of db k) (row_of db' k)"
    using voter_run_preserves [OF assms(2,3)] by auto
  then have "accepted_row s'"
    using assms(4) k(1,5) s' by (auto simp: row_of_conv rounds_ok_def intro!: accepted_row_grows [of s s']) (metis option.simps(5))
  with run(1) k s' show ?thesis by (auto simp: config_change_accepted_iff)
qed

text \<open>Once a voter no longer votes on workload keys under a generation, it never does again.\<close>

definition frozen :: "voter_db \<Rightarrow> int \<Rightarrow> bool" where
  "frozen db gen \<longleftrightarrow> AdoptedVoterGeneration db > gen \<or>
     AdoptedVoterGeneration db = gen \<and> (config_change_accepted db gen \<or> gen \<in> set (db_seals db))"

lemma frozen_stays:
  assumes "frozen db gen" "voter_run sha hex db db'" "voter_ok sha hex db" "rounds_ok db'"
  shows "frozen db' gen"
  using assms(1) voter_run_frame [OF assms(2)] config_change_accepted_stays [OF _ assms(2-4), of gen]
  by (auto simp: frozen_def)

lemma frozen_refuses:
  assumes "frozen db gen" "readStandingTx db = Inr st" "IsWorkload key"
  shows "admit st key gen v \<noteq> None"
  using assms readStanding_fields [OF assms(2)] admit_gen [of st key gen v] admit_workload_sealed [of st key gen v]
  by (auto simp: frozen_def)

lemma ClaimStatesForImport_frozen:
  "ClaimStatesForImport db gen = Inr src \<Longrightarrow> im_Frozen src = frozen db gen"
  by (auto simp: ClaimStatesForImport_def frozen_def dest: readStanding_fields split: sum.splits)

lemma ClaimStatesForImport_states:
  assumes "ClaimStatesForImport db gen = Inr src" "voter_ok sha hex db" "rounds_ok db"
    and "IsWorkload k" "Round (st_Accepted (row_of db k)) \<noteq> 0"
  shows "row_of db k \<in> set (im_States src)"
proof -
  obtain s where s: "claim_row db k = Some s" "row_of db k = s"
    using assms(5) by (auto simp: row_of_conv zero_state_def split: option.splits)
  have "accepted_row s" using assms(3,5) s(2) by (auto simp: accepted_row_def rounds_ok_def intro!: sint_small_pos)
  moreover have "st_Key s = k" using voter_ok_row [OF assms(2), of k] s(2) by (simp add: row_ok_def)
  ultimately have "s \<in> set (import_rows (db_claims db) @ import_rows (db_inc_claims db))"
    using s(1) assms(4) by (force simp: claim_row_def import_rows_def dest!: map_of_SomeD split: if_splits)
  with assms(1) s(2) show ?thesis by (auto simp: ClaimStatesForImport_def split: sum.splits)
qed

section \<open>Properties\<close>

text \<open>C15: A voter's claim state is well formed after any sequence of its operations, and for every
  key the promised and the accepted ballot never go down, nor does the value at an accepted ballot
  change.\<close>

theorem voter_state_only_moves_forward:
  assumes "voter_run sha hex db db'" "voter_ok sha hex db"
  shows "voter_ok sha hex db' \<and> row_le (row_of db k) (row_of db' k) \<and>
    st_Accepted (row_of db' k) \<le> st_Promised (row_of db' k)"
  using voter_run_preserves [OF assms, of k] voter_ok_row [of sha hex db' k] by (simp add: row_ok_def)

text \<open>C4: A promise binds: once a voter has answered a Prepare with a promise at a ballot, then
  whatever it does afterwards, no Accept below that ballot succeeds.\<close>

theorem promise_is_binding:
  assumes "ClaimPrepare db key b gen = Inr (r, db1)" "pr_Promised r" "voter_ok sha hex db"
    and "voter_run sha hex db1 db2" "run_fun sha hex before" "run_fun sha hex during"
    and "ClaimAccept sha hex signer probe before during db2 key b' v gen' = Inr (r', db3)" "b' < b"
  shows "\<not> ar_Accepted r'"
proof
  assume "ar_Accepted r'"
  with assms(5-7) obtain s d oc dbx where tx: "voter_run sha hex db2 dbx"
      "ClaimAcceptTx sha s oc dbx key b' v d gen' = TxDone r' db3"
    by (metis ClaimAccept_tx)
  have ok: "voter_ok sha hex db1" and key: "st_Key (row_of db key) = key"
    using prepare_preserves(1) [OF assms(1,3)] voter_ok_row [OF assms(3), of key] by (simp_all add: row_ok_def)
  have "st_Promised (row_of db1 key) = b"
    using assms(1) key by (cases rule: ClaimPrepare_cases) (use assms(2) key in auto)
  moreover have "row_le (row_of db1 key) (row_of dbx key)"
    using voter_run_preserves [OF rtranclp_trans [OF assms(4) tx(1)] ok] by blast
  ultimately have "b \<le> st_Promised (row_of dbx key)" by (simp add: row_le_def)
  with ClaimAcceptTx_above_promise [OF tx(2) \<open>ar_Accepted r'\<close>] assms(8) show False by auto
qed

text \<open>A Prepare or an Accept that is not granted writes nothing, and an Accept answers with the
  accept it signed: a repeated Accept returns the same signed accept and writes nothing.\<close>

theorem repeated_accept_is_idempotent:
  assumes "ClaimAccept sha hex signer probe (\<lambda>db. db) (\<lambda>db. db) db key b v gen = Inr (r, db')" "voter_ok sha hex db"
  shows "if ar_Accepted r
    then \<exists>r'. ClaimAccept sha hex signer probe' before during db' key b v gen = Inr (r', db') \<and>
      ar_Accepted r' \<and> ar_Accept r' = ar_Accept r \<and> ar_Accept r \<noteq> None
    else db' = db"

proof (cases "ar_Accepted r")
  case False
  have tx: "ClaimAcceptTx sha s oc db key b v d gen = TxDone r db' \<Longrightarrow> db' = db" for s oc d
    using False by (auto elim: ClaimAcceptTx_cases)
  have nw: "db' = db" if "claim_accept_loop sha s probe (\<lambda>db. db) (\<lambda>db. db) key b v d gen False db = Inr (r, db')" for s d
    using that by (subst (asm) claim_accept_loop.simps)
      (cases "ClaimAcceptTx sha s False db key b v d gen",
       auto simp: claim_accept_loop_checked dest: tx split: option.splits)
  with assms False show ?thesis
    by (auto simp: ClaimAccept_def split: option.splits if_splits)
next
  case True
  with assms(1) obtain s d oc where sd: "signer = Some s" "sg_Name s = db_hostName db" "Digest sha hex v = Some d" "Round b \<noteq> 0"
    and tx: "ClaimAcceptTx sha s oc db key b v d gen = TxDone r db'"
    by (elim ClaimAccept_accepted) blast+
  have coord: "Coordinator b \<noteq> ''''"
    using assms(1) True sd by (auto simp: ClaimAccept_def refuse_accept_def split: if_splits)
  have ok: "voter_ok sha hex db'" and key: "st_Key (row_of db key) = key"
    using accept_preserves(1) [OF tx assms(2) sd(3,4)] voter_ok_row [OF assms(2), of key] by (simp_all add: row_ok_def)
  have again: "\<exists>st. readStandingTx db' = Inr st \<and> admit st key gen (Some v) = None \<and> \<not> legacyKeySealedTx db' key \<and>
      st_Accepted (row_of db' key) = b \<and> st_Promised (row_of db' key) \<le> b \<and> st_ValueDigest (row_of db' key) = d \<and>
      st_Accept (row_of db' key) = ar_Accept r \<and> ar_Accept r \<noteq> None \<and> a_ConfigGeneration (the (ar_Accept r)) = gen \<and>
      db_hostName db' = db_hostName db"
    using tx
  proof (cases rule: ClaimAcceptTx_cases)
    case (accepted st a)
    let ?s = "accept_row (row_of db key) b v d a gen"
    have k: "st_Key ?s = key" using key by (simp add: accept_row_def)
    show ?thesis
      using admit_after_save [of db st ?s gen "Some v"] legacyKeySealed_save [of db ?s] accepted k Sign_fields [OF accepted(8)]
      by (auto simp: accept_row_def)
  qed (use True in auto)
  then have "ClaimAcceptTx sha s False db' key b v d gen =
      TxDone (accepted_result db' (st_Promised (row_of db' key)) (ar_Accept r)) db'"
    by (auto simp: ClaimAcceptTx_def Let_def ballot_order)
  then have "claim_accept_loop sha s probe' before during key b v d gen False db' =
      Inr (accepted_result db' (st_Promised (row_of db' key)) (ar_Accept r), db')"
    by (subst claim_accept_loop.simps) simp
  with sd coord again True show ?thesis
    by (auto simp: ClaimAccept_def accepted_result_def)
qed

text \<open>A voter does not count towards evicting an owner it can reach: a workload value naming as
  source the voter itself, or a host the probe reaches, or any host when no probe is wired, is
  accepted only where the voter holds that value already, at this key or (never when the source is
  the voter itself) at its legacy form.\<close>

theorem reachable_owner_is_not_evicted:
  assumes "ClaimAccept sha hex signer probe before during db key b v gen = Inr (r, db')" "ar_Accepted r"
    and "run_fun sha hex before" "IsWorkload key" "Digest sha hex v = Some d"
    and "v_SourceHost v = db_hostName db \<or> probe = None \<or> (\<exists>p. probe = Some p \<and> p (v_SourceHost v))"
  shows "st_ValueDigest (row_of db key) = d \<or> v_SourceHost v \<noteq> db_hostName db \<and> legacy_held db key d"
proof -
  have host: "db_hostName (before db) = db_hostName db"
    using assms(3) voter_run_hostName [of sha hex db "before db"] by (simp add: run_fun_def)
  from assms(1,2) show ?thesis
  proof (cases rule: ClaimAccept_accepted)
    case (first s d')
    from first(5) show ?thesis
      by (cases rule: ClaimAcceptTx_cases) (use assms(2,4,5) first(3) in auto)
  next
    case checked
    with assms(6) host show ?thesis by (auto simp: checkClaimOwner_def split: if_splits option.splits)
  next
    case (held s d')
    then have "legacy_held db key d'"
      by (auto simp: ClaimAcceptTx_def Let_def split: sum.splits option.splits if_splits)
    with held host assms(5) show ?thesis by (auto simp: checkClaimOwner_def split: if_splits)
  qed
qed

text \<open>Importing the states of sealed voters into the next generation adopts it, and leaves for
  every key a value accepted at least as high as each imported one and as the voter's own.\<close>

theorem import_carries_highest_accepted:
  assumes "ImportClaimsAndAdopt sha hex db newGen src states = Inr (n, db')" "voter_ok sha hex db"
    and "AdoptedVoterGeneration db < newGen" "0 \<le> AdoptedVoterGeneration db"
  shows "AdoptedVoterGeneration db = newGen - 1 \<and> AdoptedVoterGeneration db' = newGen \<and>
    (\<forall>s \<in> set states. importable s \<longrightarrow> st_Accepted s \<le> st_Accepted (row_of db' (st_Key s))) \<and>
    (\<forall>k. row_le (row_of db k) (row_of db' k))"
proof -
  from assms(1,3) obtain best db1 where imp: "best_states sha hex [] states = Inr best"
      "fold (import_one newGen) best (0, db) = (n, db1)" "db' = recordAdoptionTx db1 newGen src"
    and prev: "AdoptedVoterGeneration db = newGen - 1"
    by (auto simp: ImportClaimsAndAdopt_def readStandingTx_def Let_def
        split: sum.splits if_splits prod.splits option.splits)
  have "db_adoptions db1 = db_adoptions db"
    using import_fold [OF imp(2) assms(2)] best_states_ok [OF imp(1) table_ok_Nil] by blast
  then have "AdoptedVoterGeneration db1 = AdoptedVoterGeneration db" by (simp add: AdoptedVoterGeneration_def)
  with assms(3,4) have "AdoptedVoterGeneration db' = newGen" by (simp add: imp(3) AdoptedVoterGeneration_record)
  with prev assms(3) import_preserves [OF assms(1,2)] show ?thesis by blast
qed

text \<open>A promise at an incarnation-scoped key seals the legacy key of the same decision: from
  then on the voter neither promises nor accepts there, so what it reported of it is final.\<close>

theorem incarnation_promise_seals_legacy_key:
  assumes "ClaimPrepare db key b gen = Inr (r, db1)" "pr_Promised r" "voter_ok sha hex db"
    and "IsWorkload key" "k_Incarnation key \<noteq> ''''" "voter_run sha hex db1 db2"
  shows "(case ClaimPrepare db2 (Legacy key) b' gen' of Inl e \<Rightarrow> True
      | Inr (r', db3) \<Rightarrow> \<not> pr_Promised r' \<and> db3 = db2) \<and>
    (case ClaimAcceptTx sha s oc db2 (Legacy key) b' v d gen' of
        TxDone r' db3 \<Rightarrow> \<not> ar_Accepted r' \<and> db3 = db2 | TxErr e \<Rightarrow> True | _ \<Rightarrow> False)"
proof -
  have key: "st_Key (row_of db key) = key"
    using voter_ok_row [OF assms(3), of key] by (simp add: row_ok_def)
  have "claim_row db1 key \<noteq> None"
    using assms(1) key
  proof (cases rule: ClaimPrepare_cases)
    case (promised st)
    then have "b \<noteq> zero_ballot" by auto
    with promised key show ?thesis by (auto simp: row_of_conv zero_state_def split: if_splits option.splits)
  qed (use assms(2) in simp)
  then have "claim_row db2 key \<noteq> None" by (rule voter_run_row_exists [OF assms(6)])
  then have "legacyKeySealedTx db2 (Legacy key)"
    using assms(4,5)
    by (auto simp: legacyKeySealedTx_def claim_row_def SameDecision_def list_ex_iff dest!: map_of_SomeD)
  then show ?thesis
    by (auto simp: ClaimPrepare_def ClaimAcceptTx_def refuse_prepare_def refuse_accept_def
        split: sum.splits option.splits)
qed

text \<open>C16: What a frozen voter hands an importer is complete and final: it holds every workload value
  the voter accepted, and whatever the voter does afterwards it neither promises nor accepts a
  workload key under that generation, as long as no accepted round reaches the sign bit of its
  column.\<close>

theorem frozen_snapshot_is_complete_and_final:
  assumes "ClaimStatesForImport db gen = Inr src" "im_Frozen src" "voter_ok sha hex db"
    and "voter_run sha hex db db'" "rounds_ok db'" "IsWorkload key"
  shows "(Round (st_Accepted (row_of db key)) \<noteq> 0 \<longrightarrow> row_of db key \<in> set (im_States src)) \<and>
    (case ClaimPrepare db' key b gen of Inl e \<Rightarrow> True | Inr (r, db2) \<Rightarrow> \<not> pr_Promised r) \<and>
    (case ClaimAcceptTx sha s oc db' key b v d gen of TxDone r db2 \<Rightarrow> \<not> ar_Accepted r | TxErr e \<Rightarrow> True | _ \<Rightarrow> False)"
proof -
  have fr: "frozen db' gen"
    using frozen_stays [OF _ assms(4,3,5)] ClaimStatesForImport_frozen [OF assms(1)] assms(2) by simp
  have "rounds_ok db"
    using assms(5) voter_run_preserves [OF assms(4,3)] Round_mono unfolding rounds_ok_def row_le_def
    by (meson le_less_trans)
  then have "Round (st_Accepted (row_of db key)) \<noteq> 0 \<longrightarrow> row_of db key \<in> set (im_States src)"
    using ClaimStatesForImport_states [OF assms(1,3) _ assms(6)] by blast
  moreover have "case ClaimPrepare db' key b gen of Inl e \<Rightarrow> True | Inr (r, db2) \<Rightarrow> \<not> pr_Promised r"
    using frozen_refuses [OF fr _ assms(6), of _ None]
    by (cases "readStandingTx db'") (auto simp: ClaimPrepare_def refuse_prepare_def)
  moreover have "case ClaimAcceptTx sha s oc db' key b v d gen of TxDone r db2 \<Rightarrow> \<not> ar_Accepted r
      | TxErr e \<Rightarrow> True | _ \<Rightarrow> False"
    using frozen_refuses [OF fr _ assms(6), of _ "Some v"]
    by (cases "readStandingTx db'") (auto simp: ClaimAcceptTx_def refuse_accept_def)
  ultimately show ?thesis by blast
qed

section \<open>Witnesses\<close>

definition demo_sha :: "bytes \<Rightarrow> bytes" where "demo_sha x = x"

definition demo_hex :: "bytes \<Rightarrow> string" where "demo_hex x = CHR ''h'' # x"

definition demo_signer :: "string \<Rightarrow> ClaimSigner" where
  "demo_signer n = \<lparr>sg_Name = n, sg_CertPEM = n, sg_Sign = (\<lambda>p. Some (n @ p))\<rparr>"

definition demo_voter :: "string \<Rightarrow> voter_db" where
  "demo_voter n = \<lparr>db_hostName = n, db_adoptions = [(1, [])],
     db_configs = [demo_row 1 [''a'', ''b'', ''c''] ''genesis''], db_incarnation = Some ''i'',
     db_claims = [], db_inc_claims = [], db_seals = [], db_targets = []\<rparr>"

definition demo_ballot :: "u64 \<Rightarrow> Ballot" where
  "demo_ballot r = Ballot r ''a'' ''n''"

text \<open>What the demo voter's database is after a step that succeeds.\<close>

definition demo_accept :: "voter_db \<Rightarrow> ClaimKey \<Rightarrow> u64 \<Rightarrow> ClaimValue \<Rightarrow> StoreError + AcceptResult \<times> voter_db" where
  "demo_accept db k r v = ClaimAccept demo_sha demo_hex (Some (demo_signer (db_hostName db))) (Some (\<lambda>_. False))
     (\<lambda>db. db) (\<lambda>db. db) db k (demo_ballot r) v 1"

definition prepared :: "StoreError + PrepareResult \<times> voter_db \<Rightarrow> bool" where
  "prepared x = (case x of Inl e \<Rightarrow> False | Inr (r, db) \<Rightarrow> pr_Promised r)"

definition accepted_call :: "StoreError + AcceptResult \<times> voter_db \<Rightarrow> bool" where
  "accepted_call x = (case x of Inl e \<Rightarrow> False | Inr (r, db) \<Rightarrow> ar_Accepted r)"

lemma preparedE: "prepared x \<Longrightarrow> \<exists>r db. x = Inr (r, db) \<and> pr_Promised r"
  by (auto simp: prepared_def split: sum.splits)

lemma accepted_callE: "accepted_call x \<Longrightarrow> \<exists>r db. x = Inr (r, db) \<and> ar_Accepted r"
  by (auto simp: accepted_call_def split: sum.splits)

lemma demo_voter_ok [simp]: "voter_ok sha hex (demo_voter n)"
  by (simp add: voter_ok_def demo_voter_def)

lemma demo_prepare: "prepared (ClaimPrepare (demo_voter ''b'') demo_key (demo_ballot 5) 1)"
  by code_simp

lemma demo_prepare_inc: "prepared (ClaimPrepare (demo_voter ''b'') (demo_key\<lparr>k_Incarnation := ''t''\<rparr>) (demo_ballot 5) 1)"
  by code_simp

lemma demo_accepts: "accepted_call (demo_accept (demo_voter ''b'') demo_key 5 (demo_value ''p'' ''c''))"
  by code_simp

theorem voter_state_only_moves_forward_witness:
  "\<exists>r db. ClaimPrepare (demo_voter ''b'') demo_key (demo_ballot 5) 1 = Inr (r, db) \<and>
     voter_ok demo_sha demo_hex db \<and> row_le (row_of (demo_voter ''b'') demo_key) (row_of db demo_key)"
proof -
  obtain r db where p: "ClaimPrepare (demo_voter ''b'') demo_key (demo_ballot 5) 1 = Inr (r, db)"
    using preparedE [OF demo_prepare] by blast
  then have "voter_run demo_sha demo_hex (demo_voter ''b'') db" by (blast intro: step_prepare)
  from voter_state_only_moves_forward [OF this, of demo_key] p show ?thesis by simp
qed

theorem promise_is_binding_witness:
  "\<exists>r db. ClaimPrepare (demo_voter ''b'') demo_key (demo_ballot 5) 1 = Inr (r, db) \<and>
     \<not> accepted_call (demo_accept db demo_key 4 (demo_value ''p'' ''c''))"
proof -
  obtain r db where p: "ClaimPrepare (demo_voter ''b'') demo_key (demo_ballot 5) 1 = Inr (r, db)" "pr_Promised r"
    using preparedE [OF demo_prepare] by blast
  have lt: "demo_ballot 4 < demo_ballot 5" by code_simp
  have "\<not> ar_Accepted r'" if "demo_accept db demo_key 4 (demo_value ''p'' ''c'') = Inr (r', db')" for r' db'
    using promise_is_binding [OF p _ _ _ _ _ lt] that unfolding demo_accept_def
    by (metis demo_voter_ok rtranclp.rtrancl_refl run_fun_id)
  with p(1) show ?thesis by (auto simp: accepted_call_def split: sum.splits)
qed

theorem repeated_accept_is_idempotent_witness:
  "\<exists>r db. demo_accept (demo_voter ''b'') demo_key 5 (demo_value ''p'' ''c'') = Inr (r, db) \<and>
     (\<exists>r'. ClaimAccept demo_sha demo_hex (Some (demo_signer ''b'')) None (\<lambda>db. db) (\<lambda>db. db) db demo_key
        (demo_ballot 5) (demo_value ''p'' ''c'') 1 = Inr (r', db) \<and> ar_Accepted r' \<and> ar_Accept r' = ar_Accept r)"
proof -
  obtain r db where a: "demo_accept (demo_voter ''b'') demo_key 5 (demo_value ''p'' ''c'') = Inr (r, db)" "ar_Accepted r"
    using accepted_callE [OF demo_accepts] by blast
  have "db_hostName (demo_voter ''b'') = ''b''" by (simp add: demo_voter_def)
  with repeated_accept_is_idempotent [OF a(1) [unfolded demo_accept_def] demo_voter_ok, of None "\<lambda>db. db" "\<lambda>db. db"] a
  show ?thesis by auto
qed

theorem reachable_owner_is_not_evicted_witness:
  "\<not> accepted_call (demo_accept (demo_voter ''e'') demo_key 5 (demo_value ''p'' ''c''))"
proof
  assume "accepted_call (demo_accept (demo_voter ''e'') demo_key 5 (demo_value ''p'' ''c''))"
  then obtain r db where a: "demo_accept (demo_voter ''e'') demo_key 5 (demo_value ''p'' ''c'') = Inr (r, db)" "ar_Accepted r"
    using accepted_callE by blast
  obtain d where d: "Digest demo_sha demo_hex (demo_value ''p'' ''c'') = Some d" "d \<noteq> ''''"
    by (simp add: Digest_def demo_value_def demo_hex_def)
  have "st_ValueDigest (row_of (demo_voter ''e'') demo_key) = d \<or>
      v_SourceHost (demo_value ''p'' ''c'') \<noteq> db_hostName (demo_voter ''e'') \<and> legacy_held (demo_voter ''e'') demo_key d"
    by (rule reachable_owner_is_not_evicted [OF a(1) [unfolded demo_accept_def] a(2) run_fun_id _ d(1)])
       (simp_all add: demo_key_def IsWorkload_def ClaimKindVM_def demo_value_def demo_voter_def)
  with d(2) show False
    by (simp add: demo_voter_def demo_value_def demo_key_def row_of_conv claim_row_def zero_state_def)
qed

definition demo_state :: ClaimVoterState where
  "demo_state = (zero_state demo_key)\<lparr>st_Promised := demo_ballot 5, st_Accepted := demo_ballot 5,
     st_Value := Some (demo_value ''p'' ''c''), st_ValueDigest := the (Digest demo_sha demo_hex (demo_value ''p'' ''c'')),
     st_ConfigGeneration := 1\<rparr>"

definition demo_sealed :: voter_db where
  "demo_sealed = (demo_voter ''b'')\<lparr>db_seals := [1], db_claims := [(demo_key, demo_state)]\<rparr>"

lemma demo_sealed_ok: "voter_ok demo_sha demo_hex demo_sealed"
  by (simp add: voter_ok_def demo_sealed_def table_ok_def row_ok_def demo_state_def zero_state_def demo_ballot_def
      demo_voter_def demo_key_def Digest_def demo_value_def)

theorem import_carries_highest_accepted_witness:
  "\<exists>n db. ImportClaimsAndAdopt demo_sha demo_hex (demo_voter ''b'') 2 [''a'', ''c''] [demo_state] = Inr (n, db) \<and>
     AdoptedVoterGeneration db = 2 \<and> demo_ballot 5 \<le> st_Accepted (row_of db demo_key)"
proof -
  have "case ImportClaimsAndAdopt demo_sha demo_hex (demo_voter ''b'') 2 [''a'', ''c''] [demo_state] of
      Inl e \<Rightarrow> False | Inr (n, db) \<Rightarrow> True" by code_simp
  then obtain n db where i: "ImportClaimsAndAdopt demo_sha demo_hex (demo_voter ''b'') 2 [''a'', ''c''] [demo_state] = Inr (n, db)"
    by (auto split: sum.splits)
  have "importable demo_state" "st_Key demo_state = demo_key" "st_Accepted demo_state = demo_ballot 5"
    by (simp_all add: importable_def demo_state_def zero_state_def demo_ballot_def demo_key_def IsWorkload_def ClaimKindVM_def)
  with import_carries_highest_accepted [OF i demo_voter_ok] i show ?thesis
    by (simp add: AdoptedVoterGeneration_def demo_voter_def)
qed

theorem incarnation_promise_seals_legacy_key_witness:
  "\<exists>r db. ClaimPrepare (demo_voter ''b'') (demo_key\<lparr>k_Incarnation := ''t''\<rparr>) (demo_ballot 5) 1 = Inr (r, db) \<and>
     \<not> prepared (ClaimPrepare db demo_key (demo_ballot 6) 1)"
proof -
  let ?k = "demo_key\<lparr>k_Incarnation := ''t''\<rparr>"
  obtain r db where p: "ClaimPrepare (demo_voter ''b'') ?k (demo_ballot 5) 1 = Inr (r, db)" "pr_Promised r"
    using preparedE [OF demo_prepare_inc] by blast
  have k: "IsWorkload ?k" "k_Incarnation ?k \<noteq> ''''" "Legacy ?k = demo_key"
    by (simp_all add: demo_key_def IsWorkload_def ClaimKindVM_def Legacy_def)
  from incarnation_promise_seals_legacy_key [OF p demo_voter_ok k(1,2) rtranclp.rtrancl_refl, of "demo_ballot 6" 1] p k(3)
  show ?thesis by (auto simp: prepared_def split: sum.splits)
qed

theorem frozen_snapshot_is_complete_and_final_witness:
  "\<exists>src. ClaimStatesForImport demo_sealed 1 = Inr src \<and> row_of demo_sealed demo_key \<in> set (im_States src) \<and>
     \<not> prepared (ClaimPrepare demo_sealed demo_key (demo_ballot 6) 1)"
proof -
  have "case ClaimStatesForImport demo_sealed 1 of Inl e \<Rightarrow> False | Inr src \<Rightarrow> im_Frozen src" by code_simp
  then obtain src where i: "ClaimStatesForImport demo_sealed 1 = Inr src" "im_Frozen src" by (auto split: sum.splits)
  have row: "row_of demo_sealed k = (if k = demo_key then demo_state else zero_state k)" for k
    by (auto simp: row_of_conv claim_row_def demo_sealed_def demo_key_def demo_voter_def)
  have "rounds_ok demo_sealed" by (simp add: rounds_ok_def row demo_state_def zero_state_def demo_ballot_def)
  moreover have "IsWorkload demo_key" by (simp add: demo_key_def IsWorkload_def ClaimKindVM_def)
  moreover have "Round (st_Accepted (row_of demo_sealed demo_key)) \<noteq> 0"
    by (simp add: row demo_state_def demo_ballot_def)
  ultimately show ?thesis
    using frozen_snapshot_is_complete_and_final [OF i demo_sealed_ok rtranclp.rtrancl_refl, of demo_key "demo_ballot 6"] i(1)
    by (auto simp: prepared_def split: sum.splits)
qed

end
