(* ===== verification/ClaimProposer.thy ===== *)
theory ClaimProposer
  imports ClaimVoter
begin

text \<open>
  The proposer of the recovery-claim protocol (\<^verbatim>\<open>internal/claims/proposer.go\<close>).

  A \<open>Proposer\<close> is one process: its boot nonce, the last round it used for each key, and the
  digest it has sent in phase 2 at each round. \<open>prepareAll\<close> and \<open>acceptAll\<close> call every voter
  through the transport, which is a parameter: what each voter answers at a ballot, \<open>None\<close> where
  the call failed. The replies are collected in a map, so their order is no part of the
  behaviour; here they are a list in the order of the voters, and \<open>highest_perm\<close> shows that
  the value chosen from them does not depend on it. Time-outs and the pause between two ballots are
  the transport's and the context's: \<open>ctxErr\<close> and \<open>ctxDone\<close> say at which attempt the context is
  found cancelled.
\<close>

section \<open>Data\<close>

type_synonym promises = "(string \<times> PrepareResult) list"

record Spec =
  s_Key :: ClaimKey
  s_Generation :: int
  s_Voters :: "string list"
  s_PrepareQuorum :: int
  s_Electorate :: "(ClaimValue \<Rightarrow> string list \<times> int) option"
  s_Propose :: "(promises \<Rightarrow> ClaimValue option) option"
  s_StartRound :: u64
  s_MaxRounds :: int
  s_ReuseRound :: bool
  s_AdoptLegacy :: "(ClaimValue \<Rightarrow> bool) option"

record Outcome =
  o_Value :: ClaimValue
  o_Digest :: string
  o_Certificate :: ClaimCertificate
  o_Ours :: bool

record refusal =
  rf_voter :: string
  rf_reason :: "Refusal option"
  rf_promised :: Ballot

datatype claim_phase = PhasePrepare | PhaseAccept

datatype ProposeError = NoMajorityError claim_phase int int "refusal list" | ErrNoValue | ProposeFailed
  | DigestFailed | ErrBallotBound | ContextErr

record Proposer =
  pp_Self :: string
  pp_nonce :: bytes
  pp_used :: "ClaimKey \<Rightarrow> u64"
  pp_bound :: "ClaimKey \<Rightarrow> u64 \<Rightarrow> string option"

definition NewProposer :: "string \<Rightarrow> bytes \<Rightarrow> Proposer" where
  "NewProposer self nonce =
     \<lparr>pp_Self = self, pp_nonce = nonce, pp_used = (\<lambda>_. 0), pp_bound = (\<lambda>_ _. None)\<rparr>"

section \<open>Rounds and their values\<close>

definition ballot :: "Proposer \<Rightarrow> ClaimKey \<Rightarrow> u64 \<Rightarrow> bool \<Rightarrow> Ballot \<times> Proposer" where
  "ballot p key want reuse =
     (let last = pp_used p key;
          r = (if reuse \<and> want > 0 \<and> want = last then want
               else if want \<le> last then last + 1 else want) in
      (Ballot r (pp_Self p) (pp_nonce p), p\<lparr>pp_used := (pp_used p)(key := r)\<rparr>))"

definition bind :: "Proposer \<Rightarrow> ClaimKey \<Rightarrow> u64 \<Rightarrow> string \<Rightarrow> bool \<times> Proposer" where
  "bind p key round digest =
     (case pp_bound p key round of
        Some d \<Rightarrow> if d \<noteq> digest then (False, p)
                  else (True, p\<lparr>pp_bound := (pp_bound p)(key := (pp_bound p key)(round \<mapsto> digest))\<rparr>)
      | None \<Rightarrow> (True, p\<lparr>pp_bound := (pp_bound p)(key := (pp_bound p key)(round \<mapsto> digest))\<rparr>))"

section \<open>Collecting the answers\<close>

definition dedup :: "string list \<Rightarrow> string list" where
  "dedup xs = sort (remdups (filter (\<lambda>s. s \<noteq> '''') xs))"

definition prepareAll :: "(string \<Rightarrow> PrepareResult option) \<Rightarrow> Spec \<Rightarrow> promises \<times> refusal list" where
  "prepareAll call spec =
     (let vs = dedup (s_Voters spec) in
      (concat (map (\<lambda>v. case call v of Some r \<Rightarrow> if pr_Promised r then [(v, r)] else [] | None \<Rightarrow> []) vs),
       concat (map (\<lambda>v. case call v of
           None \<Rightarrow> [\<lparr>rf_voter = v, rf_reason = Some ReasonUnreachable, rf_promised = zero_ballot\<rparr>]
         | Some r \<Rightarrow> if pr_Promised r then []
             else [\<lparr>rf_voter = v, rf_reason = pr_Refusal r, rf_promised = pr_PromisedBallot r\<rparr>]) vs)))"

text \<open>An answer counts as an accept only for the voter called and the key proposed.\<close>

definition counts :: "ClaimKey \<Rightarrow> string \<Rightarrow> AcceptResult \<Rightarrow> ClaimAccept option" where
  "counts key voter r =
     (if ar_Accepted r then
        (case ar_Accept r of Some a \<Rightarrow> if a_Voter a = voter \<and> a_Key a = key then Some a else None | None \<Rightarrow> None)
      else None)"

definition acceptAll :: "(string \<Rightarrow> AcceptResult option) \<Rightarrow> Spec \<Rightarrow> string list \<Rightarrow>
    (string \<times> ClaimAccept) list \<times> refusal list" where
  "acceptAll call spec targets =
     (let vs = dedup targets in
      (concat (map (\<lambda>v. case call v of None \<Rightarrow> []
         | Some r \<Rightarrow> (case counts (s_Key spec) v r of Some a \<Rightarrow> [(v, a)] | None \<Rightarrow> [])) vs),
       concat (map (\<lambda>v. case call v of
           None \<Rightarrow> [\<lparr>rf_voter = v, rf_reason = Some ReasonUnreachable, rf_promised = zero_ballot\<rparr>]
         | Some r \<Rightarrow> if counts (s_Key spec) v r \<noteq> None then []
             else [\<lparr>rf_voter = v, rf_reason = ar_Refusal r, rf_promised = ar_PromisedBallot r\<rparr>]) vs)))"

definition noteStale :: "refusal list \<Rightarrow> Ballot \<Rightarrow> Ballot" where
  "noteStale rs stale = fold (\<lambda>r s. if rf_reason r = Some RefusalBallotStale \<and> CompareBallots (rf_promised r) s > 0
     then rf_promised r else s) rs stale"

definition publicRefusals :: "refusal list \<Rightarrow> refusal list" where
  "publicRefusals rs = sort_key rf_voter rs"

section \<open>One ballot\<close>

text \<open>The accepted value with the highest ballot among reported states.\<close>

definition highest_step :: "ClaimVoterState option \<Rightarrow> Ballot \<times> ClaimValue option \<Rightarrow> Ballot \<times> ClaimValue option" where
  "highest_step s acc = (case s of None \<Rightarrow> acc
     | Some st \<Rightarrow> if st_Value st \<noteq> None \<and> \<not> Ballot_IsZero (st_Accepted st) \<and> CompareBallots (st_Accepted st) (fst acc) > 0
         then (st_Accepted st, st_Value st) else acc)"

definition highest :: "ClaimVoterState option list \<Rightarrow> Ballot \<times> ClaimValue option" where
  "highest ss = fold highest_step ss (zero_ballot, None)"

text \<open>The value of a ballot and whether this call proposed it itself.\<close>

definition choose_value :: "Spec \<Rightarrow> promises \<Rightarrow> ProposeError + ClaimValue \<times> bool" where
  "choose_value spec ps =
     (let value = snd (highest (map (pr_State \<circ> snd) ps));
          legacy = snd (highest (map (pr_Legacy \<circ> snd) ps));
          value' = (case value of Some v \<Rightarrow> Some v
            | None \<Rightarrow> (case (s_AdoptLegacy spec, legacy) of
                 (Some adopt, Some l) \<Rightarrow> if k_Incarnation (s_Key spec) \<noteq> '''' \<and> adopt l then Some l else None
               | _ \<Rightarrow> None)) in
      case value' of Some v \<Rightarrow> Inr (v, False)
      | None \<Rightarrow> (case s_Propose spec of None \<Rightarrow> Inl ErrNoValue
          | Some f \<Rightarrow> (case f ps of None \<Rightarrow> Inl ProposeFailed | Some v \<Rightarrow> Inr (v, True))))"

definition build_certificate :: "Spec \<Rightarrow> Ballot \<Rightarrow> string \<Rightarrow> ClaimValue \<Rightarrow> (string \<times> ClaimAccept) list \<Rightarrow>
    ClaimCertificate" where
  "build_certificate spec b digest v accepts = \<lparr>ct_Key = s_Key spec, ct_ConfigGeneration = s_Generation spec,
     ct_Ballot = b, ct_ValueDigest = digest, ct_SourceHost = v_SourceHost v,
     ct_Accepts = sort_key a_Voter (map snd accepts)\<rparr>"

text \<open>
  \<open>try\<close>: the result, the highest promise a voter refused with, the process afterwards, and the
  digests this call proposed itself.
\<close>

definition try_ballot :: "(bytes \<Rightarrow> bytes) \<Rightarrow> (bytes \<Rightarrow> string) \<Rightarrow> Proposer \<Rightarrow> Spec \<Rightarrow> Ballot \<Rightarrow> string list \<Rightarrow>
    (string \<Rightarrow> PrepareResult option) \<Rightarrow> (ClaimValue \<Rightarrow> string \<Rightarrow> AcceptResult option) \<Rightarrow>
    (ProposeError + Outcome) \<times> Ballot \<times> Proposer \<times> string list" where
  "try_ballot sha hex p spec b own prep acc =
     (case prepareAll prep spec of (ps, refusals) \<Rightarrow>
      let stale = noteStale refusals zero_ballot in
      if int (length ps) < s_PrepareQuorum spec then
        (Inl (NoMajorityError PhasePrepare (int (length ps)) (s_PrepareQuorum spec) (publicRefusals refusals)),
         stale, p, own)
      else case choose_value spec ps of
        Inl e \<Rightarrow> (Inl e, zero_ballot, p, own)
      | Inr (v, built) \<Rightarrow>
        (case Digest sha hex v of
           None \<Rightarrow> (Inl DigestFailed, zero_ballot, p, own)
         | Some digest \<Rightarrow>
             let own' = (if built then digest # own else own); ours = built \<or> digest \<in> set own in
             (case bind p (s_Key spec) (Round b) digest of
                (False, p') \<Rightarrow> (Inl ErrBallotBound, b, p', own')
              | (True, p') \<Rightarrow>
                  (case (case s_Electorate spec of None \<Rightarrow> (s_Voters spec, s_PrepareQuorum spec) | Some f \<Rightarrow> f v) of
                     (targets, quorum) \<Rightarrow>
                     (case acceptAll (acc v) spec targets of (accepts, arefusals) \<Rightarrow>
                        let stale' = noteStale arefusals stale in
                        if int (length accepts) < quorum then
                          (Inl (NoMajorityError PhaseAccept (int (length accepts)) quorum (publicRefusals arefusals)),
                           stale', p', own')
                        else
                          (Inr \<lparr>o_Value = v, o_Digest = digest,
                             o_Certificate = build_certificate spec b digest v accepts, o_Ours = ours\<rparr>,
                           zero_ballot, p', own'))))))"

section \<open>Decide\<close>

record Context =
  cx_Err :: "nat \<Rightarrow> bool"
  cx_Done :: "nat \<Rightarrow> bool"

record Transport =
  t_Prepare :: "nat \<Rightarrow> Ballot \<Rightarrow> string \<Rightarrow> PrepareResult option"
  t_Accept :: "nat \<Rightarrow> Ballot \<Rightarrow> ClaimValue \<Rightarrow> string \<Rightarrow> AcceptResult option"

text \<open>The attempts still to make are the recursion: \<open>attempt\<close> counts up from 0 to \<open>maxRounds\<close>.\<close>

primrec decide_loop :: "(bytes \<Rightarrow> bytes) \<Rightarrow> (bytes \<Rightarrow> string) \<Rightarrow> Context \<Rightarrow> Transport \<Rightarrow> Spec \<Rightarrow> nat \<Rightarrow> nat \<Rightarrow>
    u64 \<Rightarrow> ProposeError option \<Rightarrow> string list \<Rightarrow> Proposer \<Rightarrow> (ProposeError option + Outcome) \<times> Proposer" where
  "decide_loop sha hex ctx tr spec maxRounds 0 round lastErr own p = (Inl lastErr, p)"
| "decide_loop sha hex ctx tr spec maxRounds (Suc left) round lastErr own p =
     (let attempt = maxRounds - Suc left in
      if cx_Err ctx attempt then
        (Inl (case lastErr of Some e \<Rightarrow> Some e | None \<Rightarrow> Some ContextErr), p)
      else
        case ballot p (s_Key spec) round (s_ReuseRound spec \<and> attempt = 0) of (b, p1) \<Rightarrow>
        (case try_ballot sha hex p1 spec b own (t_Prepare tr attempt b) (t_Accept tr attempt b) of
           (Inr out, stale, p2, own') \<Rightarrow> (Inr out, p2)
         | (Inl e, stale, p2, own') \<Rightarrow>
             if Ballot_IsZero stale then (Inl (Some e), p2)
             else if cx_Done ctx attempt then (Inl (Some e), p2)
             else decide_loop sha hex ctx tr spec maxRounds left (Round stale + 1) (Some e) own' p2))"

definition Decide :: "(bytes \<Rightarrow> bytes) \<Rightarrow> (bytes \<Rightarrow> string) \<Rightarrow> Context \<Rightarrow> Transport \<Rightarrow> Spec \<Rightarrow> Proposer \<Rightarrow>
    (ProposeError option + Outcome) \<times> Proposer" where
  "Decide sha hex ctx tr spec p =
     (let maxRounds = (if s_MaxRounds spec \<le> 0 then 8 else nat (s_MaxRounds spec));
          round = (if s_StartRound spec = 0 then 1 else s_StartRound spec) in
      decide_loop sha hex ctx tr spec maxRounds maxRounds round None [] p)"

section \<open>The order of the promises does not matter\<close>

text \<open>The states \<open>highest\<close> looks at, and what it needs of them: a ballot has one value.\<close>

definition reported :: "ClaimVoterState option list \<Rightarrow> (Ballot \<times> ClaimValue) set" where
  "reported ss = {(b, v). \<exists>s. Some s \<in> set ss \<and> st_Accepted s = b \<and> st_Value s = Some v \<and> zero_ballot < b}"

lemma reported_Nil [simp]: "reported [] = {}"
  by (simp add: reported_def)

lemma reported_Cons:
  "reported (s # ss) = (case s of Some t \<Rightarrow> (case st_Value t of Some v \<Rightarrow>
      if zero_ballot < st_Accepted t then {(st_Accepted t, v)} else {} | None \<Rightarrow> {}) | None \<Rightarrow> {}) \<union> reported ss"
  by (auto simp: reported_def split: option.splits)

lemma reported_set: "set ss = set ts \<Longrightarrow> reported ss = reported ts"
  by (simp add: reported_def)

text \<open>\<open>highest\<close> starting from an accumulator: either the accumulator, or a reported value above it,
  and nothing reported is above the result.\<close>

lemma highest_fold:
  assumes "zero_ballot \<le> fst acc"
  shows "let r = fold highest_step ss acc in
    (r = acc \<or> (\<exists>v. snd r = Some v \<and> (fst r, v) \<in> reported ss \<and> fst acc < fst r)) \<and>
    (\<forall>(b, v) \<in> reported ss. b \<le> fst r) \<and> fst acc \<le> fst r"
  using assms
proof (induction ss arbitrary: acc)
  case (Cons s ss)
  let ?acc = "highest_step s acc"
  have step: "?acc = acc \<and> (\<forall>(b, v) \<in> reported [s]. b \<le> fst acc) \<or>
      (\<exists>v. snd ?acc = Some v \<and> (fst ?acc, v) \<in> reported [s] \<and> fst acc < fst ?acc \<and> (\<forall>(b, v) \<in> reported [s]. b \<le> fst ?acc))"
    using Cons.prems
    by (auto simp: highest_step_def reported_Cons ballot_order not_less split: option.splits)
  then have le: "fst acc \<le> fst ?acc" by auto
  then have "zero_ballot \<le> fst ?acc" using Cons.prems by (rule order.trans [rotated])
  note IH = Cons.IH [OF this]
  have split: "reported (s # ss) = reported [s] \<union> reported ss" by (simp add: reported_Cons)
  let ?r = "fold highest_step ss ?acc"
  have r: "?r = ?acc \<or> (\<exists>v. snd ?r = Some v \<and> (fst ?r, v) \<in> reported ss \<and> fst ?acc < fst ?r)"
    and up: "\<forall>(b, v) \<in> reported ss. b \<le> fst ?r" and ge: "fst ?acc \<le> fst ?r"
    using IH by (simp_all add: Let_def)
  have "?r = acc \<or> (\<exists>v. snd ?r = Some v \<and> (fst ?r, v) \<in> reported (s # ss) \<and> fst acc < fst ?r)"
  proof (cases "?r = ?acc")
    case True
    with step show ?thesis unfolding split by auto
  next
    case False
    with r le show ?thesis unfolding split by (auto intro: le_less_trans)
  qed
  moreover have "\<forall>(b, v) \<in> reported (s # ss). b \<le> fst ?r"
  proof -
    have "\<forall>(b, v) \<in> reported [s]. b \<le> fst ?acc" using step by auto
    with up ge show ?thesis unfolding split by (auto intro: order.trans)
  qed
  ultimately show ?case using order.trans [OF le ge] by (simp add: Let_def)
qed simp

text \<open>What \<open>highest\<close> returns: nothing where nothing is reported, else a reported value of the highest ballot.\<close>

lemma highest_spec:
  "snd (highest ss) = None \<longleftrightarrow> reported ss = {}"
  "snd (highest ss) = Some v \<Longrightarrow> (fst (highest ss), v) \<in> reported ss \<and> (\<forall>(b, w) \<in> reported ss. b \<le> fst (highest ss))"
proof -
  let ?r = "highest ss"
  have r: "?r = (zero_ballot, None) \<or> (\<exists>v. snd ?r = Some v \<and> (fst ?r, v) \<in> reported ss)"
    and up: "\<forall>(b, v) \<in> reported ss. b \<le> fst ?r"
    using highest_fold [of "(zero_ballot, None)" ss] by (auto simp: highest_def Let_def)
  show "snd ?r = None \<longleftrightarrow> reported ss = {}"
  proof
    assume "snd ?r = None"
    then have "fst ?r = zero_ballot" using r by auto
    then have le: "(b, v) \<in> reported ss \<Longrightarrow> b \<le> zero_ballot" for b v using up by auto
    have gt: "(b, v) \<in> reported ss \<Longrightarrow> zero_ballot < b" for b v by (auto simp: reported_def)
    have "(b, v) \<notin> reported ss" for b v using le [of b v] gt [of b v] by auto
    then show "reported ss = {}" by auto
  qed (use r in auto)
  show "(fst ?r, v) \<in> reported ss \<and> (\<forall>(b, w) \<in> reported ss. b \<le> fst ?r)" if "snd ?r = Some v"
    using r up that by auto
qed

definition one_value :: "(Ballot \<times> ClaimValue) set \<Rightarrow> bool" where
  "one_value R \<longleftrightarrow> (\<forall>(b, v) \<in> R. \<forall>(b', v') \<in> R. b = b' \<longrightarrow> v = v')"

lemma highest_perm:
  assumes "set ss = set ts" "one_value (reported ss)"
  shows "snd (highest ss) = snd (highest ts)"
proof (cases "reported ss = {}")
  case True
  then have "snd (highest ss) = None" "snd (highest ts) = None"
    using reported_set [OF assms(1)] by (simp_all add: highest_spec(1))
  then show ?thesis by simp
next
  case False
  then obtain v w where "snd (highest ss) = Some v" "snd (highest ts) = Some w"
    using reported_set [OF assms(1)] highest_spec(1) by (metis option.exhaust)
  moreover from highest_spec(2) [OF this(1)] highest_spec(2) [OF this(2)]
  have "fst (highest ss) = fst (highest ts)" "(fst (highest ss), v) \<in> reported ss" "(fst (highest ts), w) \<in> reported ss"
    using reported_set [OF assms(1)] by (auto intro!: order.antisym)
  ultimately show ?thesis using assms(2) unfolding one_value_def by auto
qed

section \<open>Rounds\<close>

lemma ballot_fields:
  "ballot p key want reuse = (b, p') \<Longrightarrow>
   Coordinator b = pp_Self p \<and> Nonce b = pp_nonce p \<and> pp_Self p' = pp_Self p \<and> pp_nonce p' = pp_nonce p \<and>
   pp_bound p' = pp_bound p \<and> pp_used p' = (pp_used p)(key := Round b)"
  by (auto simp: ballot_def Let_def)

lemma bind_fields:
  "bind p key r d = (ok, p') \<Longrightarrow>
   pp_Self p' = pp_Self p \<and> pp_nonce p' = pp_nonce p \<and> pp_used p' = pp_used p \<and>
   (ok \<longleftrightarrow> pp_bound p key r = None \<or> pp_bound p key r = Some d) \<and>
   pp_bound p' = (if ok then (pp_bound p)(key := (pp_bound p key)(r \<mapsto> d)) else pp_bound p)"
  by (auto simp: bind_def split: option.splits if_splits)

text \<open>What a process does to its rounds: it allocates one, or binds one.\<close>

inductive proposer_step :: "Proposer \<Rightarrow> Proposer \<Rightarrow> bool" where
  step_ballot: "ballot p key want reuse = (b, p') \<Longrightarrow> proposer_step p p'"
| step_bind: "bind p key r d = (ok, p') \<Longrightarrow> proposer_step p p'"

abbreviation proposer_run :: "Proposer \<Rightarrow> Proposer \<Rightarrow> bool" where
  "proposer_run \<equiv> proposer_step\<^sup>*\<^sup>*"

lemma proposer_step_frame:
  "proposer_step p p' \<Longrightarrow> pp_Self p' = pp_Self p \<and> pp_nonce p' = pp_nonce p \<and>
   (pp_bound p k r = Some d \<longrightarrow> pp_bound p' k r = Some d)"
  by (induction rule: proposer_step.induct) (auto dest!: ballot_fields bind_fields)

lemma proposer_run_frame:
  "proposer_run p p' \<Longrightarrow> pp_Self p' = pp_Self p \<and> pp_nonce p' = pp_nonce p \<and>
   (pp_bound p k r = Some d \<longrightarrow> pp_bound p' k r = Some d)"
  by (induction rule: rtranclp_induct) (auto dest: proposer_step_frame [of _ _ k r d])

section \<open>The answers of a ballot\<close>

lemma set_dedup [simp]: "set (dedup xs) = set xs - {''''}"
  by (auto simp: dedup_def)

lemma distinct_dedup [simp]: "distinct (dedup xs)"
  by (simp add: dedup_def)

lemma distinct_collect:
  assumes "distinct vs"
  shows "distinct (map fst (concat (map (\<lambda>v. case f v of Some a \<Rightarrow> [(v, a)] | None \<Rightarrow> []) vs)))"
  using assms by (induction vs) (auto split: option.splits)

lemma prepareAll_promises:
  assumes "prepareAll call spec = (ps, rs)"
  shows "distinct (map fst ps)" "\<forall>(v, r) \<in> set ps. v \<in> set (s_Voters spec) \<and> call v = Some r \<and> pr_Promised r"
proof -
  let ?f = "\<lambda>v. case call v of Some r \<Rightarrow> if pr_Promised r then Some r else None | None \<Rightarrow> None"
  have ps: "ps = concat (map (\<lambda>v. case ?f v of Some a \<Rightarrow> [(v, a)] | None \<Rightarrow> []) (dedup (s_Voters spec)))"
    using assms by (auto simp: prepareAll_def Let_def intro!: arg_cong [where f = concat] split: option.splits)
  show "distinct (map fst ps)" unfolding ps by (rule distinct_collect) simp
  show "\<forall>(v, r) \<in> set ps. v \<in> set (s_Voters spec) \<and> call v = Some r \<and> pr_Promised r"
    unfolding ps by (auto split: option.splits if_splits)
qed

lemma acceptAll_accepts:
  assumes "acceptAll call spec targets = (as, rs)"
  shows "distinct (map fst as)"
    "\<forall>(v, a) \<in> set as. v \<in> set targets \<and> a_Voter a = v \<and> a_Key a = s_Key spec \<and>
       (\<exists>r. call v = Some r \<and> ar_Accepted r \<and> ar_Accept r = Some a)"
proof -
  let ?f = "\<lambda>v. case call v of Some r \<Rightarrow> counts (s_Key spec) v r | None \<Rightarrow> None"
  have as: "as = concat (map (\<lambda>v. case ?f v of Some a \<Rightarrow> [(v, a)] | None \<Rightarrow> []) (dedup targets))"
    using assms by (auto simp: acceptAll_def Let_def intro!: arg_cong [where f = concat] split: option.splits)
  show "distinct (map fst as)" unfolding as by (rule distinct_collect) simp
  show "\<forall>(v, a) \<in> set as. v \<in> set targets \<and> a_Voter a = v \<and> a_Key a = s_Key spec \<and>
       (\<exists>r. call v = Some r \<and> ar_Accepted r \<and> ar_Accept r = Some a)"
    unfolding as by (auto simp: counts_def split: option.splits if_splits)
qed

definition phase2 :: "Spec \<Rightarrow> ClaimValue \<Rightarrow> string list \<times> int" where
  "phase2 spec v = (case s_Electorate spec of None \<Rightarrow> (s_Voters spec, s_PrepareQuorum spec) | Some f \<Rightarrow> f v)"

text \<open>A ballot that decides: what it collected, chose, bound and certified.\<close>

lemma try_ballot_decided:
  assumes "try_ballot sha hex p spec b own prep acc = (Inr out, stale, p', own')"
  obtains ps rs ar accepts arefusals where
    "prepareAll prep spec = (ps, rs)" "s_PrepareQuorum spec \<le> int (length ps)"
    "choose_value spec ps = Inr (o_Value out, ar)" "Digest sha hex (o_Value out) = Some (o_Digest out)"
    "bind p (s_Key spec) (Round b) (o_Digest out) = (True, p')"
    "acceptAll (acc (o_Value out)) spec (fst (phase2 spec (o_Value out))) = (accepts, arefusals)"
    "snd (phase2 spec (o_Value out)) \<le> int (length accepts)"
    "o_Certificate out = build_certificate spec b (o_Digest out) (o_Value out) accepts"
    "o_Ours out \<longleftrightarrow> ar \<or> o_Digest out \<in> set own"
proof -
  from assms show ?thesis
    unfolding try_ballot_def phase2_def [symmetric]
    by (auto simp: Let_def not_less split: prod.splits if_splits sum.splits option.splits bool.splits intro!: that)
qed

lemma decide_loop_decided:
  assumes "decide_loop sha hex ctx tr spec mr left round lastErr own p = (Inr out, p')" "left \<le> mr"
  obtains attempt b pa pb own' stale own'' round' reuse where
    "attempt < mr" "proposer_run p pa" "ballot pa (s_Key spec) round' reuse = (b, pb)"
    "try_ballot sha hex pb spec b own' (t_Prepare tr attempt b) (t_Accept tr attempt b) = (Inr out, stale, p', own'')"
  using assms
proof (induction left arbitrary: round lastErr own p thesis)
  case (Suc left)
  let ?at = "mr - Suc left"
  obtain b p1 where b: "ballot p (s_Key spec) round (s_ReuseRound spec \<and> ?at = 0) = (b, p1)"
    by (cases "ballot p (s_Key spec) round (s_ReuseRound spec \<and> ?at = 0)")
  obtain res stale p2 own' where t: "try_ballot sha hex p1 spec b own (t_Prepare tr ?at b) (t_Accept tr ?at b) = (res, stale, p2, own')"
    by (metis prod_cases4)
  show thesis
  proof (cases res)
    case (Inr out')
    with Suc.prems(2) b t have "out' = out" "p2 = p'" by (auto simp: Let_def split: if_splits)
    with Suc.prems(1) [of ?at p round _ b p1] Suc.prems(3) b t Inr show thesis by auto
  next
    case (Inl e)
    with Suc.prems(2) b t have rec: "decide_loop sha hex ctx tr spec mr left (Round stale + 1) (Some e) own' p2 = (Inr out, p')"
      by (auto simp: Let_def split: if_splits)
    have run: "proposer_run p p2"
    proof -
      have "p2 = p1 \<or> (\<exists>key r d ok. bind p1 key r d = (ok, p2))"
        using t by (auto simp: try_ballot_def Let_def split: prod.splits if_splits sum.splits option.splits bool.splits)
      then have "proposer_run p1 p2" by (auto intro: step_bind)
      with step_ballot [OF b] show ?thesis by (rule converse_rtranclp_into_rtranclp)
    qed
    have "left \<le> mr" using Suc.prems(3) by simp
    from Suc.IH [OF _ rec this] Suc.prems(1) run show thesis by (metis rtranclp_trans)
  qed
qed simp

text \<open>The voter names a verified certificate counts are the voters whose accepts it holds.\<close>

lemma build_certificate_fields [simp]:
  "ct_Key (build_certificate spec b d v as) = s_Key spec"
  "ct_ConfigGeneration (build_certificate spec b d v as) = s_Generation spec"
  "ct_Ballot (build_certificate spec b d v as) = b"
  "ct_ValueDigest (build_certificate spec b d v as) = d"
  "set (ct_Accepts (build_certificate spec b d v as)) = snd ` set as"
  by (simp_all add: build_certificate_def)

section \<open>Properties\<close>

text \<open>One ballot, one value: once a process has sent a value in phase 2 at a round of a key, no
  later phase 2 of that process at the same round and key carries another value.\<close>

theorem one_ballot_one_value:
  assumes "bind p key r d = (True, p1)" "proposer_run p1 p2" "bind p2 key r d' = (True, p3)"
  shows "d' = d"
proof -
  have "pp_bound p1 key r = Some d" using bind_fields [OF assms(1)] by simp
  then have "pp_bound p2 key r = Some d" using proposer_run_frame [OF assms(2)] by blast
  then show ?thesis using bind_fields [OF assms(3)] by auto
qed

text \<open>A ballot a process allocates is at least the round asked for and, unless it reuses exactly
  the last round of the key, above every round it has used for that key, until rounds overflow.\<close>

theorem ballot_is_fresh:
  assumes "ballot p key want reuse = (b, p')" "pp_used p key < - 1"
  shows "want \<le> Round b \<and> Coordinator b = pp_Self p \<and> Nonce b = pp_nonce p \<and> pp_used p' key = Round b \<and>
    (pp_used p key < Round b \<or> reuse \<and> want = pp_used p key \<and> Round b = want)"
proof -
  have "pp_used p key < pp_used p key + 1" using assms(2) by unat_arith
  moreover have "reuse \<and> want = pp_used p key \<and> Round b = want \<or> pp_used p key < want \<and> Round b = want \<or>
      want \<le> pp_used p key \<and> Round b = pp_used p key + 1"
    using assms(1) by (auto simp: ballot_def Let_def not_le split: if_splits)
  ultimately show ?thesis using ballot_fields [OF assms(1)] by auto
qed

text \<open>What \<open>Decide\<close> returns is certified: the certificate is for the spec's key and generation and
  the value's digest, at a ballot of this process, and holds accepts of at least the quorum of
  distinct voters of the electorate, each as that voter answered it.\<close>

theorem Decide_certifies:
  assumes "Decide sha hex ctx tr spec p = (Inr out, p')"
  shows "Digest sha hex (o_Value out) = Some (o_Digest out) \<and>
    ct_Key (o_Certificate out) = s_Key spec \<and> ct_ConfigGeneration (o_Certificate out) = s_Generation spec \<and>
    ct_ValueDigest (o_Certificate out) = o_Digest out \<and> ct_SourceHost (o_Certificate out) = v_SourceHost (o_Value out) \<and>
    Coordinator (ct_Ballot (o_Certificate out)) = pp_Self p \<and> Nonce (ct_Ballot (o_Certificate out)) = pp_nonce p \<and>
    distinct (map a_Voter (ct_Accepts (o_Certificate out))) \<and>
    snd (phase2 spec (o_Value out)) \<le> int (length (ct_Accepts (o_Certificate out))) \<and>
    (\<exists>attempt. \<forall>a \<in> set (ct_Accepts (o_Certificate out)). a_Key a = s_Key spec \<and>
       a_Voter a \<in> set (fst (phase2 spec (o_Value out))) \<and>
       (\<exists>r. t_Accept tr attempt (ct_Ballot (o_Certificate out)) (o_Value out) (a_Voter a) = Some r \<and>
          ar_Accepted r \<and> ar_Accept r = Some a))"
proof -
  obtain mr round where "decide_loop sha hex ctx tr spec mr mr round None [] p = (Inr out, p')"
    using assms by (auto simp: Decide_def Let_def)
  from this order.refl obtain attempt b pa pb own own' stale round' reuse where run: "proposer_run p pa"
    and bal: "ballot pa (s_Key spec) round' reuse = (b, pb)"
    and t: "try_ballot sha hex pb spec b own (t_Prepare tr attempt b) (t_Accept tr attempt b) = (Inr out, stale, p', own')"
    by (rule decide_loop_decided)
  from t obtain ps rs ar as ars where d: "Digest sha hex (o_Value out) = Some (o_Digest out)"
    and a: "acceptAll (t_Accept tr attempt b (o_Value out)) spec (fst (phase2 spec (o_Value out))) = (as, ars)"
    and q: "snd (phase2 spec (o_Value out)) \<le> int (length as)"
    and c: "o_Certificate out = build_certificate spec b (o_Digest out) (o_Value out) as"
    by (rule try_ballot_decided)
  note acc = acceptAll_accepts [OF a]
  have av: "map a_Voter (map snd as) = map fst as" using acc(2) by auto
  have "distinct (map a_Voter (map snd as))" using acc(1) by (simp only: av)
  then have "distinct (map a_Voter (sort_key a_Voter (map snd as)))"
    unfolding distinct_map [of a_Voter] by simp
  moreover have "Coordinator b = pp_Self p" "Nonce b = pp_nonce p"
    using ballot_fields [OF bal] proposer_run_frame [OF run] by simp_all
  ultimately show ?thesis
    using d q acc(2) unfolding c by (auto simp: build_certificate_def intro!: exI [of _ attempt])
qed

text \<open>A value that may have been chosen is proposed again: where a promise reports an accepted
  value, the value of the ballot is a reported one of the highest accepted ballot, and the proposer's
  own value is used only where no promise reports any.\<close>

theorem choose_value_adopts_highest:
  assumes "choose_value spec ps = Inr (v, built)"
  shows "if reported (map (pr_State \<circ> snd) ps) = {}
    then built \<longrightarrow> (\<exists>f. s_Propose spec = Some f \<and> f ps = Some v)
    else \<not> built \<and> (\<exists>b. (b, v) \<in> reported (map (pr_State \<circ> snd) ps) \<and>
      (\<forall>(b', v') \<in> reported (map (pr_State \<circ> snd) ps). b' \<le> b))"
proof (cases "snd (highest (map (pr_State \<circ> snd) ps))")
  case None
  then have "reported (map (pr_State \<circ> snd) ps) = {}" by (simp add: highest_spec(1))
  with assms None show ?thesis
    by (auto simp: choose_value_def Let_def split: option.splits if_splits)
next
  case (Some w)
  then have "v = w" "\<not> built" using assms by (auto simp: choose_value_def)
  moreover have "reported (map (pr_State \<circ> snd) ps) \<noteq> {}" using Some highest_spec(1) by (metis option.simps(3))
  ultimately show ?thesis using highest_spec(2) [OF Some] by auto
qed

lemma length_collect:
  assumes "distinct vs" "Q \<subseteq> set vs" "\<forall>v \<in> Q. f v \<noteq> None"
  shows "card Q \<le> length (concat (map (\<lambda>v. case f v of Some a \<Rightarrow> [(v, a)] | None \<Rightarrow> []) vs))"
proof -
  have "length (concat (map (\<lambda>v. case f v of Some a \<Rightarrow> [(v, a)] | None \<Rightarrow> []) vs)) = length (filter (\<lambda>v. f v \<noteq> None) vs)"
    by (induction vs) (auto split: option.splits)
  moreover have "Q \<subseteq> set (filter (\<lambda>v. f v \<noteq> None) vs)" using assms(2,3) by auto
  then have "card Q \<le> card (set (filter (\<lambda>v. f v \<noteq> None) vs))" by (intro card_mono) auto
  ultimately show ?thesis using distinct_card [of "filter (\<lambda>v. f v \<noteq> None) vs"] assms(1) by simp
qed

lemma prepareAll_count:
  assumes "Q \<subseteq> set (s_Voters spec) - {''''}" "\<forall>v \<in> Q. \<exists>r. call v = Some r \<and> pr_Promised r"
  shows "card Q \<le> length (fst (prepareAll call spec))"
proof -
  let ?f = "\<lambda>v. case call v of Some r \<Rightarrow> if pr_Promised r then Some r else None | None \<Rightarrow> None"
  have ps: "fst (prepareAll call spec) =
      concat (map (\<lambda>v. case ?f v of Some a \<Rightarrow> [(v, a)] | None \<Rightarrow> []) (dedup (s_Voters spec)))"
    by (auto simp: prepareAll_def Let_def intro!: arg_cong [where f = concat] split: option.splits)
  show ?thesis unfolding ps by (rule length_collect) (use assms in \<open>force split: option.splits\<close>)+
qed

lemma acceptAll_count:
  assumes "Q \<subseteq> set targets - {''''}" "\<forall>v \<in> Q. \<exists>r. call v = Some r \<and> counts (s_Key spec) v r \<noteq> None"
  shows "card Q \<le> length (fst (acceptAll call spec targets))"
proof -
  let ?f = "\<lambda>v. case call v of Some r \<Rightarrow> counts (s_Key spec) v r | None \<Rightarrow> None"
  have as: "fst (acceptAll call spec targets) =
      concat (map (\<lambda>v. case ?f v of Some a \<Rightarrow> [(v, a)] | None \<Rightarrow> []) (dedup targets))"
    by (auto simp: acceptAll_def Let_def intro!: arg_cong [where f = concat] split: option.splits)
  show ?thesis unfolding as by (rule length_collect) (use assms in \<open>force split: option.splits\<close>)+
qed


section \<open>Witnesses\<close>

definition demo_spec :: Spec where
  "demo_spec = \<lparr>s_Key = demo_key, s_Generation = 1, s_Voters = [''a'', ''b'', ''c''], s_PrepareQuorum = 2,
     s_Electorate = None, s_Propose = Some (\<lambda>_. Some (demo_value ''p'' ''c'')), s_StartRound = 7, s_MaxRounds = 0,
     s_ReuseRound = True, s_AdoptLegacy = None\<rparr>"

text \<open>The voters \<open>a\<close> and \<open>b\<close> answer as their databases say; \<open>c\<close> does not answer.\<close>

definition demo_transport :: Transport where
  "demo_transport = \<lparr>t_Prepare = (\<lambda>_ b v. if v = ''c'' then None else
       case ClaimPrepare (demo_voter v) demo_key b 1 of Inr (r, db) \<Rightarrow> Some r | Inl e \<Rightarrow> None),
     t_Accept = (\<lambda>_ b val v. if v = ''c'' then None else
       case ClaimAccept demo_sha demo_hex (Some (demo_signer v)) (Some (\<lambda>_. False)) (\<lambda>db. db) (\<lambda>db. db)
         (demo_voter v) demo_key b val 1 of Inr (r, db) \<Rightarrow> Some r | Inl e \<Rightarrow> None)\<rparr>"

definition demo_context :: Context where
  "demo_context = \<lparr>cx_Err = (\<lambda>_. False), cx_Done = (\<lambda>_. False)\<rparr>"

definition decided :: "(ProposeError option + Outcome) \<times> Proposer \<Rightarrow> bool" where
  "decided x = (case x of (Inr out, p) \<Rightarrow> True | _ \<Rightarrow> False)"

lemma demo_decided: "decided (Decide demo_sha demo_hex demo_context demo_transport demo_spec (NewProposer ''a'' ''n''))"
  by code_simp

theorem one_ballot_one_value_witness:
  "fst (bind (snd (bind (NewProposer ''a'' ''n'') demo_key 5 ''x'')) demo_key 5 ''y'') = False"
proof -
  obtain p1 where b: "bind (NewProposer ''a'' ''n'') demo_key 5 ''x'' = (True, p1)" by (simp add: bind_def NewProposer_def)
  show ?thesis
  proof (rule ccontr)
    assume "fst (bind (snd (bind (NewProposer ''a'' ''n'') demo_key 5 ''x'')) demo_key 5 ''y'') \<noteq> False"
    then obtain p3 where "bind p1 demo_key 5 ''y'' = (True, p3)" by (cases "bind p1 demo_key 5 ''y''") (simp add: b)
    from one_ballot_one_value [OF b rtranclp.rtrancl_refl this] show False by simp
  qed
qed

theorem ballot_is_fresh_witness:
  "7 \<le> Round (fst (ballot (NewProposer ''a'' ''n'') demo_key 7 False))"
proof -
  obtain b p' where b: "ballot (NewProposer ''a'' ''n'') demo_key 7 False = (b, p')"
    by (cases "ballot (NewProposer ''a'' ''n'') demo_key 7 False")
  have "pp_used (NewProposer ''a'' ''n'') demo_key < - 1" by (simp add: NewProposer_def flip: word_neq_0_conv)
  from ballot_is_fresh [OF b this] show ?thesis by (simp add: b)
qed

theorem Decide_certifies_witness:
  "\<exists>out p. Decide demo_sha demo_hex demo_context demo_transport demo_spec (NewProposer ''a'' ''n'') = (Inr out, p) \<and>
     2 \<le> length (ct_Accepts (o_Certificate out))"
proof -
  obtain out p where d: "Decide demo_sha demo_hex demo_context demo_transport demo_spec (NewProposer ''a'' ''n'') = (Inr out, p)"
    using demo_decided by (auto simp: decided_def split: prod.splits sum.splits)
  from Decide_certifies [OF d] have "2 \<le> int (length (ct_Accepts (o_Certificate out)))"
    by (simp add: phase2_def demo_spec_def)
  with d show ?thesis by auto
qed

theorem choose_value_adopts_highest_witness:
  "choose_value demo_spec [] = Inr (demo_value ''p'' ''c'', True) \<and>
   (\<exists>f. s_Propose demo_spec = Some f \<and> f [] = Some (demo_value ''p'' ''c''))"
proof -
  have c: "choose_value demo_spec [] = Inr (demo_value ''p'' ''c'', True)"
    by (simp add: choose_value_def highest_def demo_spec_def)
  from choose_value_adopts_highest [OF c] show ?thesis by (simp add: c)
qed


end
