(* ===== verification/ClaimProtocol.thy ===== *)
theory ClaimProtocol
  imports ClaimProposer
begin

text \<open>
  The recovery-claim protocol as a whole: the voters' databases, the proposer processes and the
  messages between them, stepping through the operations of \<open>ClaimVoter\<close> and \<open>ClaimProposer\<close>, and
  the theorem that one key has one certified value in a voter generation.

  \<open>quorum_system\<close> and \<open>single_decree\<close> state what the agreement argument needs of quorums and of the
  reachable states; the rest of the theory shows that the program provides it.
\<close>

section \<open>Agreement from the laws of one decision\<close>

locale quorum_system =
  fixes quorum :: "'n set \<Rightarrow> bool"
  assumes quorum_meet: "quorum P \<Longrightarrow> quorum Q \<Longrightarrow> \<exists>n. n \<in> P \<and> n \<in> Q"
begin

lemma quorum_nonempty: "quorum Q \<Longrightarrow> \<exists>n. n \<in> Q"
  using quorum_meet by blast

end

text \<open>
  \<open>promises s\<close> are the promises given: the voter, the ballot, and the ballot and value it reported
  as accepted; \<open>proposals s\<close> the ballots and values sent in phase 2; \<open>accepts s\<close> the accepts given.
\<close>

locale single_decree = quorum_system quorum
  for quorum :: "'n set \<Rightarrow> bool" +
  fixes reach :: "'s \<Rightarrow> bool"
    and promises :: "'s \<Rightarrow> ('n \<times> 'b::linorder \<times> ('b \<times> 'd) option) set"
    and proposals :: "'s \<Rightarrow> ('b \<times> 'd) set"
    and accepts :: "'s \<Rightarrow> ('n \<times> 'b \<times> 'd) set"
  assumes finite_proposals: "finite (proposals s)"
    and one_value: "reach s \<Longrightarrow> (b, d) \<in> proposals s \<Longrightarrow> (b, d') \<in> proposals s \<Longrightarrow> d = d'"
    and accept_proposed: "reach s \<Longrightarrow> (n, b, d) \<in> accepts s \<Longrightarrow> (b, d) \<in> proposals s"
    and promise_reports: "reach s \<Longrightarrow> (n, b', rep) \<in> promises s \<Longrightarrow> (n, b, d) \<in> accepts s \<Longrightarrow> b < b' \<Longrightarrow>
      \<exists>c e. rep = Some (c, e) \<and> b \<le> c"
    and report_proposed: "reach s \<Longrightarrow> (n, b', Some (b, d)) \<in> promises s \<Longrightarrow> (b, d) \<in> proposals s"
    and proposal_justified: "reach s \<Longrightarrow> (b, d) \<in> proposals s \<Longrightarrow>
      \<exists>Q rep. quorum Q \<and> (\<forall>n \<in> Q. (n, b, rep n) \<in> promises s \<and> (\<forall>c e. rep n = Some (c, e) \<longrightarrow> c < b)) \<and>
        ((\<forall>n \<in> Q. rep n = None) \<or>
         (\<exists>m \<in> Q. \<exists>c. rep m = Some (c, d) \<and> (\<forall>n \<in> Q. \<forall>c' e'. rep n = Some (c', e') \<longrightarrow> c' \<le> c)))"
begin

definition chosen :: "'s \<Rightarrow> 'b \<Rightarrow> 'd \<Rightarrow> bool" where
  "chosen s b d \<longleftrightarrow> (\<exists>Q. quorum Q \<and> (\<forall>n \<in> Q. (n, b, d) \<in> accepts s))"

lemma chosen_proposed: "reach s \<Longrightarrow> chosen s b d \<Longrightarrow> (b, d) \<in> proposals s"
  unfolding chosen_def using quorum_nonempty accept_proposed by metis

lemma proposal_above_chosen:
  assumes "reach s" "chosen s b d"
  shows "(b', d') \<in> proposals s \<Longrightarrow> b \<le> b' \<Longrightarrow> d' = d"
proof (induction "card {c \<in> fst ` proposals s. c < b'}" arbitrary: b' d' rule: less_induct)
  case less
  show ?case
  proof (cases "b = b'")
    case True
    with chosen_proposed [OF assms] less.prems(1) one_value [OF assms(1)] show ?thesis by blast
  next
    case False
    with less.prems(2) have lt: "b < b'" by simp
    obtain Q rep where Q: "quorum Q"
      and pr: "\<And>n. n \<in> Q \<Longrightarrow> (n, b', rep n) \<in> promises s" "\<And>n c e. n \<in> Q \<Longrightarrow> rep n = Some (c, e) \<Longrightarrow> c < b'"
      and ch: "(\<forall>n \<in> Q. rep n = None) \<or>
         (\<exists>m \<in> Q. \<exists>c. rep m = Some (c, d') \<and> (\<forall>n \<in> Q. \<forall>c' e'. rep n = Some (c', e') \<longrightarrow> c' \<le> c))"
      using proposal_justified [OF assms(1) less.prems(1)] by blast
    obtain P where P: "quorum P" "\<And>n. n \<in> P \<Longrightarrow> (n, b, d) \<in> accepts s" using assms(2) by (auto simp: chosen_def)
    obtain n where n: "n \<in> P" "n \<in> Q" using quorum_meet [OF P(1) Q] by blast
    obtain c e where ce: "rep n = Some (c, e)" "b \<le> c"
      using promise_reports [OF assms(1) pr(1) [OF n(2)] P(2) [OF n(1)] lt] by blast
    then obtain m c1 where m: "m \<in> Q" "rep m = Some (c1, d')" "c \<le> c1" using ch n(2) by fastforce
    have mp: "(c1, d') \<in> proposals s" using report_proposed [OF assms(1)] pr(1) [OF m(1)] m(2) by metis
    have c1: "c1 < b'" using pr(2) [OF m(1,2)] .
    have "c1 \<in> fst ` proposals s" using mp by force
    then have "{c \<in> fst ` proposals s. c < c1} \<subset> {c \<in> fst ` proposals s. c < b'}"
      using c1 order.strict_trans [OF _ c1] by (intro psubsetI set_eqI notI) (auto dest: equalityD2)
    then have "card {c \<in> fst ` proposals s. c < c1} < card {c \<in> fst ` proposals s. c < b'}"
      using finite_proposals [of s] by (intro psubset_card_mono) auto
    from less.hyps [OF this mp] ce(2) m(3) show ?thesis by (meson order.trans)
  qed
qed

lemma agreement:
  assumes "reach s" "chosen s b d" "chosen s b' d'"
  shows "d = d'"
proof (cases "b \<le> b'")
  case True
  then show ?thesis using proposal_above_chosen [OF assms(1,2)] chosen_proposed [OF assms(1,3)] by metis
next
  case False
  then show ?thesis using proposal_above_chosen [OF assms(1,3)] chosen_proposed [OF assms(1,2)] by (metis linear)
qed

end

section \<open>The cluster\<close>

text \<open>
  The state of a cluster, and what was said in it: the promises voters gave, the phase 2 requests
  sent (with the value's digest), and the accepts signed. Messages are only ever added, so a reply
  or a request may be read late, more than once, or never.
\<close>

record cluster =
  cl_db :: "string \<Rightarrow> voter_db"
  cl_prop :: "nat \<Rightarrow> Proposer"
  cl_promises :: "(string \<times> ClaimKey \<times> Ballot \<times> int \<times> PrepareResult) list"
  cl_reqs :: "(ClaimKey \<times> Ballot \<times> int \<times> ClaimValue \<times> string) list"
  cl_accepts :: "(string \<times> ClaimAccept) list"

text \<open>What a voter commits besides Prepare and Accept.\<close>

inductive local_step :: "(bytes \<Rightarrow> bytes) \<Rightarrow> (bytes \<Rightarrow> string) \<Rightarrow> voter_db \<Rightarrow> voter_db \<Rightarrow> bool"
  for sha hex where
  local_import: "ImportClaimsAndAdopt sha hex db newGen src states = Inr (n, db') \<Longrightarrow> local_step sha hex db db'"
| local_adopt: "0 \<le> g \<Longrightarrow> local_step sha hex db (RecordVoterAdoption db g)"
| local_config: "local_step sha hex db (insert_voter_config db row)"
| local_seal: "local_step sha hex db (seal_generation db g)"
| local_targets: "local_step sha hex db (db\<lparr>db_targets := t\<rparr>)"

text \<open>
  A decision of generation \<open>g\<close> is driven to the members of \<open>g\<close> with a majority of them as quorum,
  as the server's specs are.
\<close>

definition spec_for :: "int \<Rightarrow> VoterMember list \<Rightarrow> Spec \<Rightarrow> bool" where
  "spec_for g ms spec \<longleftrightarrow> (s_Generation spec = g \<longrightarrow>
     set (s_Voters spec) \<subseteq> member_names ms \<and> int (MajorityOf (length ms)) \<le> s_PrepareQuorum spec)"

text \<open>
  A step of the cluster. A Prepare may come from anywhere; a phase 2 request is sent by a process
  that holds enough promises for a ballot of its own, chose its value from them and bound it; an
  Accept is handled for a request that was sent.
\<close>

inductive cluster_step :: "(bytes \<Rightarrow> bytes) \<Rightarrow> (bytes \<Rightarrow> string) \<Rightarrow> int \<Rightarrow> VoterMember list \<Rightarrow> cluster \<Rightarrow> cluster \<Rightarrow> bool"
  for sha hex g ms where
  net_prepare: "ClaimPrepare (cl_db s n) key b gen = Inr (r, db') \<Longrightarrow>
    cluster_step sha hex g ms s (s\<lparr>cl_db := (cl_db s)(n := db'),
      cl_promises := (if pr_Promised r then [(n, key, b, gen, r)] else []) @ cl_promises s\<rparr>)"
| net_ballot: "ballot (cl_prop s i) key want reuse = (b, p') \<Longrightarrow>
    cluster_step sha hex g ms s (s\<lparr>cl_prop := (cl_prop s)(i := p')\<rparr>)"
| net_propose: "spec_for g ms spec \<Longrightarrow> distinct (map fst ps) \<Longrightarrow>
    \<forall>(n, r) \<in> set ps. n \<in> set (s_Voters spec) \<and> (n, s_Key spec, b, s_Generation spec, r) \<in> set (cl_promises s) \<Longrightarrow>
    s_PrepareQuorum spec \<le> int (length ps) \<Longrightarrow>
    choose_value spec ps = Inr (v, built) \<Longrightarrow> Digest sha hex v = Some d \<Longrightarrow>
    Coordinator b = pp_Self (cl_prop s i) \<Longrightarrow> Nonce b = pp_nonce (cl_prop s i) \<Longrightarrow>
    bind (cl_prop s i) (s_Key spec) (Round b) d = (True, p') \<Longrightarrow>
    cluster_step sha hex g ms s (s\<lparr>cl_prop := (cl_prop s)(i := p'),
      cl_reqs := (s_Key spec, b, s_Generation spec, v, d) # cl_reqs s\<rparr>)"
| net_accept: "(key, b, gen, v, d) \<in> set (cl_reqs s) \<Longrightarrow> Round b \<noteq> 0 \<Longrightarrow> Digest sha hex v = Some d \<Longrightarrow>
    sg_Name signer = n \<Longrightarrow>
    ClaimAcceptTx sha signer oc (cl_db s n) key b v d gen = TxDone r db' \<Longrightarrow>
    cluster_step sha hex g ms s (s\<lparr>cl_db := (cl_db s)(n := db'),
      cl_accepts := (case ar_Accept r of Some a \<Rightarrow> if ar_Accepted r then [(n, a)] else [] | None \<Rightarrow> []) @ cl_accepts s\<rparr>)"
| net_local: "local_step sha hex (cl_db s n) db' \<Longrightarrow>
    cluster_step sha hex g ms s (s\<lparr>cl_db := (cl_db s)(n := db')\<rparr>)"

text \<open>
  The start of a decision: every member has adopted the generation and has no state for the key,
  no message was sent, and no two processes have the same name and boot nonce.
\<close>

definition cluster_init :: "(bytes \<Rightarrow> bytes) \<Rightarrow> (bytes \<Rightarrow> string) \<Rightarrow> int \<Rightarrow> VoterMember list \<Rightarrow> ClaimKey \<Rightarrow> cluster \<Rightarrow> bool" where
  "cluster_init sha hex g ms k s \<longleftrightarrow> 0 \<le> g \<and>
     (\<forall>n \<in> member_names ms. voter_ok sha hex (cl_db s n) \<and> AdoptedVoterGeneration (cl_db s n) = g \<and>
        row_of (cl_db s n) k = zero_state k) \<and>
     (\<forall>i j. pp_Self (cl_prop s i) = pp_Self (cl_prop s j) \<and> pp_nonce (cl_prop s i) = pp_nonce (cl_prop s j) \<longrightarrow> i = j) \<and>
     cl_promises s = [] \<and> cl_reqs s = [] \<and> cl_accepts s = []"

definition cluster_reach :: "(bytes \<Rightarrow> bytes) \<Rightarrow> (bytes \<Rightarrow> string) \<Rightarrow> int \<Rightarrow> VoterMember list \<Rightarrow> ClaimKey \<Rightarrow> cluster \<Rightarrow> bool" where
  "cluster_reach sha hex g ms k s \<longleftrightarrow> (\<exists>s0. cluster_init sha hex g ms k s0 \<and> (cluster_step sha hex g ms)\<^sup>*\<^sup>* s0 s)"

section \<open>What the protocol keeps\<close>

text \<open>What a promise reported as accepted.\<close>

definition report :: "PrepareResult \<Rightarrow> (Ballot \<times> string) option" where
  "report r = (case pr_State r of None \<Rightarrow> None
     | Some st \<Rightarrow> if st_Accepted st = zero_ballot then None else Some (st_Accepted st, st_ValueDigest st))"

definition row_report :: "ClaimVoterState \<Rightarrow> (Ballot \<times> string) option" where
  "row_report st = (if st_Accepted st = zero_ballot then None else Some (st_Accepted st, st_ValueDigest st))"

definition cl_promised :: "ClaimKey \<Rightarrow> int \<Rightarrow> cluster \<Rightarrow> (string \<times> Ballot \<times> (Ballot \<times> string) option) set" where
  "cl_promised k g s = {(n, b, report r) | n b r. (n, k, b, g, r) \<in> set (cl_promises s)}"

definition cl_proposed :: "ClaimKey \<Rightarrow> int \<Rightarrow> cluster \<Rightarrow> (Ballot \<times> string) set" where
  "cl_proposed k g s = {(b, d) | b v d. (k, b, g, v, d) \<in> set (cl_reqs s)}"

definition cl_accepted :: "ClaimKey \<Rightarrow> int \<Rightarrow> cluster \<Rightarrow> (string \<times> Ballot \<times> string) set" where
  "cl_accepted k g s = {(n, a_Ballot a, a_ValueDigest a) | n a.
     (n, a) \<in> set (cl_accepts s) \<and> a_Key a = k \<and> a_ConfigGeneration a = g}"

definition majority :: "VoterMember list \<Rightarrow> string set \<Rightarrow> bool" where
  "majority ms Q \<longleftrightarrow> Q \<subseteq> member_names ms \<and> MajorityOf (length ms) \<le> card Q"

text \<open>The members' databases, and the processes.\<close>

definition inv_db :: "(bytes \<Rightarrow> bytes) \<Rightarrow> (bytes \<Rightarrow> string) \<Rightarrow> int \<Rightarrow> VoterMember list \<Rightarrow> cluster \<Rightarrow> bool" where
  "inv_db sha hex g ms s \<longleftrightarrow> 0 \<le> g \<and> (\<forall>n \<in> member_names ms.
     voter_ok sha hex (cl_db s n) \<and> g \<le> AdoptedVoterGeneration (cl_db s n))"

definition inv_prop :: "cluster \<Rightarrow> bool" where
  "inv_prop s \<longleftrightarrow>
     (\<forall>i j. pp_Self (cl_prop s i) = pp_Self (cl_prop s j) \<and> pp_nonce (cl_prop s i) = pp_nonce (cl_prop s j) \<longrightarrow> i = j) \<and>
     (\<forall>(k, b, g, v, d) \<in> set (cl_reqs s). \<exists>i. Coordinator b = pp_Self (cl_prop s i) \<and> Nonce b = pp_nonce (cl_prop s i) \<and>
        pp_bound (cl_prop s i) k (Round b) = Some d)"

text \<open>A member still in the generation holds no accepted value but one proposed in it, and its row is
  at or above everything it promised and accepted in it.\<close>

definition inv_row :: "int \<Rightarrow> VoterMember list \<Rightarrow> ClaimKey \<Rightarrow> cluster \<Rightarrow> bool" where
  "inv_row g ms k s \<longleftrightarrow> (\<forall>n \<in> member_names ms. AdoptedVoterGeneration (cl_db s n) = g \<longrightarrow>
     (\<forall>x. row_report (row_of (cl_db s n) k) = Some x \<longrightarrow> x \<in> cl_proposed k g s) \<and>
     (\<forall>b rep. (n, b, rep) \<in> cl_promised k g s \<longrightarrow> b \<le> st_Promised (row_of (cl_db s n) k)) \<and>
     (\<forall>b d. (n, b, d) \<in> cl_accepted k g s \<longrightarrow> b \<le> st_Accepted (row_of (cl_db s n) k)))"

text \<open>What a member's promises report.\<close>

definition inv_promise :: "(bytes \<Rightarrow> bytes) \<Rightarrow> (bytes \<Rightarrow> string) \<Rightarrow> int \<Rightarrow> VoterMember list \<Rightarrow> ClaimKey \<Rightarrow> cluster \<Rightarrow> bool" where
  "inv_promise sha hex g ms k s \<longleftrightarrow> (\<forall>n \<in> member_names ms. \<forall>b r. (n, k, b, g, r) \<in> set (cl_promises s) \<longrightarrow>
     Round b \<noteq> 0 \<and> (\<exists>st. pr_State r = Some st \<and> row_ok sha hex k st \<and> st_Accepted st \<le> b) \<and>
     (\<forall>x. report r = Some x \<longrightarrow> x \<in> cl_proposed k g s) \<and>
     (\<forall>b' d. (n, b', d) \<in> cl_accepted k g s \<longrightarrow> b' < b \<longrightarrow> (\<exists>c e. report r = Some (c, e) \<and> b' \<le> c)))"

definition inv_accept :: "int \<Rightarrow> VoterMember list \<Rightarrow> ClaimKey \<Rightarrow> cluster \<Rightarrow> bool" where
  "inv_accept g ms k s \<longleftrightarrow> (\<forall>n \<in> member_names ms. \<forall>b d. (n, b, d) \<in> cl_accepted k g s \<longrightarrow>
     (b, d) \<in> cl_proposed k g s \<and> Round b \<noteq> 0)"

definition justified :: "int \<Rightarrow> VoterMember list \<Rightarrow> ClaimKey \<Rightarrow> cluster \<Rightarrow> Ballot \<Rightarrow> string \<Rightarrow> bool" where
  "justified g ms k s b d \<longleftrightarrow> (\<exists>Q rep. majority ms Q \<and>
     (\<forall>n \<in> Q. (n, b, rep n) \<in> cl_promised k g s \<and> (\<forall>c e. rep n = Some (c, e) \<longrightarrow> c < b)) \<and>
     ((\<forall>n \<in> Q. rep n = None) \<or>
      (\<exists>m \<in> Q. \<exists>c. rep m = Some (c, d) \<and> (\<forall>n \<in> Q. \<forall>c' e'. rep n = Some (c', e') \<longrightarrow> c' \<le> c))))"

definition inv_proposal :: "int \<Rightarrow> VoterMember list \<Rightarrow> ClaimKey \<Rightarrow> cluster \<Rightarrow> bool" where
  "inv_proposal g ms k s \<longleftrightarrow> (\<forall>(b, d) \<in> cl_proposed k g s. Round b \<noteq> 0 \<and> justified g ms k s b d)"

definition cluster_inv :: "(bytes \<Rightarrow> bytes) \<Rightarrow> (bytes \<Rightarrow> string) \<Rightarrow> int \<Rightarrow> VoterMember list \<Rightarrow> ClaimKey \<Rightarrow> cluster \<Rightarrow> bool" where
  "cluster_inv sha hex g ms k s \<longleftrightarrow> inv_db sha hex g ms s \<and> inv_prop s \<and> inv_row g ms k s \<and>
     inv_promise sha hex g ms k s \<and> inv_accept g ms k s \<and> inv_proposal g ms k s"

lemmas cluster_invs = cluster_inv_def inv_db_def inv_prop_def inv_row_def inv_promise_def inv_accept_def inv_proposal_def

lemma report_state: "pr_State r = Some st \<Longrightarrow> report r = row_report st"
  by (simp add: report_def row_report_def)

lemma row_report_zero [simp]: "row_report (zero_state k) = None"
  by (simp add: row_report_def zero_state_def)

lemma cluster_inv_init: "cluster_init sha hex g ms k s \<Longrightarrow> cluster_inv sha hex g ms k s"
  by (auto simp: cluster_init_def cluster_invs cl_promised_def cl_accepted_def cl_proposed_def)

subsection \<open>Local steps\<close>

lemma local_step_voter_step: "local_step sha hex db db' \<Longrightarrow> voter_step sha hex db db'"
  by (induction rule: local_step.induct) (auto intro: voter_step.intros)

text \<open>A local step leaves the rows alone, or moves the voter to a later generation.\<close>

lemma local_step_row:
  assumes "local_step sha hex db db'" "AdoptedVoterGeneration db' = AdoptedVoterGeneration db" "0 \<le> AdoptedVoterGeneration db"
  shows "row_of db' k = row_of db k"
  using assms
proof (induction rule: local_step.induct)
  case (local_import db newGen src states n db')
  then consider "db' = db" | best db1 where "fold (import_one newGen) best (0, db) = (n, db1)" "db' = recordAdoptionTx db1 newGen src"
      "AdoptedVoterGeneration db = newGen - 1"
    by (auto simp: ImportClaimsAndAdopt_def readStandingTx_def Let_def split: sum.splits if_splits prod.splits option.splits)
  then show ?case
  proof cases
    case (2 best db1)
    then have "AdoptedVoterGeneration db1 = AdoptedVoterGeneration db"
      using import_fold_adoptions [OF 2(1)] by (simp add: AdoptedVoterGeneration_def)
    then have "AdoptedVoterGeneration db' = newGen"
      using 2 local_import.prems(2) by (simp add: AdoptedVoterGeneration_record)
    with 2(3) local_import.prems(1) show ?thesis by simp
  qed simp
qed (simp_all add: RecordVoterAdoption_def)

subsection \<open>Every step keeps the invariant\<close>

lemma inv_dbD: "inv_db sha hex g ms s \<Longrightarrow> n \<in> member_names ms \<Longrightarrow>
    voter_ok sha hex (cl_db s n) \<and> g \<le> AdoptedVoterGeneration (cl_db s n)"
  by (simp add: inv_db_def)

lemma keeps_local:
  assumes "cluster_inv sha hex g ms k s" "local_step sha hex (cl_db s n) db'"
  shows "cluster_inv sha hex g ms k (s\<lparr>cl_db := (cl_db s)(n := db')\<rparr>)"
proof -
  let ?s = "s\<lparr>cl_db := (cl_db s)(n := db')\<rparr>"
  note vs = local_step_voter_step [OF assms(2)]
  have same: "cl_promised k g ?s = cl_promised k g s" "cl_proposed k g ?s = cl_proposed k g s"
      "cl_accepted k g ?s = cl_accepted k g s"
    by (simp_all add: cl_promised_def cl_proposed_def cl_accepted_def)
  have db: "inv_db sha hex g ms ?s"
    using assms(1) voter_step_preserves [OF vs] voter_step_frame [OF vs]
    by (fastforce simp: cluster_inv_def inv_db_def)
  have "row_of db' k = row_of (cl_db s n) k \<and> AdoptedVoterGeneration (cl_db s n) = g"
    if "n \<in> member_names ms" "AdoptedVoterGeneration db' = g"
  proof -
    have "AdoptedVoterGeneration (cl_db s n) = g" "0 \<le> g"
      using assms(1) voter_step_frame [OF vs] that by (fastforce simp: cluster_inv_def inv_db_def)+
    with local_step_row [OF assms(2)] that(2) show ?thesis by simp
  qed
  then have row: "inv_row g ms k ?s"
    using assms(1) unfolding cluster_inv_def inv_row_def same by (auto simp del: fun_upd_apply simp: fun_upd_def)
  show ?thesis
    using assms(1) db row
    by (simp add: cluster_inv_def inv_prop_def inv_promise_def inv_accept_def inv_proposal_def justified_def same)
qed

lemma keeps_ballot:
  assumes "cluster_inv sha hex g ms k s" "ballot (cl_prop s i) key want reuse = (b, p')"
  shows "cluster_inv sha hex g ms k (s\<lparr>cl_prop := (cl_prop s)(i := p')\<rparr>)"
proof -
  let ?s = "s\<lparr>cl_prop := (cl_prop s)(i := p')\<rparr>"
  have same: "cl_promised k g ?s = cl_promised k g s" "cl_proposed k g ?s = cl_proposed k g s"
      "cl_accepted k g ?s = cl_accepted k g s"
    by (simp_all add: cl_promised_def cl_proposed_def cl_accepted_def)
  have "pp_Self (cl_prop ?s j) = pp_Self (cl_prop s j)" "pp_nonce (cl_prop ?s j) = pp_nonce (cl_prop s j)"
      "pp_bound (cl_prop ?s j) = pp_bound (cl_prop s j)" for j
    using ballot_fields [OF assms(2)] by simp_all
  then have "inv_prop ?s" using assms(1) unfolding cluster_inv_def inv_prop_def by simp
  then show ?thesis
    using assms(1) by (simp add: cluster_inv_def inv_db_def inv_row_def inv_promise_def inv_accept_def inv_proposal_def
        justified_def same)
qed

lemma promised_Cons:
  "cl_promises s' = (n, key, b, gen, r) # cl_promises s \<Longrightarrow>
   cl_promised k g s' = (if key = k \<and> gen = g then insert (n, b, report r) (cl_promised k g s) else cl_promised k g s)"
  by (auto simp: cl_promised_def)

lemma justified_mono:
  "justified g ms k s b d \<Longrightarrow> cl_promised k g s \<subseteq> cl_promised k g s' \<Longrightarrow> justified g ms k s' b d"
  unfolding justified_def by (elim exE conjE, intro exI conjI) auto

lemma ClaimPrepare_refused: "ClaimPrepare db key b gen = Inr (r, db') \<Longrightarrow> \<not> pr_Promised r \<Longrightarrow> db' = db"
  by (auto simp: ClaimPrepare_def Let_def split: if_splits sum.splits option.splits)

text \<open>What a host that is no member does changes nothing.\<close>

lemma keeps_outsider:
  assumes inv: "cluster_inv sha hex g ms k s" and n: "n \<notin> member_names ms"
    and "cl_prop s' = cl_prop s" "cl_reqs s' = cl_reqs s" "cl_db s' = (cl_db s)(n := db')"
    and "set (cl_promises s') - set (cl_promises s) \<subseteq> {n} \<times> UNIV" "set (cl_promises s) \<subseteq> set (cl_promises s')"
    and "set (cl_accepts s') - set (cl_accepts s) \<subseteq> {n} \<times> UNIV" "set (cl_accepts s) \<subseteq> set (cl_accepts s')"
  shows "cluster_inv sha hex g ms k s'"
proof -
  have same: "cl_proposed k g s' = cl_proposed k g s" by (simp add: cl_proposed_def assms(4))
  have db: "m \<in> member_names ms \<Longrightarrow> cl_db s' m = cl_db s m" for m using n assms(5) by auto
  have p: "m \<in> member_names ms \<Longrightarrow> (m, x) \<in> set (cl_promises s') \<longleftrightarrow> (m, x) \<in> set (cl_promises s)" for m x
    using n assms(6,7) by blast
  have a: "m \<in> member_names ms \<Longrightarrow> (m, x) \<in> set (cl_accepts s') \<longleftrightarrow> (m, x) \<in> set (cl_accepts s)" for m x
    using n assms(8,9) by blast
  have p': "m \<in> member_names ms \<Longrightarrow> (m, x) \<in> cl_promised k g s' \<longleftrightarrow> (m, x) \<in> cl_promised k g s" for m x
    by (auto simp: cl_promised_def p)
  have a': "m \<in> member_names ms \<Longrightarrow> (m, x) \<in> cl_accepted k g s' \<longleftrightarrow> (m, x) \<in> cl_accepted k g s" for m x
    by (auto simp: cl_accepted_def a)
  have "cl_promised k g s \<subseteq> cl_promised k g s'" using assms(7) by (auto simp: cl_promised_def)
  then have "inv_proposal g ms k s'"
    using inv justified_mono unfolding cluster_inv_def inv_proposal_def same by blast
  then show ?thesis
    using inv unfolding cluster_inv_def inv_db_def inv_prop_def inv_row_def inv_promise_def inv_accept_def
    by (simp add: db p p' a' same assms(3,4))
qed

lemma keeps_promise:
  assumes inv: "cluster_inv sha hex g ms k s" and prep: "ClaimPrepare (cl_db s n) key b gen = Inr (r, db')"
    and n: "n \<in> member_names ms" and "pr_Promised r"
  shows "cluster_inv sha hex g ms k (s\<lparr>cl_db := (cl_db s)(n := db'), cl_promises := (n, key, b, gen, r) # cl_promises s\<rparr>)"
proof -
  let ?s = "s\<lparr>cl_db := (cl_db s)(n := db'), cl_promises := (n, key, b, gen, r) # cl_promises s\<rparr>"
  have ok: "voter_ok sha hex (cl_db s n)" and ge: "g \<le> AdoptedVoterGeneration (cl_db s n)"
    using n inv by (auto simp: cluster_inv_def inv_db_def)
  have key: "st_Key (row_of (cl_db s n) key) = key" using voter_ok_row [OF ok, of key] by (simp add: row_ok_def)
  from prep key obtain st where st: "Round b \<noteq> 0" "readStandingTx (cl_db s n) = Inr st"
      "admit st key gen None = None" "st_Promised (row_of (cl_db s n) key) \<le> b" "pr_State r = Some (row_of db' key)"
      "db' = (if st_Promised (row_of (cl_db s n) key) = b then cl_db s n
              else saveClaimRowTx (cl_db s n) ((row_of (cl_db s n) key)\<lparr>st_Promised := b, st_ConfigGeneration := gen\<rparr>))"
    by (cases rule: ClaimPrepare_cases) (use assms(4) in auto)
  have gen: "gen = AdoptedVoterGeneration (cl_db s n)"
    using admit_gen [OF st(3)] readStanding_fields [OF st(2)] by simp
  have adopted: "AdoptedVoterGeneration db' = AdoptedVoterGeneration (cl_db s n)" using st(6) by simp
  have ok': "voter_ok sha hex db'" by (rule prepare_preserves(1) [OF prep ok])
  have row: "st_Promised (row_of db' key) = b"
      "row_report (row_of db' k) = row_report (row_of (cl_db s n) k)"
      "st_Accepted (row_of db' k) = st_Accepted (row_of (cl_db s n) k)"
      "k \<noteq> key \<Longrightarrow> row_of db' k = row_of (cl_db s n) k"
    using st(6) key by (auto simp: row_report_def)
  have rk: "row_ok sha hex k (row_of db' k)" by (rule voter_ok_row [OF ok'])
  have same: "cl_proposed k g ?s = cl_proposed k g s" "cl_accepted k g ?s = cl_accepted k g s"
    by (simp_all add: cl_proposed_def cl_accepted_def)
  have pr: "cl_promised k g ?s = (if key = k \<and> gen = g then insert (n, b, report r) (cl_promised k g s) else cl_promised k g s)"
    by (rule promised_Cons) simp
  have db: "inv_db sha hex g ms ?s" using inv ok' ge adopted by (simp add: cluster_inv_def inv_db_def)
  have old: "\<forall>x. row_report (row_of (cl_db s n) k) = Some x \<longrightarrow> x \<in> cl_proposed k g s"
      "\<forall>b rep. (n, b, rep) \<in> cl_promised k g s \<longrightarrow> b \<le> st_Promised (row_of (cl_db s n) k)"
      "\<forall>b d. (n, b, d) \<in> cl_accepted k g s \<longrightarrow> b \<le> st_Accepted (row_of (cl_db s n) k)" if "gen = g"
    using inv n gen that by (auto simp: cluster_inv_def inv_row_def)
  have irow: "inv_row g ms k ?s"
    unfolding inv_row_def
  proof (intro ballI impI)
    fix m assume m: "m \<in> member_names ms" "AdoptedVoterGeneration (cl_db ?s m) = g"
    show "(\<forall>x. row_report (row_of (cl_db ?s m) k) = Some x \<longrightarrow> x \<in> cl_proposed k g ?s) \<and>
       (\<forall>b rep. (m, b, rep) \<in> cl_promised k g ?s \<longrightarrow> b \<le> st_Promised (row_of (cl_db ?s m) k)) \<and>
       (\<forall>b d. (m, b, d) \<in> cl_accepted k g ?s \<longrightarrow> b \<le> st_Accepted (row_of (cl_db ?s m) k))"
    proof (cases "m = n")
      case False
      with m inv show ?thesis unfolding same pr by (auto simp: cluster_inv_def inv_row_def)
    next
      case True
      with m adopted gen have "gen = g" by simp
      note o = old [OF this]
      show ?thesis
        using True o row st(4) unfolding same pr by (cases "key = k") (auto intro: order.trans)
    qed
  qed
  have ipr: "inv_promise sha hex g ms k ?s"
    unfolding inv_promise_def same
  proof (intro ballI allI impI)
    fix m b' r' assume m: "m \<in> member_names ms" "(m, k, b', g, r') \<in> set (cl_promises ?s)"
    show "Round b' \<noteq> 0 \<and> (\<exists>st. pr_State r' = Some st \<and> row_ok sha hex k st \<and> st_Accepted st \<le> b') \<and>
       (\<forall>x. report r' = Some x \<longrightarrow> x \<in> cl_proposed k g s) \<and>
       (\<forall>b'' d. (m, b'', d) \<in> cl_accepted k g s \<longrightarrow> b'' < b' \<longrightarrow> (\<exists>c e. report r' = Some (c, e) \<and> b'' \<le> c))"
    proof (cases "(m, k, b', g, r') = (n, key, b, gen, r)")
      case False
      with m(2) have "(m, k, b', g, r') \<in> set (cl_promises s)" by auto
      with m(1) inv show ?thesis unfolding cluster_inv_def inv_promise_def by blast
    next
      case True
      then have eq: "m = n" "key = k" "b' = b" "gen = g" "r' = r" by auto
      note o = old [OF eq(4)]
      have rep: "report r = row_report (row_of (cl_db s n) k)" using report_state [OF st(5)] row(2) eq(2) by simp
      have nz: "\<exists>c e. report r = Some (c, e) \<and> b'' \<le> c" if "(n, b'', d) \<in> cl_accepted k g s" for b'' d
      proof -
        have "b'' \<le> st_Accepted (row_of (cl_db s n) k)" "Round b'' \<noteq> 0"
          using o(3) that inv n by (auto simp: cluster_inv_def inv_accept_def)
        then have "st_Accepted (row_of (cl_db s n) k) \<noteq> zero_ballot" using zero_ballot_least [of b''] by auto
        with \<open>b'' \<le> _\<close> show ?thesis by (simp add: rep row_report_def)
      qed
      have "st_Accepted (row_of db' k) \<le> b" using rk row(1) eq(2) by (simp add: row_ok_def)
      then have "\<exists>st. pr_State r = Some st \<and> row_ok sha hex k st \<and> st_Accepted st \<le> b" using st(5) rk eq(2) by blast
      then show ?thesis unfolding eq(1,3,5) using st(1) o(1) nz by (simp add: rep)
    qed
  qed
  have "cl_promised k g s \<subseteq> cl_promised k g ?s" by (auto simp: pr)
  then have "inv_proposal g ms k ?s"
    using inv justified_mono unfolding cluster_inv_def inv_proposal_def same by blast
  then show ?thesis
    using inv db irow ipr by (simp add: cluster_inv_def inv_prop_def inv_accept_def same)
qed

lemma keeps_prepare:
  assumes inv: "cluster_inv sha hex g ms k s" and prep: "ClaimPrepare (cl_db s n) key b gen = Inr (r, db')"
  shows "cluster_inv sha hex g ms k (s\<lparr>cl_db := (cl_db s)(n := db'),
    cl_promises := (if pr_Promised r then [(n, key, b, gen, r)] else []) @ cl_promises s\<rparr>)"
proof (cases "pr_Promised r")
  case False
  with ClaimPrepare_refused [OF prep] inv show ?thesis by simp
next
  case True
  show ?thesis
  proof (cases "n \<in> member_names ms")
    case False
    with True show ?thesis by (intro keeps_outsider [OF inv False]) auto
  qed (use True keeps_promise [OF inv prep] in simp)
qed

lemma accepted_Cons:
  "cl_accepts s' = (n, a) # cl_accepts s \<Longrightarrow>
   cl_accepted k g s' = (if a_Key a = k \<and> a_ConfigGeneration a = g
     then insert (n, a_Ballot a, a_ValueDigest a) (cl_accepted k g s) else cl_accepted k g s)"
  by (auto simp: cl_accepted_def)

text \<open>
  What an accept leaves behind, whether it was signed now or before: an accept for the request's
  key, generation, ballot and value, and a row of that key with that ballot accepted; the row was
  promised no higher than the ballot before.
\<close>

lemma ClaimAcceptTx_accepted:
  assumes "ClaimAcceptTx sha signer oc db key b v d gen = TxDone r db'" "ar_Accepted r" "voter_ok sha hex db"
  obtains a where "ar_Accept r = Some a" "a_Key a = key" "a_ConfigGeneration a = gen" "a_Ballot a = b" "a_ValueDigest a = d"
    "gen = AdoptedVoterGeneration db" "AdoptedVoterGeneration db' = AdoptedVoterGeneration db"
    "st_Promised (row_of db key) \<le> b" "st_Accepted (row_of db' key) = b" "st_ValueDigest (row_of db' key) = d"
    "b \<le> st_Promised (row_of db' key)"
    "\<forall>k. k \<noteq> key \<longrightarrow> row_of db' k = row_of db k"
proof -
  have ok: "row_ok sha hex key (row_of db key)" by (rule voter_ok_row [OF assms(3)])
  then have key: "st_Key (row_of db key) = key" by (simp add: row_ok_def)
  from assms(1) show ?thesis
  proof (cases rule: ClaimAcceptTx_cases)
    case (repeated st)
    then obtain a where a: "ar_Accept r = Some a" "st_Accept (row_of db key) = Some a" by auto
    have "gen = AdoptedVoterGeneration db"
      using admit_gen [OF repeated(3)] readStanding_fields [OF repeated(2)] by simp
    with a repeated ok show ?thesis by (intro that [of a]) (auto simp: row_ok_def)
  next
    case (accepted st a)
    have "gen = AdoptedVoterGeneration db"
      using admit_gen [OF accepted(3)] readStanding_fields [OF accepted(2)] by simp
    with accepted Sign_fields [OF accepted(8)] key show ?thesis
      by (intro that [of a]) (auto simp: accept_row_def)
  qed (use assms(2) in simp)
qed

lemma keeps_accepted:
  assumes inv: "cluster_inv sha hex g ms k s" and req: "(key, b, gen, v, d) \<in> set (cl_reqs s)" "Round b \<noteq> 0"
    and dig: "Digest sha hex v = Some d"
    and tx: "ClaimAcceptTx sha signer oc (cl_db s n) key b v d gen = TxDone r db'"
    and n: "n \<in> member_names ms" and r: "ar_Accepted r" "ar_Accept r = Some a"
  shows "cluster_inv sha hex g ms k (s\<lparr>cl_db := (cl_db s)(n := db'), cl_accepts := (n, a) # cl_accepts s\<rparr>)"
proof -
  let ?s = "s\<lparr>cl_db := (cl_db s)(n := db'), cl_accepts := (n, a) # cl_accepts s\<rparr>"
  have ok: "voter_ok sha hex (cl_db s n)" and ge: "g \<le> AdoptedVoterGeneration (cl_db s n)"
    using n inv by (auto simp: cluster_inv_def inv_db_def)
  from tx r(1) ok obtain a' where "ar_Accept r = Some a'" "a_Key a' = key" "a_ConfigGeneration a' = gen" "a_Ballot a' = b"
    "a_ValueDigest a' = d" and gen: "gen = AdoptedVoterGeneration (cl_db s n)"
    and adopted: "AdoptedVoterGeneration db' = AdoptedVoterGeneration (cl_db s n)"
    and row: "st_Promised (row_of (cl_db s n) key) \<le> b" "st_Accepted (row_of db' key) = b" "st_ValueDigest (row_of db' key) = d"
      "b \<le> st_Promised (row_of db' key)" "\<forall>k. k \<noteq> key \<longrightarrow> row_of db' k = row_of (cl_db s n) k"
    by (rule ClaimAcceptTx_accepted)
  with r(2) have a: "a_Key a = key" "a_ConfigGeneration a = gen" "a_Ballot a = b" "a_ValueDigest a = d" by auto
  have ok': "voter_ok sha hex db'" by (rule accept_preserves(1) [OF tx ok dig req(2)])
  have same: "cl_proposed k g ?s = cl_proposed k g s" "cl_promised k g ?s = cl_promised k g s"
    by (simp_all add: cl_proposed_def cl_promised_def)
  have acc: "cl_accepted k g ?s = (if key = k \<and> gen = g then insert (n, b, d) (cl_accepted k g s) else cl_accepted k g s)"
    using accepted_Cons [of ?s n a s k g] a by simp
  have bd: "(b, d) \<in> cl_proposed k g s" if "key = k" "gen = g" using req that by (auto simp: cl_proposed_def)
  have db: "inv_db sha hex g ms ?s" using inv ok' ge adopted by (simp add: cluster_inv_def inv_db_def)
  have old: "\<forall>x. row_report (row_of (cl_db s n) k) = Some x \<longrightarrow> x \<in> cl_proposed k g s"
      "\<forall>b rep. (n, b, rep) \<in> cl_promised k g s \<longrightarrow> b \<le> st_Promised (row_of (cl_db s n) k)"
      "\<forall>b d. (n, b, d) \<in> cl_accepted k g s \<longrightarrow> b \<le> st_Accepted (row_of (cl_db s n) k)" if "gen = g"
    using inv n gen that by (auto simp: cluster_inv_def inv_row_def)
  have le: "st_Accepted (row_of (cl_db s n) k) \<le> st_Promised (row_of (cl_db s n) k)"
    using voter_ok_row [OF ok, of k] by (simp add: row_ok_def)
  have irow: "inv_row g ms k ?s"
    unfolding inv_row_def
  proof (intro ballI impI)
    fix m assume m: "m \<in> member_names ms" "AdoptedVoterGeneration (cl_db ?s m) = g"
    show "(\<forall>x. row_report (row_of (cl_db ?s m) k) = Some x \<longrightarrow> x \<in> cl_proposed k g ?s) \<and>
       (\<forall>b rep. (m, b, rep) \<in> cl_promised k g ?s \<longrightarrow> b \<le> st_Promised (row_of (cl_db ?s m) k)) \<and>
       (\<forall>b d. (m, b, d) \<in> cl_accepted k g ?s \<longrightarrow> b \<le> st_Accepted (row_of (cl_db ?s m) k))"
    proof (cases "m = n")
      case False
      with m inv show ?thesis unfolding same acc by (auto simp: cluster_inv_def inv_row_def)
    next
      case True
      with m adopted gen have g: "gen = g" by simp
      note o = old [OF g]
      show ?thesis
      proof (cases "key = k")
        case k: True
        have "b' \<le> b" if "(n, b', d') \<in> cl_accepted k g s" for b' d'
          using o(3) that le row(1) k by (meson order.trans)
        moreover have "b' \<le> st_Promised (row_of db' k)" if "(n, b', rep) \<in> cl_promised k g s" for b' rep
          using o(2) that row(1,4) k by (meson order.trans)
        ultimately show ?thesis
          using True row(2,3) bd [OF k g] k g unfolding same acc by (auto simp: row_report_def)
      next
        case k: False
        with True o row(5) show ?thesis unfolding same acc by simp
      qed
    qed
  qed
  have ipr: "inv_promise sha hex g ms k ?s"
    unfolding inv_promise_def same
  proof (intro ballI allI impI)
    fix m b' r' assume m: "m \<in> member_names ms" "(m, k, b', g, r') \<in> set (cl_promises ?s)"
    then have p: "(m, k, b', g, r') \<in> set (cl_promises s)" by simp
    have i: "Round b' \<noteq> 0 \<and> (\<exists>st. pr_State r' = Some st \<and> row_ok sha hex k st \<and> st_Accepted st \<le> b') \<and>
       (\<forall>x. report r' = Some x \<longrightarrow> x \<in> cl_proposed k g s) \<and>
       (\<forall>b'' d. (m, b'', d) \<in> cl_accepted k g s \<longrightarrow> b'' < b' \<longrightarrow> (\<exists>c e. report r' = Some (c, e) \<and> b'' \<le> c))"
      using p m(1) inv unfolding cluster_inv_def inv_promise_def by blast
    have "\<not> b < b'" if "m = n" "key = k" "gen = g"
    proof -
      have "(n, b', report r') \<in> cl_promised k g s" using p that(1) by (auto simp: cl_promised_def)
      with old(2) [OF that(3)] row(1) that(2) show ?thesis by (meson leD order.trans)
    qed
    then have "(m, b'', d') \<in> cl_accepted k g s" if "(m, b'', d') \<in> cl_accepted k g ?s" "b'' < b'" for b'' d'
      using that unfolding acc by (auto split: if_splits)
    with i show "Round b' \<noteq> 0 \<and> (\<exists>st. pr_State r' = Some st \<and> row_ok sha hex k st \<and> st_Accepted st \<le> b') \<and>
       (\<forall>x. report r' = Some x \<longrightarrow> x \<in> cl_proposed k g s) \<and>
       (\<forall>b'' d. (m, b'', d) \<in> cl_accepted k g ?s \<longrightarrow> b'' < b' \<longrightarrow> (\<exists>c e. report r' = Some (c, e) \<and> b'' \<le> c))"
      by blast
  qed
  have "inv_accept g ms k ?s"
    unfolding inv_accept_def same
  proof (intro ballI allI impI)
    fix m b' d' assume m: "m \<in> member_names ms" "(m, b', d') \<in> cl_accepted k g ?s"
    then have "(m, b', d') \<in> cl_accepted k g s \<or> b' = b \<and> d' = d \<and> key = k \<and> gen = g"
      unfolding acc by (auto split: if_splits)
    then show "(b', d') \<in> cl_proposed k g s \<and> Round b' \<noteq> 0"
      using inv m(1) bd req(2) unfolding cluster_inv_def inv_accept_def by blast
  qed
  then show ?thesis
    using inv db irow ipr by (simp add: cluster_inv_def inv_prop_def inv_proposal_def justified_def same)
qed

lemma keeps_accept:
  assumes inv: "cluster_inv sha hex g ms k s" and req: "(key, b, gen, v, d) \<in> set (cl_reqs s)" "Round b \<noteq> 0"
    and dig: "Digest sha hex v = Some d"
    and tx: "ClaimAcceptTx sha signer oc (cl_db s n) key b v d gen = TxDone r db'"
  shows "cluster_inv sha hex g ms k (s\<lparr>cl_db := (cl_db s)(n := db'),
    cl_accepts := (case ar_Accept r of Some a \<Rightarrow> if ar_Accepted r then [(n, a)] else [] | None \<Rightarrow> []) @ cl_accepts s\<rparr>)"
proof (cases "ar_Accepted r")
  case False
  with tx have "db' = cl_db s n" by (cases rule: ClaimAcceptTx_cases) auto
  with inv False show ?thesis by (simp split: option.split)
next
  case acc: True
  have "ar_Accept r \<noteq> None" using tx by (cases rule: ClaimAcceptTx_cases) (use acc in auto)
  then obtain a where a: "ar_Accept r = Some a" by blast
  show ?thesis
  proof (cases "n \<in> member_names ms")
    case True
    with keeps_accepted [OF inv req dig tx _ acc a] a acc show ?thesis by simp
  next
    case False
    with a acc show ?thesis by (intro keeps_outsider [OF inv False]) auto
  qed
qed

text \<open>A proposal made from a majority of promises at a ballot nothing was proposed at is justified.\<close>

lemma propose_justified:
  assumes inv: "cluster_inv sha hex g ms k s"
    and spec: "spec_for g ms spec" "s_Key spec = k" "s_Generation spec = g"
    and ps: "distinct (map fst ps)"
      "\<forall>(n, r) \<in> set ps. n \<in> set (s_Voters spec) \<and> (n, k, b, g, r) \<in> set (cl_promises s)"
      "s_PrepareQuorum spec \<le> int (length ps)"
    and val: "choose_value spec ps = Inr (v, built)" "Digest sha hex v = Some d"
    and fresh: "\<forall>e. (b, e) \<notin> cl_proposed k g s"
  shows "Round b \<noteq> 0 \<and> justified g ms k s b d"
proof -
  let ?Q = "fst ` set ps" and ?rep = "\<lambda>n. report (the (map_of ps n))"
  have mem: "n \<in> member_names ms" if "(n, r) \<in> set ps" for n r
    using that ps(2) spec(1,3) by (auto simp: spec_for_def)
  have mo: "map_of ps n = Some r" if "(n, r) \<in> set ps" for n r using that ps(1) by simp
  have maj: "majority ms ?Q"
    using mem ps(1,3) spec(1,3) distinct_card [OF ps(1)] by (force simp: majority_def spec_for_def)
  have pr: "Round b \<noteq> 0 \<and> (\<exists>st. pr_State r = Some st \<and> row_ok sha hex k st \<and> st_Accepted st \<le> b) \<and>
      (\<forall>x. report r = Some x \<longrightarrow> x \<in> cl_proposed k g s)" if "(n, r) \<in> set ps" for n r
  proof -
    have "(n, k, b, g, r) \<in> set (cl_promises s)" using that ps(2) by blast
    with mem [OF that] inv show ?thesis unfolding cluster_inv_def inv_promise_def by blast
  qed
  have lt: "c < b" if "(n, r) \<in> set ps" "report r = Some (c, e)" for n r c e
  proof -
    have "c \<le> b" using pr [OF that(1)] that(2) by (auto simp: report_def split: if_splits)
    moreover have "c \<noteq> b" using pr [OF that(1)] that(2) fresh by blast
    ultimately show ?thesis by simp
  qed
  have rep: "(\<exists>w. (c, w) \<in> reported (map (pr_State \<circ> snd) ps) \<and> Digest sha hex w = Some e)"
    if r: "(n, r) \<in> set ps" "report r = Some (c, e)" for n r c e
  proof -
    obtain st where st: "pr_State r = Some st" "row_ok sha hex k st" using pr [OF r(1)] by blast
    then have st': "st_Accepted st = c" "st_ValueDigest st = e" "c \<noteq> zero_ballot"
      using r(2) by (auto simp: report_def split: if_splits)
    then obtain w where w: "st_Value st = Some w" "Digest sha hex w = Some e" using st(2) by (auto simp: row_ok_def)
    have "(c, e) \<in> cl_proposed k g s" using pr [OF r(1)] r(2) by blast
    then have "Round c \<noteq> 0" using inv by (auto simp: cluster_inv_def inv_proposal_def)
    then have "zero_ballot < c" by (rule zero_ballot_least)
    moreover have "Some st \<in> set (map (pr_State \<circ> snd) ps)" using r(1) st(1) by force
    ultimately show ?thesis using st'(1) w by (auto simp: reported_def)
  qed
  have choice: "(\<forall>n \<in> ?Q. ?rep n = None) \<or>
      (\<exists>m \<in> ?Q. \<exists>c. ?rep m = Some (c, d) \<and> (\<forall>n \<in> ?Q. \<forall>c' e'. ?rep n = Some (c', e') \<longrightarrow> c' \<le> c))"
  proof (cases "reported (map (pr_State \<circ> snd) ps) = {}")
    case True
    then have "report r = None" if "(n, r) \<in> set ps" for n r using rep [OF that] by (cases "report r") auto
    then show ?thesis using mo by auto
  next
    case False
    then obtain w where w: "snd (highest (map (pr_State \<circ> snd) ps)) = Some w" using highest_spec(1) by (metis option.exhaust)
    then have "v = w" using val(1) by (auto simp: choose_value_def)
    let ?c = "fst (highest (map (pr_State \<circ> snd) ps))"
    from highest_spec(2) [OF w] have top: "(?c, w) \<in> reported (map (pr_State \<circ> snd) ps)"
      and max: "\<forall>(b', w') \<in> reported (map (pr_State \<circ> snd) ps). b' \<le> ?c" by auto
    from top obtain m r st where m: "(m, r) \<in> set ps" "pr_State r = Some st" "st_Accepted st = ?c" "st_Value st = Some w"
        "zero_ballot < ?c"
      by (clarsimp simp: reported_def) metis
    have "st_ValueDigest st = d"
      using pr [OF m(1)] m(2,4,5) m(3) val(2) \<open>v = w\<close> by (auto simp: row_ok_def split: if_splits)
    with m have "?rep m = Some (?c, d)" by (auto simp: mo report_def)
    moreover have "c' \<le> ?c" if q: "n \<in> ?Q" "?rep n = Some (c', e')" for n c' e'
    proof -
      obtain r' where r': "(n, r') \<in> set ps" using q(1) by auto
      then have "report r' = Some (c', e')" using q(2) by (simp add: mo)
      from rep [OF r' this] max show ?thesis by blast
    qed
    moreover have "m \<in> ?Q" using m(1) by force
    ultimately show ?thesis by blast
  qed
  obtain n r where "(n, r) \<in> set ps" using maj by (cases ps) (auto simp: majority_def MajorityOf_def)
  then have "Round b \<noteq> 0" using pr by blast
  moreover have "justified g ms k s b d"
    unfolding justified_def
  proof (intro exI conjI ballI)
    fix n assume "n \<in> ?Q"
    then obtain r where r: "(n, r) \<in> set ps" by auto
    then show "(n, b, ?rep n) \<in> cl_promised k g s" using ps(2) by (auto simp: mo cl_promised_def)
    show "\<forall>c e. ?rep n = Some (c, e) \<longrightarrow> c < b" using lt [OF r] by (simp add: mo [OF r])
  qed (use maj choice in blast)+
  ultimately show ?thesis by blast
qed

lemma inv_propD:
  "inv_prop s \<Longrightarrow> (k, b, g, v, d) \<in> set (cl_reqs s) \<Longrightarrow> \<exists>i. Coordinator b = pp_Self (cl_prop s i) \<and>
   Nonce b = pp_nonce (cl_prop s i) \<and> pp_bound (cl_prop s i) k (Round b) = Some d"
  by (auto simp: inv_prop_def)

lemma keeps_propose:
  assumes inv: "cluster_inv sha hex g ms k s"
    and spec: "spec_for g ms spec"
    and ps: "distinct (map fst ps)"
      "\<forall>(n, r) \<in> set ps. n \<in> set (s_Voters spec) \<and> (n, s_Key spec, b, s_Generation spec, r) \<in> set (cl_promises s)"
      "s_PrepareQuorum spec \<le> int (length ps)"
    and val: "choose_value spec ps = Inr (v, built)" "Digest sha hex v = Some d"
    and own: "Coordinator b = pp_Self (cl_prop s i)" "Nonce b = pp_nonce (cl_prop s i)"
      "bind (cl_prop s i) (s_Key spec) (Round b) d = (True, p')"
  shows "cluster_inv sha hex g ms k (s\<lparr>cl_prop := (cl_prop s)(i := p'),
      cl_reqs := (s_Key spec, b, s_Generation spec, v, d) # cl_reqs s\<rparr>)"
proof -
  let ?s = "s\<lparr>cl_prop := (cl_prop s)(i := p'), cl_reqs := (s_Key spec, b, s_Generation spec, v, d) # cl_reqs s\<rparr>"
  note bf = bind_fields [OF own(3)]
  have iprop0: "inv_prop s" using inv by (simp add: cluster_inv_def)
  have same: "cl_promised k g ?s = cl_promised k g s" "cl_accepted k g ?s = cl_accepted k g s"
    by (simp_all add: cl_promised_def cl_accepted_def)
  have pp: "cl_proposed k g ?s = (if s_Key spec = k \<and> s_Generation spec = g then insert (b, d) (cl_proposed k g s)
      else cl_proposed k g s)"
    by (auto simp: cl_proposed_def)
  have id: "pp_Self (cl_prop ?s j) = pp_Self (cl_prop s j)" "pp_nonce (cl_prop ?s j) = pp_nonce (cl_prop s j)" for j
    using bf by simp_all
  have bound: "pp_bound (cl_prop s j) key r = Some e \<Longrightarrow> pp_bound (cl_prop ?s j) key r = Some e" for j key r e
    using bf by auto
  have "\<exists>j. Coordinator b' = pp_Self (cl_prop ?s j) \<and> Nonce b' = pp_nonce (cl_prop ?s j) \<and>
      pp_bound (cl_prop ?s j) key (Round b') = Some e" if req: "(key, b', gen, w, e) \<in> set (cl_reqs ?s)" for key b' gen w e
  proof (cases "(key, b', gen, w, e) \<in> set (cl_reqs s)")
    case True
    then obtain j where j: "Coordinator b' = pp_Self (cl_prop s j)" "Nonce b' = pp_nonce (cl_prop s j)"
        "pp_bound (cl_prop s j) key (Round b') = Some e"
      using inv_propD [OF iprop0] by blast
    then show ?thesis unfolding id by (intro exI [of _ j] conjI bound)
  next
    case False
    with req have "key = s_Key spec" "b' = b" "e = d" by auto
    moreover have "pp_bound (cl_prop ?s i) (s_Key spec) (Round b) = Some d" using bf by simp
    ultimately show ?thesis unfolding id using own(1,2) by blast
  qed
  then have req: "\<forall>(key, b', gen, w, e) \<in> set (cl_reqs ?s). \<exists>j. Coordinator b' = pp_Self (cl_prop ?s j) \<and>
      Nonce b' = pp_nonce (cl_prop ?s j) \<and> pp_bound (cl_prop ?s j) key (Round b') = Some e"
    by blast
  have iprop: "inv_prop ?s"
    unfolding inv_prop_def using inv req by (simp only: id) (simp add: cluster_inv_def inv_prop_def)
  have "Round b' \<noteq> 0 \<and> justified g ms k s b' d'" if bd: "(b', d') \<in> cl_proposed k g ?s" for b' d'
  proof (cases "(b', d') \<in> cl_proposed k g s")
    case True
    with inv show ?thesis by (auto simp: cluster_inv_def inv_proposal_def)
  next
    case False
    with bd have eq: "s_Key spec = k" "s_Generation spec = g" "b' = b" "d' = d" by (auto simp: pp split: if_splits)
    have "(b, e) \<notin> cl_proposed k g s" for e
    proof
      assume e: "(b, e) \<in> cl_proposed k g s"
      then obtain w where "(k, b, g, w, e) \<in> set (cl_reqs s)" by (auto simp: cl_proposed_def)
      then obtain j where j: "Coordinator b = pp_Self (cl_prop s j)" "Nonce b = pp_nonce (cl_prop s j)"
          "pp_bound (cl_prop s j) k (Round b) = Some e"
        using inv_propD [OF iprop0] by blast
      then have "j = i" using own(1,2) iprop0 by (simp add: inv_prop_def)
      with j(3) bf eq(1) have "e = d" by auto
      with e False eq show False by simp
    qed
    then show ?thesis
      using propose_justified [OF inv spec eq(1,2) ps(1) _ ps(3) val] ps(2) eq by simp
  qed
  then have "inv_proposal g ms k ?s"
    unfolding inv_proposal_def by (auto simp: justified_def same)
  moreover have sub: "cl_proposed k g s \<subseteq> cl_proposed k g ?s" by (auto simp: pp)
  moreover have "inv_row g ms k ?s"
    using inv unfolding cluster_inv_def inv_row_def same by (simp add: subsetD [OF sub])
  moreover have "inv_promise sha hex g ms k ?s"
    using inv unfolding cluster_inv_def inv_promise_def same by (simp add: subsetD [OF sub])
  moreover have "inv_accept g ms k ?s"
    using inv unfolding cluster_inv_def inv_accept_def same by (simp add: subsetD [OF sub])
  ultimately show ?thesis using inv iprop by (simp add: cluster_inv_def inv_db_def)
qed

lemma cluster_step_keeps:
  "cluster_step sha hex g ms s s' \<Longrightarrow> cluster_inv sha hex g ms k s \<Longrightarrow> cluster_inv sha hex g ms k s'"
proof (induction rule: cluster_step.induct)
  case net_prepare
  then show ?case by (intro keeps_prepare)
next
  case net_ballot
  then show ?case by (intro keeps_ballot)
next
  case net_propose
  then show ?case by (intro keeps_propose)
next
  case net_accept
  then show ?case by (intro keeps_accept)
next
  case net_local
  then show ?case by (intro keeps_local)
qed

lemma cluster_reach_inv: "cluster_reach sha hex g ms k s \<Longrightarrow> cluster_inv sha hex g ms k s"
proof -
  assume "cluster_reach sha hex g ms k s"
  then obtain s0 where "(cluster_step sha hex g ms)\<^sup>*\<^sup>* s0 s" "cluster_inv sha hex g ms k s0"
    by (auto simp: cluster_reach_def dest: cluster_inv_init)
  then show ?thesis by (induction rule: rtranclp_induct) (auto intro: cluster_step_keeps)
qed

section \<open>The protocol satisfies the laws of one decision\<close>

definition member_promised :: "VoterMember list \<Rightarrow> ClaimKey \<Rightarrow> int \<Rightarrow> cluster \<Rightarrow>
    (string \<times> Ballot \<times> (Ballot \<times> string) option) set" where
  "member_promised ms k g s = {(n, b, rep) \<in> cl_promised k g s. n \<in> member_names ms}"

definition member_accepted :: "VoterMember list \<Rightarrow> ClaimKey \<Rightarrow> int \<Rightarrow> cluster \<Rightarrow> (string \<times> Ballot \<times> string) set" where
  "member_accepted ms k g s = {(n, b, d) \<in> cl_accepted k g s. n \<in> member_names ms}"

lemma majority_meet: "majority ms P \<Longrightarrow> majority ms Q \<Longrightarrow> \<exists>n. n \<in> P \<and> n \<in> Q"
proof -
  assume "majority ms P" "majority ms Q"
  then have P: "P \<subseteq> member_names ms" "MajorityOf (length ms) \<le> card P"
    and Q: "Q \<subseteq> member_names ms" "MajorityOf (length ms) \<le> card Q"
    by (auto simp: majority_def)
  have "card (member_names ms) \<le> length ms"
    unfolding member_names_def by (metis card_length length_map set_map)
  moreover have "card (member_names ms) < card P + card Q"
    using P(2) Q(2) calculation unfolding MajorityOf_def by linarith
  ultimately have "P \<inter> Q \<noteq> {}"
    using P(1) Q(1) by (intro overlap_nonempty [of "member_names ms"]) auto
  then show ?thesis by blast
qed

lemma proposed_one_value:
  assumes "inv_prop s" "(b, d) \<in> cl_proposed k g s" "(b, d') \<in> cl_proposed k g s"
  shows "d = d'"
proof -
  obtain v v' where "(k, b, g, v, d) \<in> set (cl_reqs s)" "(k, b, g, v', d') \<in> set (cl_reqs s)"
    using assms(2,3) by (auto simp: cl_proposed_def)
  from inv_propD [OF assms(1) this(1)] inv_propD [OF assms(1) this(2)] obtain i j where
    ij: "Coordinator b = pp_Self (cl_prop s i)" "Nonce b = pp_nonce (cl_prop s i)" "pp_bound (cl_prop s i) k (Round b) = Some d"
      "Coordinator b = pp_Self (cl_prop s j)" "Nonce b = pp_nonce (cl_prop s j)" "pp_bound (cl_prop s j) k (Round b) = Some d'"
    by blast
  then have "i = j" using assms(1) by (simp add: inv_prop_def)
  with ij(3,6) show ?thesis by simp
qed

lemma finite_proposed: "finite (cl_proposed k g s)"
  by (rule finite_subset [of _ "(\<lambda>(k, b, g, v, d). (b, d)) ` set (cl_reqs s)"]) (force simp: cl_proposed_def)+

interpretation rc: single_decree "majority ms" "cluster_reach sha hex g ms k" "member_promised ms k g"
    "cl_proposed k g" "member_accepted ms k g" for sha hex g ms k
proof unfold_locales
  fix s :: cluster and b d d' n b' rep
  show "finite (cl_proposed k g s)" by (rule finite_proposed)
  show "majority ms P \<Longrightarrow> majority ms Q \<Longrightarrow> \<exists>n. n \<in> P \<and> n \<in> Q" for P Q by (rule majority_meet)
  assume reach: "cluster_reach sha hex g ms k s"
  note inv = cluster_reach_inv [OF reach]
  show "(b, d) \<in> cl_proposed k g s \<Longrightarrow> (b, d') \<in> cl_proposed k g s \<Longrightarrow> d = d'"
    using inv by (auto simp: cluster_inv_def dest: proposed_one_value)
  show "(n, b, d) \<in> member_accepted ms k g s \<Longrightarrow> (b, d) \<in> cl_proposed k g s"
    using inv unfolding cluster_inv_def inv_accept_def member_accepted_def by blast
  show "\<exists>c e. rep = Some (c, e) \<and> b \<le> c"
    if pr: "(n, b', rep) \<in> member_promised ms k g s" and "(n, b, d) \<in> member_accepted ms k g s" "b < b'"
  proof -
    obtain r where "(n, k, b', g, r) \<in> set (cl_promises s)" "rep = report r" "n \<in> member_names ms"
      using pr by (auto simp: member_promised_def cl_promised_def)
    moreover have "(n, b, d) \<in> cl_accepted k g s" using that(2) by (simp add: member_accepted_def)
    ultimately show ?thesis using inv that(3) unfolding cluster_inv_def inv_promise_def by blast
  qed
  show "(n, b', Some (b, d)) \<in> member_promised ms k g s \<Longrightarrow> (b, d) \<in> cl_proposed k g s"
  proof -
    assume "(n, b', Some (b, d)) \<in> member_promised ms k g s"
    then obtain r where "(n, k, b', g, r) \<in> set (cl_promises s)" "report r = Some (b, d)" "n \<in> member_names ms"
      by (auto simp: member_promised_def cl_promised_def)
    with inv show ?thesis unfolding cluster_inv_def inv_promise_def by blast
  qed
  assume "(b, d) \<in> cl_proposed k g s"
  then have "justified g ms k s b d" using inv by (auto simp: cluster_inv_def inv_proposal_def)
  then show "\<exists>Q rep. majority ms Q \<and>
      (\<forall>n \<in> Q. (n, b, rep n) \<in> member_promised ms k g s \<and> (\<forall>c e. rep n = Some (c, e) \<longrightarrow> c < b)) \<and>
      ((\<forall>n \<in> Q. rep n = None) \<or>
       (\<exists>m \<in> Q. \<exists>c. rep m = Some (c, d) \<and> (\<forall>n \<in> Q. \<forall>c' e'. rep n = Some (c', e') \<longrightarrow> c' \<le> c)))"
    unfolding justified_def
    by (elim exE conjE, intro exI conjI) (auto simp: member_promised_def majority_def)
qed

section \<open>Certificates\<close>

definition payload_fields :: "ClaimAccept \<Rightarrow> string list" where
  "payload_fields a = accept_fields (a_Key a) (a_ConfigGeneration a) (a_Ballot a) (a_ValueDigest a) (a_Voter a)
     (a_VoterIncarnation a)"

definition payload :: "(bytes \<Rightarrow> bytes) \<Rightarrow> ClaimAccept \<Rightarrow> bytes" where
  "payload sha a = acceptPayload sha (a_Key a) (a_ConfigGeneration a) (a_Ballot a) (a_ValueDigest a) (a_Voter a)
     (a_VoterIncarnation a)"

text \<open>
  What a verifier relies on of the signature scheme: a signature on an accept's payload that
  verifies under the key of a certificate of the cluster's authority was made by the host the
  certificate names, and a voter signs accept payloads only in its Accept.
\<close>

definition authentic :: "(bytes \<Rightarrow> bytes) \<Rightarrow> ClaimVerifier \<Rightarrow> cluster \<Rightarrow> bool" where
  "authentic sha v s \<longleftrightarrow> (\<forall>a c pub. cv_parseCertPEM v (a_CertPEM a) = Some c \<and> cv_chains v c \<and> x_PublicKey c = Some pub \<and>
     cv_VerifyASN1 v pub (payload sha a) (a_Signature a) \<longrightarrow>
     (\<exists>a'. (x_CommonName c, a') \<in> set (cl_accepts s) \<and> payload sha a' = payload sha a))"

text \<open>Of the hash: the accepts at hand have different payloads unless they say the same.\<close>

definition payloads_distinct :: "(bytes \<Rightarrow> bytes) \<Rightarrow> ClaimAccept set \<Rightarrow> bool" where
  "payloads_distinct sha A \<longleftrightarrow> inj_on sha ((\<lambda>a. claimFields (payload_fields a)) ` A) \<and>
     (\<forall>a \<in> A. short_fields (payload_fields a))"

lemma payloads_distinctD:
  assumes "payloads_distinct sha A" "a \<in> A" "a' \<in> A" "payload sha a' = payload sha a"
  shows "a_Key a' = a_Key a" "a_ConfigGeneration a' = a_ConfigGeneration a" "a_Ballot a' = a_Ballot a"
    "a_ValueDigest a' = a_ValueDigest a"
proof -
  have "sha (claimFields (payload_fields a')) = sha (claimFields (payload_fields a))"
    using assms(4) by (simp add: payload_def acceptPayload_def payload_fields_def)
  then have "claimFields (payload_fields a') = claimFields (payload_fields a)"
    using assms(1-3) by (auto simp: payloads_distinct_def dest: inj_onD)
  then have "payload_fields a' = payload_fields a"
    using assms(1-3) by (intro claimFields_inj) (auto simp: payloads_distinct_def)
  from accept_fields_inj [OF this [unfolded payload_fields_def]]
  show "a_Key a' = a_Key a" "a_ConfigGeneration a' = a_ConfigGeneration a" "a_Ballot a' = a_Ballot a"
    "a_ValueDigest a' = a_ValueDigest a" by auto
qed

text \<open>An accept that a verifier counts was given by its voter.\<close>

lemma verified_accept_given:
  assumes "verifyAccept sha v cert a (electorate_map ms) = None" "authentic sha v s" "a \<in> set (ct_Accepts cert)"
    and "payloads_distinct sha (set (ct_Accepts cert) \<union> snd ` set (cl_accepts s))"
  shows "(a_Voter a, ct_Ballot cert, ct_ValueDigest cert) \<in> cl_accepted (ct_Key cert) (ct_ConfigGeneration cert) s"
proof -
  obtain c pub where c: "cv_parseCertPEM v (a_CertPEM a) = Some c" "cv_chains v c" "x_PublicKey c = Some pub"
      "x_CommonName c = a_Voter a" "cv_VerifyASN1 v pub (payload sha a) (a_Signature a)"
    using assms(1) by (auto simp: verifyAccept_def payload_def split: option.splits if_splits)
  then obtain a' where a': "(a_Voter a, a') \<in> set (cl_accepts s)" "payload sha a' = payload sha a"
    using assms(2) unfolding authentic_def by metis
  have "a' \<in> set (ct_Accepts cert) \<union> snd ` set (cl_accepts s)" using a'(1) by force
  from payloads_distinctD [OF assms(4) _ this a'(2)] assms(3)
  have "a_Key a' = a_Key a" "a_ConfigGeneration a' = a_ConfigGeneration a" "a_Ballot a' = a_Ballot a"
    "a_ValueDigest a' = a_ValueDigest a" by auto
  with verifyAccept_sound [OF assms(1)] a'(1) show ?thesis by (force simp: cl_accepted_def)
qed

text \<open>What the certificate of a value decided in a generation must certify, for any value.\<close>

definition decided_by :: "ClaimKey \<Rightarrow> int \<Rightarrow> VoterMember list \<Rightarrow> CertExpectation \<Rightarrow> bool" where
  "decided_by k g ms w \<longleftrightarrow> w_Key w = k \<and> w_ConfigGeneration w = g \<and> w_Electorate w = ms \<and>
     w_Quorum w = int (MajorityOf (length ms))"

lemma certificate_chosen:
  assumes "Verify sha (Some v) cert w = None" "decided_by k g ms w" "authentic sha v s"
    and "payloads_distinct sha (set (ct_Accepts cert) \<union> snd ` set (cl_accepts s))"
  shows "rc.chosen ms k g s (ct_Ballot cert) (ct_ValueDigest cert)"
proof -
  note q = Verify_quorum [OF assms(1)]
  from q(4) obtain Q where Q: "Q \<subseteq> m_Name ` set (w_Electorate w)" "w_Quorum w \<le> int (card Q)"
      "\<forall>q \<in> Q. \<exists>a \<in> set (ct_Accepts cert). a_Voter a = q \<and> verifyAccept sha v cert a (electorate_map (w_Electorate w)) = None"
    by blast
  have "majority ms Q" using Q(1,2) assms(2) by (auto simp: majority_def decided_by_def member_names_def)
  moreover have "(n, ct_Ballot cert, ct_ValueDigest cert) \<in> member_accepted ms k g s" if n: "n \<in> Q" for n
  proof -
    obtain a where a: "a \<in> set (ct_Accepts cert)" "a_Voter a = n" "verifyAccept sha v cert a (electorate_map ms) = None"
      using Q(3) n assms(2) by (auto simp: decided_by_def)
    from verified_accept_given [OF a(3) assms(3) a(1) assms(4)] a(2) q(1,3) assms(2) n Q(1)
    show ?thesis by (auto simp: member_accepted_def decided_by_def member_names_def)
  qed
  ultimately show ?thesis unfolding rc.chosen_def by blast
qed

section \<open>Properties\<close>

text \<open>C1: Agreement: in every run of the protocol from the start of a decision in a voter generation,
  two certificates for the key that verify against the members of the generation, with a majority of
  them as quorum, certify the same value, whichever processes proposed, however messages were
  delayed, repeated or lost, and whatever else the voters did.\<close>

theorem certificates_agree:
  assumes "cluster_reach sha hex g ms k s"
    and "Verify sha (Some v1) c1 w1 = None" "decided_by k g ms w1" "authentic sha v1 s"
    and "Verify sha (Some v2) c2 w2 = None" "decided_by k g ms w2" "authentic sha v2 s"
    and "payloads_distinct sha (set (ct_Accepts c1) \<union> snd ` set (cl_accepts s))"
    and "payloads_distinct sha (set (ct_Accepts c2) \<union> snd ` set (cl_accepts s))"
  shows "ct_ValueDigest c1 = ct_ValueDigest c2"
  using rc.agreement [OF assms(1) certificate_chosen [OF assms(2-4,8)] certificate_chosen [OF assms(5-7,9)]] .

section \<open>Witnesses\<close>

text \<open>A run of one decision: three promises, one proposal by process 0 of host \<open>a\<close>, three accepts.\<close>

definition run_ballot :: Ballot where
  "run_ballot = Ballot 7 ''a'' ''''"

definition run_digest :: string where
  "run_digest = the (Digest demo_sha demo_hex (demo_value ''p'' ''c''))"

definition run_prepare :: "string \<Rightarrow> PrepareResult \<times> voter_db" where
  "run_prepare n = (case ClaimPrepare (demo_voter n) demo_key run_ballot 1 of Inr x \<Rightarrow> x
     | Inl e \<Rightarrow> (refuse_prepare (demo_voter n) '''' RefusalInvalidValue, demo_voter n))"

definition run_accept :: "string \<Rightarrow> AcceptResult \<times> voter_db" where
  "run_accept n = (case ClaimAcceptTx demo_sha (demo_signer n) True (snd (run_prepare n)) demo_key run_ballot
       (demo_value ''p'' ''c'') run_digest 1 of TxDone r db \<Rightarrow> (r, db)
     | _ \<Rightarrow> (refuse_accept (demo_voter n) RefusalInvalidValue, demo_voter n))"

definition run_spec :: Spec where
  "run_spec = demo_spec\<lparr>s_ReuseRound := False\<rparr>"

definition run_accepts :: "(string \<times> ClaimAccept) list" where
  "run_accepts = map (\<lambda>n. (n, the (ar_Accept (fst (run_accept n))))) [''a'', ''b'', ''c'']"

definition run_verifier :: ClaimVerifier where
  "run_verifier = \<lparr>cv_parseCertPEM = (\<lambda>pem. Some \<lparr>x_CommonName = pem, x_SerialNumber = 0, x_PublicKey = Some pem\<rparr>),
     cv_chains = (\<lambda>c. True), cv_IsCertRevoked = (\<lambda>n. False),
     cv_VerifyASN1 = (\<lambda>pub m sig. list_ex (\<lambda>(n, a). n = pub \<and> m = payload demo_sha a \<and> sig = pub @ m) run_accepts),
     cv_historical = False\<rparr>"

definition run_want :: CertExpectation where
  "run_want = \<lparr>w_Key = demo_key, w_ValueDigest = run_digest, w_ConfigGeneration = 1,
     w_Electorate = demo_members [''a'', ''b'', ''c''], w_Quorum = 2\<rparr>"

definition run_certificate :: "(string \<times> ClaimAccept) list \<Rightarrow> ClaimCertificate" where
  "run_certificate as = build_certificate run_spec run_ballot run_digest (demo_value ''p'' ''c'') as"

lemma run_prepares:
  "n \<in> {''a'', ''b'', ''c''} \<Longrightarrow> ClaimPrepare (demo_voter n) demo_key run_ballot 1 = Inr (run_prepare n) \<and> pr_Promised (fst (run_prepare n))"
proof -
  have "\<forall>n \<in> {''a'', ''b'', ''c''}. case ClaimPrepare (demo_voter n) demo_key run_ballot 1 of Inl e \<Rightarrow> False
      | Inr x \<Rightarrow> pr_Promised (fst x)" by code_simp
  then show "n \<in> {''a'', ''b'', ''c''} \<Longrightarrow> ?thesis" by (fastforce simp: run_prepare_def split: sum.splits)
qed

lemma run_accepts_tx:
  "n \<in> {''a'', ''b'', ''c''} \<Longrightarrow> ClaimAcceptTx demo_sha (demo_signer n) True (snd (run_prepare n)) demo_key run_ballot
     (demo_value ''p'' ''c'') run_digest 1 = TxDone (fst (run_accept n)) (snd (run_accept n)) \<and>
   ar_Accepted (fst (run_accept n)) \<and> ar_Accept (fst (run_accept n)) = Some (the (ar_Accept (fst (run_accept n))))"
proof -
  have "\<forall>n \<in> {''a'', ''b'', ''c''}. case ClaimAcceptTx demo_sha (demo_signer n) True (snd (run_prepare n)) demo_key run_ballot
     (demo_value ''p'' ''c'') run_digest 1 of TxDone r db \<Rightarrow> ar_Accepted r \<and> ar_Accept r \<noteq> None | _ \<Rightarrow> False" by code_simp
  then show "n \<in> {''a'', ''b'', ''c''} \<Longrightarrow> ?thesis" by (fastforce simp: run_accept_def split: accept_tx.splits)
qed

lemma run_value: "choose_value run_spec [(''a'', fst (run_prepare ''a'')), (''b'', fst (run_prepare ''b''))] =
    Inr (demo_value ''p'' ''c'', True)"
  by code_simp

lemma run_verifies:
  "Verify demo_sha (Some run_verifier) (run_certificate (take 2 run_accepts)) run_want = None"
  "Verify demo_sha (Some run_verifier) (run_certificate (drop 1 run_accepts)) run_want = None"
  by code_simp+

lemma run_short: "\<forall>a \<in> snd ` set run_accepts. short_fields (payload_fields a)"
  by code_simp

abbreviation run_step :: "cluster \<Rightarrow> cluster \<Rightarrow> bool" where
  "run_step \<equiv> cluster_step demo_sha demo_hex 1 (demo_members [''a'', ''b'', ''c''])"

definition after_prepare :: "string \<Rightarrow> cluster \<Rightarrow> cluster" where
  "after_prepare n s = s\<lparr>cl_db := (cl_db s)(n := snd (run_prepare n)),
     cl_promises := (n, demo_key, run_ballot, 1, fst (run_prepare n)) # cl_promises s\<rparr>"

definition after_propose :: "cluster \<Rightarrow> cluster" where
  "after_propose s = s\<lparr>cl_prop := (cl_prop s)(0 := snd (bind (cl_prop s 0) demo_key 7 run_digest)),
     cl_reqs := (demo_key, run_ballot, 1, demo_value ''p'' ''c'', run_digest) # cl_reqs s\<rparr>"

definition after_accept :: "string \<Rightarrow> cluster \<Rightarrow> cluster" where
  "after_accept n s = s\<lparr>cl_db := (cl_db s)(n := snd (run_accept n)),
     cl_accepts := (n, the (ar_Accept (fst (run_accept n)))) # cl_accepts s\<rparr>"

definition run_start :: cluster where
  "run_start = \<lparr>cl_db = demo_voter, cl_prop = (\<lambda>i. NewProposer ''a'' (replicate i CHR ''x'')), cl_promises = [],
     cl_reqs = [], cl_accepts = []\<rparr>"

definition run_end :: cluster where
  "run_end = after_accept ''c'' (after_accept ''b'' (after_accept ''a'' (after_propose
     (after_prepare ''c'' (after_prepare ''b'' (after_prepare ''a'' run_start))))))"

lemma step_after_prepare:
  assumes "n \<in> {''a'', ''b'', ''c''}" "cl_db s n = demo_voter n"
  shows "run_step s (after_prepare n s)"
proof -
  have "ClaimPrepare (cl_db s n) demo_key run_ballot 1 = Inr (fst (run_prepare n), snd (run_prepare n))"
    using run_prepares [OF assms(1)] assms(2) by simp
  from net_prepare [OF this] run_prepares [OF assms(1)] show ?thesis by (simp add: after_prepare_def)
qed

lemma run_digest_value: "Digest demo_sha demo_hex (demo_value ''p'' ''c'') = Some run_digest"
  by (simp add: run_digest_def Digest_def demo_value_def)

lemma step_after_propose:
  assumes "cl_prop s 0 = NewProposer ''a'' ''''"
    and "\<forall>n \<in> {''a'', ''b''}. (n, demo_key, run_ballot, 1, fst (run_prepare n)) \<in> set (cl_promises s)"
  shows "run_step s (after_propose s)"
proof -
  let ?ps = "[(''a'', fst (run_prepare ''a'')), (''b'', fst (run_prepare ''b''))]"
  have spec: "spec_for 1 (demo_members [''a'', ''b'', ''c'']) run_spec" "s_Key run_spec = demo_key" "s_Generation run_spec = 1"
      "s_PrepareQuorum run_spec = 2" "s_Voters run_spec = [''a'', ''b'', ''c'']"
    by (simp_all add: spec_for_def run_spec_def demo_spec_def member_names_def demo_members_def MajorityOf_def)
  obtain p' where p': "bind (cl_prop s 0) demo_key (Round run_ballot) run_digest = (True, p')"
    by (simp add: bind_def assms(1) NewProposer_def)
  have "run_step s (s\<lparr>cl_prop := (cl_prop s)(0 := p'),
      cl_reqs := (s_Key run_spec, run_ballot, s_Generation run_spec, demo_value ''p'' ''c'', run_digest) # cl_reqs s\<rparr>)"
    by (rule net_propose [where ps = ?ps, OF spec(1) _ _ _ run_value run_digest_value])
       (use assms p' in \<open>auto simp: spec run_ballot_def NewProposer_def\<close>)
  moreover have "snd (bind (cl_prop s 0) demo_key 7 run_digest) = p'" using p' by (simp add: run_ballot_def)
  ultimately show ?thesis by (simp add: after_propose_def spec)
qed

lemma step_after_accept:
  assumes "n \<in> {''a'', ''b'', ''c''}" "cl_db s n = snd (run_prepare n)"
    and "(demo_key, run_ballot, 1, demo_value ''p'' ''c'', run_digest) \<in> set (cl_reqs s)"
  shows "run_step s (after_accept n s)"
proof -
  note tx = run_accepts_tx [OF assms(1)]
  have "Round run_ballot \<noteq> 0" "sg_Name (demo_signer n) = n" by (simp_all add: run_ballot_def demo_signer_def)
  from net_accept [OF assms(3) this(1) run_digest_value this(2), of True] tx assms(2)
  have "run_step s (s\<lparr>cl_db := (cl_db s)(n := snd (run_accept n)),
      cl_accepts := (case ar_Accept (fst (run_accept n)) of Some a \<Rightarrow> if ar_Accepted (fst (run_accept n)) then [(n, a)] else []
        | None \<Rightarrow> []) @ cl_accepts s\<rparr>)" by simp
  then show ?thesis using tx by (simp add: after_accept_def split: option.splits)
qed

lemma run_reach: "cluster_reach demo_sha demo_hex 1 (demo_members [''a'', ''b'', ''c'']) demo_key run_end"
proof -
  let ?s3 = "after_prepare ''c'' (after_prepare ''b'' (after_prepare ''a'' run_start))"
  let ?s4 = "after_propose ?s3"
  note defs = after_prepare_def after_propose_def after_accept_def run_start_def
  let ?s1 = "after_prepare ''a'' run_start"
  let ?s2 = "after_prepare ''b'' ?s1"
  let ?s5 = "after_accept ''a'' ?s4"
  let ?s6 = "after_accept ''b'' ?s5"
  have "run_step run_start ?s1" "run_step ?s1 ?s2" "run_step ?s2 ?s3"
    by (rule step_after_prepare; simp add: defs)+
  moreover have "run_step ?s3 ?s4" by (rule step_after_propose) (simp_all add: defs)
  moreover have "run_step ?s4 ?s5" "run_step ?s5 ?s6" "run_step ?s6 run_end"
    unfolding run_end_def by (rule step_after_accept; simp add: defs)+
  ultimately have "run_step\<^sup>*\<^sup>* run_start run_end"
    by (iprover intro: converse_rtranclp_into_rtranclp rtranclp.rtrancl_refl)
  moreover have "cluster_init demo_sha demo_hex 1 (demo_members [''a'', ''b'', ''c'']) demo_key run_start"
  proof -
    have "replicate i CHR ''x'' = replicate j CHR ''x'' \<Longrightarrow> i = j" for i j by (metis length_replicate)
    then show ?thesis
      by (auto simp: cluster_init_def run_start_def NewProposer_def row_of_conv claim_row_def demo_voter_def
          AdoptedVoterGeneration_def voter_ok_def)
  qed
  ultimately show ?thesis by (auto simp: cluster_reach_def)
qed

lemma run_end_accepts: "set (cl_accepts run_end) = set run_accepts"
  by (auto simp: run_end_def after_prepare_def after_propose_def after_accept_def run_start_def run_accepts_def)

theorem certificates_agree_witness:
  "ct_ValueDigest (run_certificate (take 2 run_accepts)) = ct_ValueDigest (run_certificate (drop 1 run_accepts))"
proof (rule certificates_agree [OF run_reach run_verifies(1) _ _ run_verifies(2)])
  show "decided_by demo_key 1 (demo_members [''a'', ''b'', ''c'']) run_want"
    "decided_by demo_key 1 (demo_members [''a'', ''b'', ''c'']) run_want"
    by (simp_all add: decided_by_def run_want_def demo_members_def MajorityOf_def)
  show "authentic demo_sha run_verifier run_end" "authentic demo_sha run_verifier run_end"
    by (auto simp: authentic_def run_end_accepts run_verifier_def list_ex_iff)
  have "payloads_distinct demo_sha (set (ct_Accepts (run_certificate as)) \<union> snd ` set (cl_accepts run_end))"
    if "set as \<subseteq> set run_accepts" for as
    using that run_short
    by (auto simp: payloads_distinct_def run_certificate_def run_end_accepts inj_on_def demo_sha_def)
  then show "payloads_distinct demo_sha (set (ct_Accepts (run_certificate (take 2 run_accepts))) \<union> snd ` set (cl_accepts run_end))"
    "payloads_distinct demo_sha (set (ct_Accepts (run_certificate (drop 1 run_accepts))) \<union> snd ` set (cl_accepts run_end))"
    by (simp_all add: set_take_subset set_drop_subset)
qed

end
