(* ===== verification/GoStrings.thy ===== *)
theory GoStrings
  imports Prelude "HOL-Library.Sublist"
begin

text \<open>
  The parts of \<^verbatim>\<open>strings\<close> and \<^verbatim>\<open>strconv\<close> several components use: numbers in decimal, trimming,
  splitting at white space or at a byte, joining, and the index of a byte.
\<close>

section \<open>Numbers\<close>

text \<open>\<open>strconv.ParseInt(s, 10, 64)\<close>: an optional sign, at least one digit, in range.\<close>

definition ParseInt :: "string \<Rightarrow> int option" where
  "ParseInt s =
     (case s of [] \<Rightarrow> None
      | c # cs \<Rightarrow>
          let neg = (c = CHR ''-''); ds = (if c = CHR ''-'' \<or> c = CHR ''+'' then cs else s) in
          if ds = [] then None
          else case digits_val 0 ds of None \<Rightarrow> None
               | Some n \<Rightarrow> let i = (if neg then - int n else int n) in
                   if in_i64 i then Some i else None)"

lemma ParseInt_code [code]:
  "ParseInt s =
     (case s of [] \<Rightarrow> None
      | c # cs \<Rightarrow>
          let neg = (c = CHR ''-''); ds = (if c = CHR ''-'' \<or> c = CHR ''+'' then cs else s) in
          if ds = [] then None
          else case digits_int 0 ds of None \<Rightarrow> None
               | Some n \<Rightarrow> let i = (if neg then - n else n) in
                   if in_i64 i then Some i else None)"
proof -
  have "digits_int 0 ds = map_option int (digits_val 0 ds)" for ds
    using digits_int_val [of 0 ds] by simp
  then show ?thesis unfolding ParseInt_def Let_def by (simp only: case_map_option comp_def)
qed

text \<open>\<open>strconv.ParseUint(s, 10, 16)\<close>: digits only, in range.\<close>

definition ParseUint16 :: "string \<Rightarrow> u16 option" where
  "ParseUint16 s =
     (if s = [] then None
      else case digits_val 0 s of None \<Rightarrow> None
           | Some n \<Rightarrow> if n < 2 ^ 16 then Some (of_nat n) else None)"

lemma ParseUint16_code [code]:
  "ParseUint16 s =
     (if s = [] then None
      else case digits_int 0 s of None \<Rightarrow> None
           | Some n \<Rightarrow> if n < 65536 then Some (word_of_int n) else None)"
proof -
  have "digits_int 0 s = map_option int (digits_val 0 s)" using digits_int_val [of 0 s] by simp
  then show ?thesis by (auto simp: ParseUint16_def split: option.splits)
qed

section \<open>White space\<close>

text \<open>
  \<open>strings.TrimSpace\<close>: the UTF-8 encodings of the characters \<open>unicode.IsSpace\<close> accepts, stripped
  from both ends.
\<close>

definition space_seqs :: "string list" where
  "space_seqs =
     [[CHR 0x09], [CHR 0x0A], [CHR 0x0B], [CHR 0x0C], [CHR 0x0D], [CHR 0x20],
      [CHR 0xC2, CHR 0x85], [CHR 0xC2, CHR 0xA0], [CHR 0xE1, CHR 0x9A, CHR 0x80],
      [CHR 0xE2, CHR 0x80, CHR 0x80], [CHR 0xE2, CHR 0x80, CHR 0x81], [CHR 0xE2, CHR 0x80, CHR 0x82],
      [CHR 0xE2, CHR 0x80, CHR 0x83], [CHR 0xE2, CHR 0x80, CHR 0x84], [CHR 0xE2, CHR 0x80, CHR 0x85],
      [CHR 0xE2, CHR 0x80, CHR 0x86], [CHR 0xE2, CHR 0x80, CHR 0x87], [CHR 0xE2, CHR 0x80, CHR 0x88],
      [CHR 0xE2, CHR 0x80, CHR 0x89], [CHR 0xE2, CHR 0x80, CHR 0x8A], [CHR 0xE2, CHR 0x80, CHR 0xA8],
      [CHR 0xE2, CHR 0x80, CHR 0xA9], [CHR 0xE2, CHR 0x80, CHR 0xAF], [CHR 0xE2, CHR 0x81, CHR 0x9F],
      [CHR 0xE3, CHR 0x80, CHR 0x80]]"

function strip_prefixes :: "string list \<Rightarrow> string \<Rightarrow> string" where
  "strip_prefixes ps s =
     (case find (\<lambda>p. p \<noteq> [] \<and> prefix p s) ps of
        None \<Rightarrow> s
      | Some p \<Rightarrow> strip_prefixes ps (drop (length p) s))"
  by pat_completeness auto
termination
  by (relation "measure (length \<circ> snd)") (auto simp: find_Some_iff prefix_def)

declare strip_prefixes.simps [simp del]

definition TrimSpace :: "string \<Rightarrow> string" where
  "TrimSpace s = rev (strip_prefixes (map rev space_seqs) (rev (strip_prefixes space_seqs s)))"

text \<open>\<open>strings.Fields\<close>: the non-empty pieces between runs of white space; \<open>w\<close> is the piece read so far, reversed.\<close>

function fields_from :: "string \<Rightarrow> string \<Rightarrow> string list" where
  "fields_from w s =
     (let piece = (if w = [] then [] else [rev w]) in
      if s = [] then piece
      else case find (\<lambda>p. prefix p s) space_seqs of
             Some p \<Rightarrow> piece @ fields_from [] (drop (length p) s)
           | None \<Rightarrow> fields_from (hd s # w) (tl s))"
  by pat_completeness auto
termination
proof (relation "measure (length \<circ> snd)")
  fix w s p
  assume "s \<noteq> []" "find (\<lambda>p. prefix p s) space_seqs = Some p"
  moreover have "[] \<notin> set space_seqs" by (simp add: space_seqs_def)
  ultimately have "p \<noteq> []" "s \<noteq> []" by (auto simp: find_Some_iff dest: nth_mem)
  then show "(([], drop (length p) s), (w, s)) \<in> measure (length \<circ> snd)" by simp
qed auto

declare fields_from.simps [simp del]

definition Fields :: "string \<Rightarrow> string list" where
  "Fields s = fields_from [] s"

section \<open>Splitting at a separator\<close>

fun split_on :: "char \<Rightarrow> string \<Rightarrow> string list" where
  "split_on c [] = [[]]"
| "split_on c (x # s) =
     (if x = c then [] # split_on c s
      else case split_on c s of [] \<Rightarrow> [[x]] | w # ws \<Rightarrow> (x # w) # ws)"

fun join :: "char \<Rightarrow> string list \<Rightarrow> string" where
  "join c [] = []"
| "join c [w] = w"
| "join c (w # ws) = w @ c # join c ws"

lemma split_not_Nil [simp]: "split_on c s \<noteq> []"
  by (induction s) (auto split: list.splits)

lemma split_not_Nil' [simp]: "[] \<noteq> split_on c s"
  by (metis split_not_Nil)

lemma split_append: "split_on c (s @ c # t) = split_on c s @ split_on c t"
  by (induction s) (auto split: list.splits simp: Cons_eq_append_conv)

lemma join_Cons: "ws \<noteq> [] \<Longrightarrow> join c (w # ws) = w @ c # join c ws"
  by (cases ws) auto

lemma join_append: "vs \<noteq> [] \<Longrightarrow> ws \<noteq> [] \<Longrightarrow> join c (vs @ ws) = join c vs @ c # join c ws"
proof (induction vs)
  case (Cons v vs)
  then show ?case by (cases "vs = []") (simp_all add: join_Cons)
qed simp

lemma join_split [simp]: "join c (split_on c s) = s"
proof (induction s)
  case (Cons x s)
  then show ?case
    by (cases "split_on c s"; cases "tl (split_on c s)") (auto simp: join_Cons)
qed simp

lemma split_inj [simp]: "split_on c s = split_on c t \<longleftrightarrow> s = t"
  by (metis join_split)

lemma prefix_sep: "prefix (s @ [c]) t \<longleftrightarrow> strict_prefix (split_on c s) (split_on c t)"
proof
  assume "prefix (s @ [c]) t"
  then obtain r where "t = s @ c # r" by (auto simp: prefix_def)
  then show "strict_prefix (split_on c s) (split_on c t)" by (simp add: split_append strict_prefix_def)
next
  assume "strict_prefix (split_on c s) (split_on c t)"
  then obtain ys where "split_on c t = split_on c s @ ys" "ys \<noteq> []" by (auto simp: strict_prefix_def prefix_def simp del: split_inj)
  then have "t = s @ c # join c ys" by (metis join_append join_split split_not_Nil)
  then show "prefix (s @ [c]) t" by (simp add: prefix_def)
qed

lemma suffix_sep: "suffix (c # s) t \<longleftrightarrow> strict_suffix (split_on c s) (split_on c t)"
proof
  assume "suffix (c # s) t"
  then obtain r where "t = r @ c # s" by (auto simp: suffix_def)
  then show "strict_suffix (split_on c s) (split_on c t)" by (simp add: split_append strict_suffix_def suffix_def)
next
  assume "strict_suffix (split_on c s) (split_on c t)"
  then obtain ys where "split_on c t = ys @ split_on c s" "ys \<noteq> []" by (auto simp: strict_suffix_def suffix_def simp del: split_inj)
  then have "t = join c ys @ c # s" by (metis join_append join_split split_not_Nil)
  then show "suffix (c # s) t" by (simp add: suffix_def)
qed

section \<open>The index of a byte\<close>

fun indexByte :: "char \<Rightarrow> string \<Rightarrow> nat option" where
  "indexByte c [] = None"
| "indexByte c (x # s) = (if x = c then Some 0 else map_option Suc (indexByte c s))"

definition lastIndexByte :: "char \<Rightarrow> string \<Rightarrow> nat option" where
  "lastIndexByte c s = map_option (\<lambda>i. length s - 1 - i) (indexByte c (rev s))"

end
