(* ===== verification/Hlc.thy ===== *)
theory Hlc
  imports GoStrings
begin

text \<open>
  The hybrid logical clock of \<^verbatim>\<open>internal/hlc/clock.go\<close>: timestamps with their wire
  format and order, and the clock with its two advancing operations \<open>Now\<close> and \<open>Update\<close>,
  the logical overflow that spills into the physical part, and the durable physical ceiling.

  The mutex makes every method atomic, so a method is a function from the clock to the
  clock. What the method reads from outside is an argument: \<open>wall\<close> is
  \<^verbatim>\<open>nowFn().UnixMilli()\<close>, and \<open>ok i\<close> says whether the \<open>i\<close>-th call of the injected
  \<^verbatim>\<open>persist\<close> returned nil. A method returns \<open>None\<close> when \<^verbatim>\<open>persistFatal\<close> ended the
  process.
\<close>

section \<open>Timestamps\<close>

datatype Timestamp = Timestamp (PhysicalMS: int) (Logical: u16) (NodeID: string)

text \<open>\<open>fmt.Sprintf("%013d-%04d-%s", ...)\<close>: the width of a negative number counts its sign.\<close>

definition fmt_int :: "nat \<Rightarrow> int \<Rightarrow> string" where
  "fmt_int w i =
     (if i < 0 then CHR ''-'' # pad0 (w - 1) (dec (nat (- i))) else pad0 w (dec (nat i)))"

definition Timestamp_String :: "Timestamp \<Rightarrow> string" where
  "Timestamp_String t =
     fmt_int 13 (PhysicalMS t) @ ''-'' @ pad0 4 (dec (unat (Logical t))) @ ''-'' @ NodeID t"

definition After :: "Timestamp \<Rightarrow> Timestamp \<Rightarrow> bool" where
  "After t other =
     (if PhysicalMS t \<noteq> PhysicalMS other then PhysicalMS t > PhysicalMS other
      else if Logical t \<noteq> Logical other then Logical t > Logical other
      else NodeID t > NodeID other)"

definition Timestamp_IsZero :: "Timestamp \<Rightarrow> bool" where
  "Timestamp_IsZero t \<longleftrightarrow> PhysicalMS t = 0 \<and> Logical t = 0 \<and> NodeID t = ''''"

lemma fmt_int_code [code]:
  "fmt_int w i = (if i < 0 then CHR ''-'' # pad0 (w - 1) (dec_int (- i)) else pad0 w (dec_int i))"
  by (simp add: fmt_int_def dec_nat)

definition Parse :: "string \<Rightarrow> Timestamp option" where
  "Parse s =
     (if length s < 20 then None
      else if s ! 13 \<noteq> CHR ''-'' \<or> s ! 18 \<noteq> CHR ''-'' then None
      else case ParseInt (take 13 s) of None \<Rightarrow> None
      | Some phys \<Rightarrow>
          (case ParseUint16 (take 4 (drop 14 s)) of None \<Rightarrow> None
           | Some logical \<Rightarrow>
               let nodeID = drop 19 s in
               if nodeID = '''' then None else Some (Timestamp phys logical nodeID)))"

definition IsHLC :: "string \<Rightarrow> bool" where
  "IsHLC s \<longleftrightarrow> Parse s \<noteq> None"

text \<open>\<open>After\<close> is a strict total order, so it is the order of the type.\<close>

instantiation Timestamp :: linorder
begin

definition less_Timestamp :: "Timestamp \<Rightarrow> Timestamp \<Rightarrow> bool" where
  "less_Timestamp a b \<longleftrightarrow> After b a"

definition less_eq_Timestamp :: "Timestamp \<Rightarrow> Timestamp \<Rightarrow> bool" where
  "less_eq_Timestamp a b \<longleftrightarrow> a = b \<or> After b a"

instance
proof
  fix x y z :: Timestamp
  show "x < y \<longleftrightarrow> x \<le> y \<and> \<not> y \<le> x"
    by (auto simp: less_Timestamp_def less_eq_Timestamp_def After_def split: if_splits)
  show "x \<le> x" by (simp add: less_eq_Timestamp_def)
  show "x \<le> y \<Longrightarrow> y \<le> z \<Longrightarrow> x \<le> z"
    by (auto simp: less_eq_Timestamp_def After_def split: if_splits)
  show "x \<le> y \<Longrightarrow> y \<le> x \<Longrightarrow> x = y"
    by (auto simp: less_eq_Timestamp_def After_def split: if_splits)
  show "x \<le> y \<or> y \<le> x"
    by (cases x; cases y) (auto simp: less_eq_Timestamp_def After_def not_less)
qed

end

lemma Timestamp_less_iff:
  "Timestamp p l n < Timestamp p' l' n' \<longleftrightarrow> p < p' \<or> p = p' \<and> (l < l' \<or> l = l' \<and> n < n')"
  by (auto simp: less_Timestamp_def After_def)

lemma After_irrefl: "\<not> After t t"
  by (simp add: After_def)

section \<open>The clock\<close>

definition MaxSkewMS :: int where
  "MaxSkewMS = 5 * 60 * 1000"

definition hlcPersistAheadMS :: int where
  "hlcPersistAheadMS = 2000"

definition hlcPersistRetries :: nat where
  "hlcPersistRetries = 3"

definition hlcMaxLogical :: u16 where
  "hlcMaxLogical = 9999"

text \<open>
  \<open>persist\<close> says whether a persist function is wired. \<open>persistFatal\<close> is \<open>None\<close> for nil,
  \<open>Some True\<close> for the production callback, which exits, and \<open>Some False\<close> for a callback
  that returns.
\<close>

record Clock =
  nodeID :: string
  lastPhys :: int
  lastLog :: u16
  rejected :: u64
  ceilMS :: int
  persist :: bool
  persistFatal :: "bool option"

definition NewClock :: "string \<Rightarrow> Clock" where
  "NewClock n = \<lparr>nodeID = n, lastPhys = 0, lastLog = 0, rejected = 0, ceilMS = 0,
     persist = False, persistFatal = None\<rparr>"

definition SetPersistence :: "Clock \<Rightarrow> int \<Rightarrow> bool \<Rightarrow> bool option \<Rightarrow> Clock" where
  "SetPersistence c floorMS persistFn fatal =
     (let c = (if floorMS > lastPhys c then c\<lparr>lastPhys := floorMS, lastLog := 0\<rparr> else c)
      in c\<lparr>ceilMS := floorMS, persist := persistFn, persistFatal := fatal\<rparr>)"

function normalizeLogicalLocked :: "Clock \<Rightarrow> Clock" where
  "normalizeLogicalLocked c =
     (if lastLog c > hlcMaxLogical
      then normalizeLogicalLocked
        (c\<lparr>lastPhys := wrap64 (lastPhys c + 1), lastLog := lastLog c - (hlcMaxLogical + 1)\<rparr>)
      else c)"
  by pat_completeness auto
termination
proof (relation "measure (\<lambda>c. unat (lastLog c))", goal_cases)
  case (2 c)
  then have "(10000 :: u16) \<le> lastLog c"
    by (simp add: hlcMaxLogical_def word_less_nat_alt word_le_nat_alt)
  then show ?case by (simp add: hlcMaxLogical_def unat_sub word_le_nat_alt)
qed simp

declare normalizeLogicalLocked.simps [simp del]

text \<open>The retry loop: the first attempt that succeeds ends it.\<close>

primrec persist_attempts :: "(nat \<Rightarrow> bool) \<Rightarrow> nat \<Rightarrow> bool" where
  "persist_attempts ok 0 = False"
| "persist_attempts ok (Suc n) = (persist_attempts ok n \<or> ok n)"

definition persistAheadLocked :: "(nat \<Rightarrow> bool) \<Rightarrow> Clock \<Rightarrow> Clock option" where
  "persistAheadLocked ok c =
     (if \<not> persist c \<or> lastPhys c \<le> ceilMS c then Some c
      else let newCeil = wrap64 (lastPhys c + hlcPersistAheadMS) in
        if persist_attempts ok hlcPersistRetries then Some (c\<lparr>ceilMS := newCeil\<rparr>)
        else if persistFatal c = Some True then None
        else Some (if lastPhys c > ceilMS c then c\<lparr>lastPhys := ceilMS c\<rparr> else c))"

definition afterAdvanceLocked :: "(nat \<Rightarrow> bool) \<Rightarrow> Clock \<Rightarrow> Clock option" where
  "afterAdvanceLocked ok c = persistAheadLocked ok (normalizeLogicalLocked c)"

definition stamp :: "Clock \<Rightarrow> Timestamp" where
  "stamp c = Timestamp (lastPhys c) (lastLog c) (nodeID c)"

definition advance_local :: "int \<Rightarrow> Clock \<Rightarrow> Clock" where
  "advance_local phys c =
     (if phys > lastPhys c then c\<lparr>lastPhys := phys, lastLog := 0\<rparr>
      else c\<lparr>lastLog := lastLog c + 1\<rparr>)"

definition Clock_Now :: "int \<Rightarrow> (nat \<Rightarrow> bool) \<Rightarrow> Clock \<Rightarrow> (Timestamp \<times> Clock) option" where
  "Clock_Now wall ok c =
     map_option (\<lambda>c. (stamp c, c)) (afterAdvanceLocked ok (advance_local wall c))"

definition advance_remote :: "int \<Rightarrow> Timestamp \<Rightarrow> Clock \<Rightarrow> Clock" where
  "advance_remote phys remote c =
     (if phys > lastPhys c \<and> phys > PhysicalMS remote then c\<lparr>lastPhys := phys, lastLog := 0\<rparr>
      else if PhysicalMS remote > lastPhys c
        then c\<lparr>lastPhys := PhysicalMS remote, lastLog := Logical remote + 1\<rparr>
      else if lastPhys c > PhysicalMS remote then c\<lparr>lastLog := lastLog c + 1\<rparr>
      else if Logical remote > lastLog c then c\<lparr>lastLog := Logical remote + 1\<rparr>
      else c\<lparr>lastLog := lastLog c + 1\<rparr>)"

definition Clock_Update ::
  "int \<Rightarrow> (nat \<Rightarrow> bool) \<Rightarrow> Timestamp \<Rightarrow> Clock \<Rightarrow> (Timestamp \<times> Clock) option" where
  "Clock_Update wall ok remote c =
     (if wrap64 (PhysicalMS remote - wall) > MaxSkewMS
      then map_option (\<lambda>c. (stamp c, c))
        (afterAdvanceLocked ok (advance_local wall (c\<lparr>rejected := rejected c + 1\<rparr>)))
      else map_option (\<lambda>c. (stamp c, c)) (afterAdvanceLocked ok (advance_remote wall remote c)))"

section \<open>The wire format\<close>

text \<open>The timestamps the fixed-width format can carry.\<close>

definition wire_ok :: "Timestamp \<Rightarrow> bool" where
  "wire_ok t \<longleftrightarrow> 0 \<le> PhysicalMS t \<and> PhysicalMS t < 10 ^ 13 \<and> Logical t \<le> hlcMaxLogical \<and> NodeID t \<noteq> ''''"

lemma wire_okD:
  assumes "wire_ok t"
  shows "fmt_int 13 (PhysicalMS t) = fixw 13 (nat (PhysicalMS t))"
    and "pad0 4 (dec (unat (Logical t))) = fixw 4 (unat (Logical t))"
    and "nat (PhysicalMS t) < 10 ^ 13" and "unat (Logical t) < 10 ^ 4"
proof -
  show a: "nat (PhysicalMS t) < 10 ^ 13" and b: "unat (Logical t) < 10 ^ 4"
    using assms by (simp_all add: wire_ok_def hlcMaxLogical_def word_le_nat_alt nat_less_iff)
  show "fmt_int 13 (PhysicalMS t) = fixw 13 (nat (PhysicalMS t))"
    using assms pad0_dec [OF a] by (simp add: wire_ok_def fmt_int_def)
  show "pad0 4 (dec (unat (Logical t))) = fixw 4 (unat (Logical t))"
    using pad0_dec [OF b] by simp
qed

lemma Timestamp_String_less:
  assumes "wire_ok t" "wire_ok u"
  shows "Timestamp_String t < Timestamp_String u \<longleftrightarrow> t < u"
proof -
  note w = wire_okD [OF assms(1)] wire_okD [OF assms(2)]
  have p: "nat (PhysicalMS t) < nat (PhysicalMS u) \<longleftrightarrow> PhysicalMS t < PhysicalMS u"
    and pe: "nat (PhysicalMS t) = nat (PhysicalMS u) \<longleftrightarrow> PhysicalMS t = PhysicalMS u"
    using assms by (auto simp: wire_ok_def)
  show ?thesis
    using w p pe by (cases t; cases u)
      (simp add: Timestamp_String_def less_append_same_length fixw_less fixw_inj Timestamp_less_iff
        word_less_nat_alt word_unat_eq_iff)
qed

lemma hd_fixw: "0 < w \<Longrightarrow> \<exists>d ds. fixw w n = d # ds \<and> is_digit d"
proof (induction w arbitrary: n)
  case (Suc w)
  show ?case
  proof (cases w)
    case (Suc v)
    then obtain d ds where "fixw w (n div 10) = d # ds" "is_digit d"
      using Suc.IH [of "n div 10"] by auto
    then show ?thesis by simp
  qed simp
qed simp

lemma ParseInt_fixw:
  assumes "n < 10 ^ 13" shows "ParseInt (fixw 13 n) = Some (int n)"
proof -
  obtain d ds where d: "fixw 13 n = d # ds" "is_digit d" using hd_fixw [of 13 n] by auto
  then have "d \<noteq> CHR ''-''" "d \<noteq> CHR ''+''" by (auto simp: is_digit_def)
  moreover have "in_i64 (int n)" using assms by (simp add: in_i64_def)
  moreover have "digits_val 0 (d # ds) = Some n" using digits_val_fixw [OF assms, of 0] d by simp
  ultimately show ?thesis unfolding d(1) by (simp add: ParseInt_def Let_def del: digits_val.simps)
qed

lemma ParseUint16_fixw:
  assumes "unat l < 10 ^ 4" shows "ParseUint16 (fixw 4 (unat l)) = Some l"
proof -
  have "fixw 4 (unat l) \<noteq> []" by (metis length_0_conv length_fixw zero_neq_numeral)
  then show ?thesis using digits_val_fixw [OF assms, of 0] assms
    by (simp add: ParseUint16_def)
qed

lemma Parse_fixw:
  assumes "p < 10 ^ 13" "unat l < 10 ^ 4" "n \<noteq> ''''"
  shows "Parse (fixw 13 p @ ''-'' @ fixw 4 (unat l) @ ''-'' @ n) = Some (Timestamp (int p) l n)"
proof -
  let ?s = "fixw 13 p @ ''-'' @ fixw 4 (unat l) @ ''-'' @ n"
  have "20 \<le> length ?s" using assms(3) by (cases n) auto
  moreover have "?s ! 13 = CHR ''-''" "?s ! 18 = CHR ''-''" by (simp_all add: nth_append)
  moreover have "take 13 ?s = fixw 13 p" "take 4 (drop 14 ?s) = fixw 4 (unat l)" "drop 19 ?s = n"
    by simp_all
  ultimately show ?thesis
    using assms ParseInt_fixw [OF assms(1)] ParseUint16_fixw [OF assms(2)]
    by (simp add: Parse_def Let_def)
qed


section \<open>Advancing the clock\<close>

text \<open>
  With a logical part below 10000, a clock position is one number of ticks, and comparing
  two positions of one node is comparing their ticks. Normalising keeps the ticks.
\<close>

definition ticks :: "int \<Rightarrow> u16 \<Rightarrow> int" where
  "ticks p l = p * 10000 + uint l"

definition clock_ticks :: "Clock \<Rightarrow> int" where
  "clock_ticks c = ticks (lastPhys c) (lastLog c)"

definition clock_ok :: "Clock \<Rightarrow> bool" where
  "clock_ok c \<longleftrightarrow> lastLog c \<le> hlcMaxLogical"

lemma clock_ok_uint [clock_simps]: "clock_ok c \<longleftrightarrow> uint (lastLog c) \<le> 9999"
  by (simp add: clock_ok_def hlcMaxLogical_def word_le_def)

lemma ticks_less:
  assumes "uint l \<le> 9999" "uint l' \<le> 9999"
  shows "Timestamp p l n < Timestamp p' l' n \<longleftrightarrow> ticks p l < ticks p' l'"
proof -
  have "0 \<le> uint l" "0 \<le> uint l'" by simp_all
  then have "ticks p l < ticks p' l' \<longleftrightarrow> p < p' \<or> p = p' \<and> uint l < uint l'"
    using assms unfolding ticks_def by linarith
  then show ?thesis by (auto simp: Timestamp_less_iff word_less_def)
qed

lemma ticks_order:
  assumes "uint (Logical r) \<le> 9999" "uint l \<le> 9999" "ticks (PhysicalMS r) (Logical r) < ticks p l"
  shows "After (Timestamp p l n) r"
  using assms ticks_less [OF assms(1,2), of "PhysicalMS r" "[]" p]
  by (auto simp: Timestamp_less_iff After_def word_less_def word_uint_eq_iff)

lemma normalize_small [simp]: "clock_ok c \<Longrightarrow> normalizeLogicalLocked c = c"
  by (simp add: normalizeLogicalLocked.simps [of c] clock_ok_def not_less)

lemma normalize_next:
  "\<not> clock_ok c \<Longrightarrow> normalizeLogicalLocked c = normalizeLogicalLocked
     (c\<lparr>lastPhys := wrap64 (lastPhys c + 1), lastLog := lastLog c - 10000\<rparr>)"
  by (simp add: normalizeLogicalLocked.simps [of c] clock_ok_def not_less hlcMaxLogical_def)

text \<open>The loop keeps the ticks, ends with a logical part below 10000, and touches nothing else.\<close>

lemma normalize_spec:
  assumes "0 \<le> lastPhys c" "lastPhys c + uint (lastLog c) div 10000 < 2 ^ 63"
  shows "clock_ok (normalizeLogicalLocked c) \<and>
    clock_ticks (normalizeLogicalLocked c) = clock_ticks c \<and>
    lastPhys c \<le> lastPhys (normalizeLogicalLocked c) \<and>
    (\<exists>p l. normalizeLogicalLocked c = c\<lparr>lastPhys := p, lastLog := l\<rparr>)"
  using assms
proof (induction c rule: normalizeLogicalLocked.induct)
  case (1 c)
  let ?d = "c\<lparr>lastPhys := wrap64 (lastPhys c + 1), lastLog := lastLog c - (hlcMaxLogical + 1)\<rparr>"
  show ?case
  proof (cases "clock_ok c")
    case True
    then have "normalizeLogicalLocked c = c\<lparr>lastPhys := lastPhys c, lastLog := lastLog c\<rparr>" by simp
    then have "\<exists>p l. normalizeLogicalLocked c = c\<lparr>lastPhys := p, lastLog := l\<rparr>" by blast
    then show ?thesis using True by simp
  next
    case False
    then have gt: "lastLog c > hlcMaxLogical" by (simp add: clock_ok_def)
    then have big: "10000 \<le> uint (lastLog c)"
      by (simp add: hlcMaxLogical_def word_less_def)
    then have sub: "uint (lastLog c - 10000) = uint (lastLog c) - 10000"
      using uint_sub_lem [of "10000" "lastLog c"] by simp
    have div: "uint (lastLog c) div 10000 = 1 + (uint (lastLog c) - 10000) div 10000"
      using div_add_self2 [of 10000 "uint (lastLog c) - 10000"] by simp
    have "0 \<le> (uint (lastLog c) - 10000) div 10000" using big by simp
    then have p: "wrap64 (lastPhys c + 1) = lastPhys c + 1"
      using "1.prems" div by (intro wrap64_id) (simp add: in_i64_def)
    have "0 \<le> lastPhys ?d" "lastPhys ?d + uint (lastLog ?d) div 10000 < 2 ^ 63"
      using "1.prems" p div sub by (simp_all add: hlcMaxLogical_def)
    note IH = "1.IH" [OF gt this]
    have eq: "normalizeLogicalLocked c = normalizeLogicalLocked ?d"
      using gt by (simp add: normalizeLogicalLocked.simps [of c])
    have "clock_ticks ?d = clock_ticks c"
      using p sub big by (simp add: clock_ticks_def ticks_def hlcMaxLogical_def)
    then show ?thesis using IH p unfolding eq by auto
  qed
qed

text \<open>
  A clock is durable at a step when nothing is persisted, when the commit succeeds, or when a
  failed commit ends the process. Only then are the values it returns the ones it reached.
\<close>

definition durable :: "Clock \<Rightarrow> (nat \<Rightarrow> bool) \<Rightarrow> bool" where
  "durable c ok \<longleftrightarrow> \<not> persist c \<or> persistFatal c = Some True \<or> persist_attempts ok hlcPersistRetries"

lemma persistAhead_spec:
  assumes "persistAheadLocked ok c = Some c'" "durable c ok"
    "0 \<le> lastPhys c" "lastPhys c < 2 ^ 63 - 2000"
  shows "lastPhys c' = lastPhys c" "lastLog c' = lastLog c" "nodeID c' = nodeID c"
    "persist c' = persist c" "persistFatal c' = persistFatal c" "rejected c' = rejected c"
    "ceilMS c \<le> ceilMS c'" "persist c \<Longrightarrow> lastPhys c' \<le> ceilMS c'"
proof -
  have "wrap64 (lastPhys c + hlcPersistAheadMS) = lastPhys c + 2000"
    using assms(3,4) by (simp add: hlcPersistAheadMS_def in_i64_def)
  then show "lastPhys c' = lastPhys c" "lastLog c' = lastLog c" "nodeID c' = nodeID c"
    "persist c' = persist c" "persistFatal c' = persistFatal c" "rejected c' = rejected c"
    "ceilMS c \<le> ceilMS c'" "persist c \<Longrightarrow> lastPhys c' \<le> ceilMS c'"
    using assms(1,2)
    by (auto simp: persistAheadLocked_def durable_def Let_def split: if_splits)
qed

lemma durable_fields [simp]:
  "durable (c\<lparr>lastPhys := p, lastLog := l\<rparr>) ok = durable c ok"
  by (simp add: durable_def)

lemma afterAdvance_spec:
  assumes "afterAdvanceLocked ok c = Some c'" "durable c ok"
    "0 \<le> lastPhys c" "lastPhys c < 2 ^ 63 - 3000"
  shows "clock_ok c'" "clock_ticks c' = clock_ticks c" "nodeID c' = nodeID c"
    "persist c' = persist c" "persistFatal c' = persistFatal c" "lastPhys c \<le> lastPhys c'"
    "rejected c' = rejected c" "ceilMS c \<le> ceilMS c'" "persist c \<Longrightarrow> lastPhys c' \<le> ceilMS c'"
proof -
  let ?n = "normalizeLogicalLocked c"
  have lt: "uint (lastLog c) < 65536" using unsigned_less [of "lastLog c", where 'a = int] by simp
  then have d: "uint (lastLog c) div 10000 \<le> 6" by simp
  then have b: "lastPhys c + uint (lastLog c) div 10000 < 2 ^ 63" using assms(4) by simp
  note n = normalize_spec [OF assms(3) b]
  then obtain p l where pl: "?n = c\<lparr>lastPhys := p, lastLog := l\<rparr>" by blast
  have tk: "clock_ticks ?n = clock_ticks c" and ge: "lastPhys c \<le> lastPhys ?n" using n by auto
  have "lastPhys ?n * 10000 \<le> lastPhys c * 10000 + uint (lastLog c)"
  proof -
    have "0 \<le> uint (lastLog ?n)" by simp
    then show ?thesis using tk unfolding clock_ticks_def ticks_def by linarith
  qed
  then have hi: "lastPhys ?n < 2 ^ 63 - 2000" using assms(4) lt by simp
  have pa: "persistAheadLocked ok ?n = Some c'" using assms(1) by (simp add: afterAdvanceLocked_def)
  have du: "durable ?n ok" using assms(2) pl by simp
  have lo: "0 \<le> lastPhys ?n" using ge assms(3) by simp
  note P = persistAhead_spec [OF pa du lo hi]
  show "nodeID c' = nodeID c" "persist c' = persist c" "persistFatal c' = persistFatal c"
    "rejected c' = rejected c" "ceilMS c \<le> ceilMS c'" "persist c \<Longrightarrow> lastPhys c' \<le> ceilMS c'"
    "lastPhys c \<le> lastPhys c'"
    using P pl ge by simp_all
  show "clock_ok c'" using n P by (simp add: clock_ok_def)
  show "clock_ticks c' = clock_ticks c" using tk P by (simp add: clock_ticks_def)
qed


text \<open>Both ways to advance move past the clock's own position; adopting a remote moves past it too.\<close>

lemma uint_succ: "uint (l :: u16) \<le> 9999 \<Longrightarrow> uint (l + 1) = uint l + 1"
  using uint_add_lem [of l 1] by simp

lemma advance_local_ticks:
  assumes "clock_ok c"
  shows "clock_ticks c < clock_ticks (advance_local phys c)"
    and "lastPhys (advance_local phys c) = max phys (lastPhys c)"
  using assms by (auto simp: advance_local_def clock_ticks_def ticks_def clock_simps uint_succ)

lemma ticks_phys_less:
  "p < p' \<Longrightarrow> uint l \<le> 9999 \<Longrightarrow> ticks p l < ticks p' l'"
proof -
  assume "p < p'" "uint l \<le> 9999"
  moreover have "0 \<le> uint l'" by simp
  ultimately show ?thesis unfolding ticks_def by linarith
qed

lemma ticks_log_less: "ticks p l < ticks p l' \<longleftrightarrow> uint l < uint l'"
  by (simp add: ticks_def)

lemma advance_remote_ticks:
  assumes "clock_ok c" "uint (Logical remote) \<le> 9999"
  shows "clock_ticks c < clock_ticks (advance_remote phys remote c)"
    and "ticks (PhysicalMS remote) (Logical remote) < clock_ticks (advance_remote phys remote c)"
    and "lastPhys c \<le> lastPhys (advance_remote phys remote c)"
    and "lastPhys (advance_remote phys remote c) \<le> max (lastPhys c) (max phys (PhysicalMS remote))"
proof -
  note d = advance_remote_def clock_ticks_def uint_succ ticks_phys_less ticks_log_less
  show "clock_ticks c < clock_ticks (advance_remote phys remote c)"
    using assms by (cases rule: linorder_cases [of "lastPhys c" "PhysicalMS remote"])
      (simp_all add: d clock_simps word_less_def)
  show "ticks (PhysicalMS remote) (Logical remote) < clock_ticks (advance_remote phys remote c)"
    using assms by (cases rule: linorder_cases [of "lastPhys c" "PhysicalMS remote"])
      (simp_all add: d clock_simps word_less_def)
qed (auto simp: advance_remote_def)

text \<open>A remote the skew check lets through is at most \<open>MaxSkewMS\<close> ahead, wrap-around included.\<close>

lemma skew_accepted:
  assumes "\<not> wrap64 (r - wall) > MaxSkewMS" "in_i64 r" "0 \<le> wall" "wall \<le> 2 ^ 62"
  shows "r \<le> wall + MaxSkewMS"
proof (cases "r - wall < - (2 ^ 63)")
  case True
  then have "r \<le> 0" using assms by (simp add: in_i64_def)
  then show ?thesis using assms by (simp add: MaxSkewMS_def)
next
  case False
  then have "in_i64 (r - wall)" using assms by (simp add: in_i64_def)
  then show ?thesis using assms(1) by simp
qed


section \<open>Sequences of calls\<close>

text \<open>
  Calls of one clock are serialised by its mutex, so an execution is a list of calls, each
  with what it read from outside. It ends early when a failed commit ends the process.
\<close>

datatype clock_event = NowEv int "nat \<Rightarrow> bool" | UpdateEv int "nat \<Rightarrow> bool" Timestamp

fun clock_step :: "clock_event \<Rightarrow> Clock \<Rightarrow> (Timestamp \<times> Clock) option" where
  "clock_step (NowEv wall ok) c = Clock_Now wall ok c"
| "clock_step (UpdateEv wall ok remote) c = Clock_Update wall ok remote c"

fun clock_run :: "Clock \<Rightarrow> clock_event list \<Rightarrow> Timestamp list \<times> Clock" where
  "clock_run c [] = ([], c)"
| "clock_run c (e # es) =
     (case clock_step e c of None \<Rightarrow> ([], c)
      | Some (t, c') \<Rightarrow> (case clock_run c' es of (ts, d) \<Rightarrow> (t # ts, d)))"

text \<open>
  Wall clocks read between the epoch and the year 146 million; remote timestamps are
  \<open>int64\<close> values with a logical part as \<open>Parse\<close> returns it.
\<close>

fun event_ok :: "clock_event \<Rightarrow> bool" where
  "event_ok (NowEv wall ok) \<longleftrightarrow> 0 \<le> wall \<and> wall \<le> 2 ^ 62"
| "event_ok (UpdateEv wall ok r) \<longleftrightarrow>
     0 \<le> wall \<and> wall \<le> 2 ^ 62 \<and> in_i64 (PhysicalMS r) \<and> Logical r \<le> hlcMaxLogical"

text \<open>The production wiring: in memory only, or persisted with a fatal callback that exits.\<close>

definition production :: "Clock \<Rightarrow> bool" where
  "production c \<longleftrightarrow> (persist c \<longrightarrow> persistFatal c = Some True)"

lemma production_durable: "production c \<Longrightarrow> durable c ok"
  by (auto simp: production_def durable_def)

lemma advance_log_le: "clock_ok c \<Longrightarrow> uint (lastLog (advance_local p c)) \<le> 10000"
  by (auto simp: advance_local_def clock_simps uint_succ)

lemma advance_remote_log_le:
  "clock_ok c \<Longrightarrow> uint (Logical r) \<le> 9999 \<Longrightarrow> uint (lastLog (advance_remote p r c)) \<le> 10000"
  by (auto simp: advance_remote_def clock_simps uint_succ)

lemma advance_frame [simp]:
  "nodeID (advance_local p c) = nodeID c" "persist (advance_local p c) = persist c"
  "persistFatal (advance_local p c) = persistFatal c" "ceilMS (advance_local p c) = ceilMS c"
  "nodeID (advance_remote p r c) = nodeID c" "persist (advance_remote p r c) = persist c"
  "persistFatal (advance_remote p r c) = persistFatal c" "ceilMS (advance_remote p r c) = ceilMS c"
  by (auto simp: advance_local_def advance_remote_def)

lemma production_frame [simp]:
  "production (advance_local p c) = production c" "production (advance_remote p r c) = production c"
  "production (c\<lparr>rejected := n\<rparr>) = production c"
  by (simp_all add: production_def)

lemma rejected_frame [simp]:
  "clock_ok (c\<lparr>rejected := n\<rparr>) = clock_ok c" "clock_ticks (c\<lparr>rejected := n\<rparr>) = clock_ticks c"
  "stamp (c\<lparr>rejected := n\<rparr>) = stamp c"
  by (simp_all add: clock_ok_def clock_ticks_def stamp_def)

text \<open>What every call of a clock does, given the state it advanced to.\<close>

definition step_facts :: "Clock \<Rightarrow> Clock \<Rightarrow> Clock \<Rightarrow> bool" where
  "step_facts c a c' \<longleftrightarrow> clock_ok c' \<and> stamp c < stamp c' \<and> nodeID c' = nodeID c \<and>
     persist c' = persist c \<and> persistFatal c' = persistFatal c \<and> lastPhys c \<le> lastPhys c' \<and>
     lastPhys c' \<le> lastPhys a + 1 \<and> ceilMS c \<le> ceilMS c' \<and> clock_ticks c' = clock_ticks a \<and>
     (persist c \<longrightarrow> lastPhys c' \<le> ceilMS c')"

lemma advance_step:
  assumes run: "afterAdvanceLocked ok a = Some c'" and ok: "clock_ok c" and prod: "production a"
    and adv: "clock_ticks c < clock_ticks a" "lastPhys c \<le> lastPhys a" "uint (lastLog a) \<le> 10000"
    and frame: "nodeID a = nodeID c" "persist a = persist c" "persistFatal a = persistFatal c"
      "ceilMS a = ceilMS c"
    and range: "0 \<le> lastPhys c" "lastPhys a < 2 ^ 63 - 3000"
  shows "step_facts c a c'"
proof -
  have lo: "0 \<le> lastPhys a" using adv range by simp
  note A = afterAdvance_spec [OF run production_durable [OF prod] lo range(2)]
  have "stamp c < stamp c'"
    using ok A adv frame ticks_less [of "lastLog c" "lastLog c'"]
    by (simp add: stamp_def clock_simps clock_ticks_def)
  moreover have "lastPhys c' \<le> lastPhys a + 1"
  proof -
    have "0 \<le> uint (lastLog c')" by simp
    then show ?thesis using A(2) adv(3) unfolding clock_ticks_def ticks_def by linarith
  qed
  ultimately show ?thesis using A adv frame by (auto simp: step_facts_def)
qed

definition phys_bound :: "clock_event \<Rightarrow> Clock \<Rightarrow> int" where
  "phys_bound e c = max (lastPhys c) (2 ^ 62 + MaxSkewMS) + 1"

lemma clock_step_spec:
  assumes step: "clock_step e c = Some (t, c')" and ev: "event_ok e" and ok: "clock_ok c"
    and prod: "production c" and range: "0 \<le> lastPhys c" "lastPhys c < 2 ^ 63 - 3000"
  shows "t = stamp c' \<and> clock_ok c' \<and> production c' \<and> stamp c < t \<and> nodeID c' = nodeID c \<and>
    persist c' = persist c \<and> lastPhys c \<le> lastPhys c' \<and> lastPhys c' \<le> phys_bound e c \<and>
    ceilMS c \<le> ceilMS c' \<and> (persist c \<longrightarrow> lastPhys c' \<le> ceilMS c')"
proof -
  have key: "?thesis" if
    run: "afterAdvanceLocked ok' a = Some c'" and t: "t = stamp c'"
    and a: "production a" "clock_ticks c < clock_ticks a" "lastPhys c \<le> lastPhys a"
      "uint (lastLog a) \<le> 10000" "nodeID a = nodeID c" "persist a = persist c"
      "persistFatal a = persistFatal c" "ceilMS a = ceilMS c"
      "lastPhys a \<le> max (lastPhys c) (2 ^ 62 + MaxSkewMS)" for ok' a
  proof -
    have "lastPhys a < 2 ^ 63 - 3000" using a(9) range by (simp add: MaxSkewMS_def)
    from advance_step [OF run ok a(1) a(2-8) range(1) this] show ?thesis
      using t a(9) prod by (auto simp: step_facts_def phys_bound_def production_def)
  qed
  show ?thesis
  proof (cases e)
    case (NowEv wall ok')
    with step have "afterAdvanceLocked ok' (advance_local wall c) = Some c'" "t = stamp c'"
      by (auto simp: Clock_Now_def)
    then show ?thesis using NowEv ev prod ok
      by (intro key [of ok' "advance_local wall c"])
        (auto simp: advance_local_ticks advance_log_le MaxSkewMS_def)
  next
    case (UpdateEv wall ok' r)
    let ?r = "c\<lparr>rejected := rejected c + 1\<rparr>"
    have log: "uint (Logical r) \<le> 9999"
      using ev UpdateEv by (simp add: hlcMaxLogical_def word_le_def)
    show ?thesis
    proof (cases "wrap64 (PhysicalMS r - wall) > MaxSkewMS")
      case True
      with step UpdateEv have "afterAdvanceLocked ok' (advance_local wall ?r) = Some c'" "t = stamp c'"
        by (auto simp: Clock_Update_def)
      moreover have "clock_ok ?r" using ok by simp
      ultimately show ?thesis using UpdateEv ev prod advance_local_ticks [of ?r wall]
          advance_log_le [of ?r wall]
        by (intro key [of ok' "advance_local wall ?r"]) (auto simp: MaxSkewMS_def)
    next
      case False
      then have "PhysicalMS r \<le> wall + MaxSkewMS"
        using ev UpdateEv by (intro skew_accepted) auto
      moreover from False step UpdateEv
      have "afterAdvanceLocked ok' (advance_remote wall r c) = Some c'" "t = stamp c'"
        by (auto simp: Clock_Update_def)
      ultimately show ?thesis using UpdateEv ev prod ok log advance_remote_ticks [OF ok log, of wall]
          advance_remote_log_le [OF ok log, of wall]
        by (intro key [of ok' "advance_remote wall r c"]) (auto simp: MaxSkewMS_def)
    qed
  qed
qed


text \<open>The invariant of a whole execution, and the room it leaves for \<open>k\<close> more calls.\<close>

definition clock_room :: "nat \<Rightarrow> Clock \<Rightarrow> bool" where
  "clock_room k c \<longleftrightarrow> clock_ok c \<and> production c \<and> 0 \<le> lastPhys c \<and>
     lastPhys c + int k < 2 ^ 63 - 3000 \<and> 2 ^ 62 + MaxSkewMS + int k < 2 ^ 63 - 3000"

lemma clock_room_step:
  assumes "clock_room (Suc k) c" "event_ok e" "clock_step e c = Some (t, c')"
  shows "clock_room k c'"
  using clock_step_spec [OF assms(3,2)] assms(1)
  by (auto simp: clock_room_def phys_bound_def)

lemma clock_run_spec:
  assumes "clock_room (length es) c" "list_all event_ok es" "clock_run c es = (ts, d)"
  shows "sorted_wrt (<) (stamp c # ts) \<and> ceilMS c \<le> ceilMS d \<and>
    (\<forall>t \<in> set ts. NodeID t = nodeID c \<and> Logical t \<le> hlcMaxLogical \<and> 0 \<le> PhysicalMS t \<and>
      (persist c \<longrightarrow> PhysicalMS t \<le> ceilMS d))"
  using assms
proof (induction es arbitrary: c ts)
  case (Cons e es)
  show ?case
  proof (cases "clock_step e c")
    case (Some r)
    then obtain t c' where st: "clock_step e c = Some (t, c')" by (cases r) auto
    with Cons.prems obtain ts' where run: "clock_run c' es = (ts', d)" and ts: "ts = t # ts'"
      by (auto split: prod.splits)
    have room: "clock_room (length es) c'"
      using clock_room_step [of "length es" c e t c'] Cons.prems st by simp
    have "clock_ok c" "production c" "0 \<le> lastPhys c" "lastPhys c < 2 ^ 63 - 3000" "event_ok e"
      using Cons.prems by (auto simp: clock_room_def)
    then have S: "t = stamp c' \<and> clock_ok c' \<and> production c' \<and> stamp c < t \<and> nodeID c' = nodeID c \<and>
      persist c' = persist c \<and> lastPhys c \<le> lastPhys c' \<and> lastPhys c' \<le> phys_bound e c \<and>
      ceilMS c \<le> ceilMS c' \<and> (persist c \<longrightarrow> lastPhys c' \<le> ceilMS c')"
      using clock_step_spec [OF st] by blast
    from Cons.IH [OF room _ run] Cons.prems(2)
    have IH: "sorted_wrt (<) (stamp c' # ts') \<and> ceilMS c' \<le> ceilMS d \<and>
      (\<forall>t \<in> set ts'. NodeID t = nodeID c' \<and> Logical t \<le> hlcMaxLogical \<and> 0 \<le> PhysicalMS t \<and>
        (persist c' \<longrightarrow> PhysicalMS t \<le> ceilMS d))" by simp
    from S IH room show ?thesis
      unfolding ts by (auto simp: stamp_def clock_ok_def clock_room_def)
  qed (use Cons.prems in auto)
qed simp

text \<open>The two branches of \<open>Update\<close>: a remote rejected for skew, and one that is taken in.\<close>

lemma Update_rejected:
  assumes up: "Clock_Update wall ok remote c = Some (t, c')"
    and ev: "event_ok (UpdateEv wall ok remote)" and room: "clock_room 1 c"
    and skew: "wrap64 (PhysicalMS remote - wall) > MaxSkewMS"
  shows "rejected c' = rejected c + 1" "lastPhys c' \<le> max wall (lastPhys c) + 1"
proof -
  let ?c = "c\<lparr>rejected := rejected c + 1\<rparr>"
  let ?a = "advance_local wall ?c"
  have run: "afterAdvanceLocked ok ?a = Some c'" using up skew by (auto simp: Clock_Update_def)
  have okc: "clock_ok ?c" and pra: "production ?a" using room by (simp_all add: clock_room_def)
  have pa: "lastPhys ?a = max wall (lastPhys c)" using advance_local_ticks(2) [OF okc] by simp
  have la: "0 \<le> lastPhys ?a" and ha: "lastPhys ?a < 2 ^ 63 - 3000"
    using pa ev room by (auto simp: clock_room_def max_def)
  show "rejected c' = rejected c + 1"
    using afterAdvance_spec(7) [OF run production_durable [OF pra] la ha]
    by (simp add: advance_local_def)
  have "step_facts ?c ?a c'"
    using advance_local_ticks [OF okc] advance_log_le [OF okc] room ha
    by (intro advance_step [OF run okc pra]) (simp_all add: clock_room_def)
  then show "lastPhys c' \<le> max wall (lastPhys c) + 1" using pa by (simp add: step_facts_def)
qed

lemma Update_adopted:
  assumes up: "Clock_Update wall ok remote c = Some (t, c')"
    and ev: "event_ok (UpdateEv wall ok remote)" and room: "clock_room 1 c"
    and skew: "\<not> wrap64 (PhysicalMS remote - wall) > MaxSkewMS"
  shows "rejected c' = rejected c" "After t remote"
proof -
  let ?a = "advance_remote wall remote c"
  have ok: "clock_ok c" and pra: "production ?a" using room by (simp_all add: clock_room_def)
  have log: "uint (Logical remote) \<le> 9999" using ev by (simp add: hlcMaxLogical_def word_le_def)
  note R = advance_remote_ticks [OF ok log, of wall]
  have run: "afterAdvanceLocked ok ?a = Some c'" and t: "t = stamp c'"
    using up skew by (auto simp: Clock_Update_def)
  have "PhysicalMS remote \<le> wall + MaxSkewMS" using skew ev by (intro skew_accepted) auto
  then have ha: "lastPhys ?a < 2 ^ 63 - 3000" using R(4) ev room by (auto simp: MaxSkewMS_def clock_room_def)
  have la: "0 \<le> lastPhys ?a" using R(3) room by (simp add: clock_room_def)
  show "rejected c' = rejected c"
    using afterAdvance_spec(7) [OF run production_durable [OF pra] la ha] by (simp add: advance_remote_def)
  have "step_facts c ?a c'"
    using R advance_remote_log_le [OF ok log] room ha
    by (intro advance_step [OF run ok pra]) (simp_all add: clock_room_def)
  then have "ticks (PhysicalMS remote) (Logical remote) < clock_ticks c'" "clock_ok c'"
    using R(2) by (simp_all add: step_facts_def)
  then show "After t remote"
    using ticks_order [OF log, of "lastLog c'"] t by (simp add: stamp_def clock_simps clock_ticks_def)
qed

text \<open>
  A restart: the new process raises a fresh clock to the durable ceiling its predecessor left.
\<close>

definition restart :: "Clock \<Rightarrow> Clock" where
  "restart d = SetPersistence (NewClock (nodeID d)) (ceilMS d) True (Some True)"

lemma restart_simps [simp]:
  "0 < ceilMS d \<Longrightarrow> lastPhys (restart d) = ceilMS d" "lastLog (restart d) = 0"
  "nodeID (restart d) = nodeID d" "production (restart d)" "ceilMS (restart d) = ceilMS d"
  "clock_ok (restart d)"
  by (simp_all add: restart_def SetPersistence_def NewClock_def production_def clock_ok_def Let_def)

section \<open>Properties\<close>

text \<open>C19: every timestamp the fixed-width wire format can carry is read back unchanged:
  \<open>Parse\<close> inverts \<open>String\<close> whenever the physical part has at most 13 digits, the logical
  part at most 4, and the node identifier is not empty.\<close>

theorem Parse_String_roundtrip:
  assumes "wire_ok t"
  shows "Parse (Timestamp_String t) = Some t"
proof -
  note w = wire_okD [OF assms]
  have "Timestamp_String t = fixw 13 (nat (PhysicalMS t)) @ ''-'' @ fixw 4 (unat (Logical t)) @ ''-'' @ NodeID t"
    using w by (simp add: Timestamp_String_def)
  then show ?thesis
    using Parse_fixw [OF w(3,4), of "NodeID t"] assms by (cases t) (simp add: wire_ok_def)
qed

theorem Parse_String_roundtrip_witness:
  "wire_ok (Timestamp 1710633600000 3 ''node1'') \<and>
   Parse (Timestamp_String (Timestamp 1710633600000 3 ''node1'')) = Some (Timestamp 1710633600000 3 ''node1'')"
proof -
  have h: "wire_ok (Timestamp 1710633600000 3 ''node1'')"
    by (simp add: wire_ok_def hlcMaxLogical_def word_le_def)
  show ?thesis using h Parse_String_roundtrip [OF h] by simp
qed

text \<open>C18: the serialised form is lexicographically sortable: comparing the strings of two
  timestamps the format can carry is comparing the timestamps with \<open>After\<close>.\<close>

theorem String_order_is_After:
  assumes "wire_ok t" "wire_ok u"
  shows "Timestamp_String t < Timestamp_String u \<longleftrightarrow> After u t"
  using Timestamp_String_less [OF assms] by (simp add: less_Timestamp_def)

theorem String_order_is_After_witness:
  "wire_ok (Timestamp 999 9999 ''b'') \<and> wire_ok (Timestamp 1000 0 ''a'') \<and>
   Timestamp_String (Timestamp 999 9999 ''b'') < Timestamp_String (Timestamp 1000 0 ''a'')"
proof -
  have h: "wire_ok (Timestamp 999 9999 ''b'')" "wire_ok (Timestamp 1000 0 ''a'')"
    by (simp_all add: wire_ok_def hlcMaxLogical_def word_le_def)
  show ?thesis using h String_order_is_After [OF h] by (simp add: After_def)
qed

text \<open>C9: for as long as the process lives, the timestamps a clock returns from any sequence of
  \<open>Now\<close> and \<open>Update\<close> calls are strictly increasing, whatever the wall clock and the remote
  timestamps do and whichever remotes are rejected for skew, and each of them is in the range the wire
  format's logical field can carry. The room condition says the physical part is at least
  3000 ms plus one per call below the end of \<open>int64\<close>.\<close>

theorem clock_run_strictly_increasing:
  assumes "clock_room (length es) c" "list_all event_ok es"
  shows "sorted_wrt (<) (stamp c # fst (clock_run c es)) \<and>
    (\<forall>t \<in> set (fst (clock_run c es)). NodeID t = nodeID c \<and> Logical t \<le> hlcMaxLogical)"
proof -
  obtain ts d where r: "clock_run c es = (ts, d)" by (cases "clock_run c es")
  from clock_run_spec [OF assms this] show ?thesis by (simp add: r)
qed

text \<open>A run with a wall clock that steps back and a remote at the end of its logical range.\<close>

definition demo_events :: "clock_event list" where
  "demo_events = [NowEv 1000 (\<lambda>_. True), NowEv 400 (\<lambda>_. True),
     UpdateEv 900 (\<lambda>_. True) (Timestamp 1000 9999 ''n2''), UpdateEv 900 (\<lambda>_. True) (Timestamp 900000 7 ''n2'')]"

lemma demo_room: "clock_room (length demo_events) (NewClock ''n1'')" "list_all event_ok demo_events"
  by (simp_all add: demo_events_def clock_room_def NewClock_def clock_ok_def hlcMaxLogical_def
      production_def MaxSkewMS_def in_i64_def word_le_def)

theorem clock_run_strictly_increasing_witness:
  "list_all event_ok demo_events \<and>
   sorted_wrt (<) (stamp (NewClock ''n1'') # fst (clock_run (NewClock ''n1'') demo_events))"
  using clock_run_strictly_increasing [OF demo_room] demo_room by blast

text \<open>\<open>Update\<close> returns a timestamp after both the local clock and the remote one whenever
  the remote is not rejected for skew; a rejected remote is counted, its physical time is
  not adopted, and the result still orders after the local clock.\<close>

theorem Update_after_both:
  assumes "Clock_Update wall ok remote c = Some (t, c')"
    "event_ok (UpdateEv wall ok remote)" "clock_room 1 c"
  shows "After t (stamp c) \<and>
    (if wrap64 (PhysicalMS remote - wall) > MaxSkewMS
     then rejected c' = rejected c + 1 \<and> lastPhys c' \<le> max wall (lastPhys c) + 1
     else rejected c' = rejected c \<and> After t remote)"
proof -
  have "clock_step (UpdateEv wall ok remote) c = Some (t, c')" using assms(1) by simp
  then have "stamp c < t"
    using clock_step_spec [of "UpdateEv wall ok remote" c t c'] assms(2,3) by (auto simp: clock_room_def)
  then show ?thesis
    using Update_rejected [OF assms] Update_adopted [OF assms] by (simp add: less_Timestamp_def)
qed

theorem Update_after_both_witness:
  "After (Timestamp 1001 0 ''n1'') (Timestamp 1000 9999 ''n2'')"
proof -
  let ?c = "NewClock ''n1''" and ?r = "Timestamp 1000 9999 ''n2''"
  let ?d = "?c\<lparr>lastPhys := 1001\<rparr>"
  have big: "\<not> clock_ok (?c\<lparr>lastPhys := 1000, lastLog := 10000\<rparr>)" "clock_ok ?d"
    by (simp_all add: clock_simps NewClock_def)
  have h1: "Clock_Update 900 (\<lambda>_. True) ?r ?c = Some (stamp ?d, ?d)"
    using big normalize_next [OF big(1)]
    by (simp add: Clock_Update_def MaxSkewMS_def in_i64_def advance_remote_def afterAdvanceLocked_def
        persistAheadLocked_def NewClock_def)
  have h2: "event_ok (UpdateEv 900 (\<lambda>_. True) ?r)"
    by (simp add: in_i64_def hlcMaxLogical_def)
  have h3: "clock_room 1 ?c"
    by (simp add: clock_room_def NewClock_def clock_ok_def production_def MaxSkewMS_def)
  show ?thesis using Update_after_both [OF h1 h2 h3]
    by (simp add: MaxSkewMS_def in_i64_def stamp_def NewClock_def)
qed


text \<open>
  The run of the witness: a persisted clock reads 1000, commits the ceiling 3000, reads exactly
  3000 twice and stops; the restarted process reads a wall clock that was stepped back to 2000.
\<close>

definition boundary_clock :: Clock where
  "boundary_clock = SetPersistence (NewClock ''n1'') 0 True (Some True)"

definition boundary_events :: "clock_event list" where
  "boundary_events = [NowEv 1000 (\<lambda>_. True), NowEv 3000 (\<lambda>_. True), NowEv 3000 (\<lambda>_. True)]"

definition boundary_final :: Clock where
  "boundary_final = \<lparr>nodeID = ''n1'', lastPhys = 3000, lastLog = 1, rejected = 0, ceilMS = 3000,
     persist = True, persistFatal = Some True\<rparr>"

lemmas boundary_defs = boundary_clock_def boundary_events_def boundary_final_def NewClock_def
  SetPersistence_def restart_def Let_def

lemma Clock_Now_small:
  "clock_ok (advance_local wall c) \<Longrightarrow>
   Clock_Now wall ok c = map_option (\<lambda>c. (stamp c, c)) (persistAheadLocked ok (advance_local wall c))"
  by (simp add: Clock_Now_def afterAdvanceLocked_def)

lemma boundary_run:
  "clock_run boundary_clock boundary_events =
     ([Timestamp 1000 0 ''n1'', Timestamp 3000 0 ''n1'', Timestamp 3000 1 ''n1''], boundary_final)"
  by (simp add: boundary_defs Clock_Now_small clock_ok_def hlcMaxLogical_def advance_local_def
      persistAheadLocked_def hlcPersistRetries_def numeral_3_eq_3 hlcPersistAheadMS_def in_i64_def stamp_def)

lemma boundary_restart:
  "Clock_Now 2000 (\<lambda>_. True) (restart boundary_final) =
     Some (Timestamp 3000 1 ''n1'', boundary_final)"
  by (simp add: boundary_defs Clock_Now_small clock_ok_def hlcMaxLogical_def advance_local_def
      persistAheadLocked_def stamp_def)

lemma boundary_ok: "clock_room (length boundary_events) boundary_clock"
  "list_all event_ok boundary_events" "persist boundary_clock" "ceilMS boundary_final \<le> 2 ^ 62"
  by (simp_all add: boundary_defs clock_room_def clock_ok_def production_def MaxSkewMS_def)


text \<open>at the ceiling itself a restart can repeat a timestamp: the clock may emit physical
  values equal to the durable ceiling with logical parts 0, 1, ... without committing a higher
  one, and the restarted clock starts again at that physical value with logical part 1. The
  physical high-water does not regress, but the timestamp is not greater than every earlier one.\<close>

theorem restart_can_repeat:
  "\<exists>ts t t' d'. clock_run boundary_clock boundary_events = (ts, boundary_final) \<and> t \<in> set ts \<and>
     Clock_Now 2000 (\<lambda>_. True) (restart boundary_final) = Some (t', d') \<and> \<not> After t' t"
proof (intro exI conjI)
  show "clock_run boundary_clock boundary_events =
     ([Timestamp 1000 0 ''n1'', Timestamp 3000 0 ''n1'', Timestamp 3000 1 ''n1''], boundary_final)"
    by (rule boundary_run)
  show "Timestamp 3000 1 ''n1'' \<in> set [Timestamp 1000 0 ''n1'', Timestamp 3000 0 ''n1'', Timestamp 3000 1 ''n1'']"
    by simp
  show "Clock_Now 2000 (\<lambda>_. True) (restart boundary_final) = Some (Timestamp 3000 1 ''n1'', boundary_final)"
    by (rule boundary_restart)
  show "\<not> After (Timestamp 3000 1 ''n1'') (Timestamp 3000 1 ''n1'')" by (rule After_irrefl)
qed

end
