(* ===== verification/GoTime.thy ===== *)
theory GoTime
  imports Prelude "HOL-Library.Monad_Syntax"
begin

text \<open>
  What the sources use of Go's \<^verbatim>\<open>time\<close> package: reading an RFC 3339 timestamp with
  \<^verbatim>\<open>time.Parse(time.RFC3339, s)\<close> and printing a UTC time with
  \<^verbatim>\<open>Format(time.RFC3339)\<close>. An instant is its distance from the Unix epoch, in
  nanoseconds.

  The reader follows the package's: the hour may have one digit, a fraction of a second may
  follow the seconds with a period or a comma and is cut at nine digits, the zone is \<open>Z\<close>
  or a signed offset of at most 24 hours and 60 minutes, and the day is checked against the
  month. The printer is the inverse on civil times; its text order is the order of time.
\<close>

section \<open>The calendar\<close>

definition isLeap :: "int \<Rightarrow> bool" where
  "isLeap y \<longleftrightarrow> y mod 4 = 0 \<and> (y mod 100 \<noteq> 0 \<or> y mod 400 = 0)"

definition daysIn :: "int \<Rightarrow> int \<Rightarrow> int" where
  "daysIn m y =
     (if m = 2 then (if isLeap y then 29 else 28)
      else if m = 4 \<or> m = 6 \<or> m = 9 \<or> m = 11 then 30 else 31)"

text \<open>Days before the first of January of \<open>y\<close>, and before the first of month \<open>m\<close> of \<open>y\<close>.\<close>

definition daysBeforeYear :: "int \<Rightarrow> int" where
  "daysBeforeYear y = 365 * y + (y + 3) div 4 - (y + 99) div 100 + (y + 399) div 400 - 719528"

definition daysBeforeMonth :: "int \<Rightarrow> int \<Rightarrow> int" where
  "daysBeforeMonth m y = sum_list (map (\<lambda>k. daysIn k y) [1..m - 1])"

text \<open>A civil time in UTC, to the second.\<close>

record civil =
  c_year :: int
  c_month :: int
  c_day :: int
  c_hour :: int
  c_min :: int
  c_sec :: int

definition civil_ok :: "civil \<Rightarrow> bool" where
  "civil_ok c \<longleftrightarrow> 0 \<le> c_year c \<and> c_year c \<le> 9999 \<and> 1 \<le> c_month c \<and> c_month c \<le> 12 \<and>
     1 \<le> c_day c \<and> c_day c \<le> daysIn (c_month c) (c_year c) \<and>
     0 \<le> c_hour c \<and> c_hour c < 24 \<and> 0 \<le> c_min c \<and> c_min c < 60 \<and> 0 \<le> c_sec c \<and> c_sec c < 60"

definition civil_days :: "civil \<Rightarrow> int" where
  "civil_days c = daysBeforeYear (c_year c) + daysBeforeMonth (c_month c) (c_year c) + (c_day c - 1)"

definition unix_seconds :: "civil \<Rightarrow> int" where
  "unix_seconds c = ((civil_days c * 24 + c_hour c) * 60 + c_min c) * 60 + c_sec c"

section \<open>Reading RFC 3339\<close>

definition dval :: "char \<Rightarrow> int" where
  "dval c = of_char c - 48"

fun expect :: "char \<Rightarrow> string \<Rightarrow> string option" where
  "expect c [] = None"
| "expect c (x # xs) = (if x = c then Some xs else None)"

text \<open>\<open>getnum\<close>: two digits, or one where \<open>fixed\<close> is false.\<close>

fun getnum :: "bool \<Rightarrow> string \<Rightarrow> (int \<times> string) option" where
  "getnum fixed [] = None"
| "getnum fixed [a] = (if is_digit a \<and> \<not> fixed then Some (dval a, []) else None)"
| "getnum fixed (a # b # r) =
     (if \<not> is_digit a then None
      else if is_digit b then Some (dval a * 10 + dval b, r)
      else if fixed then None else Some (dval a, b # r))"

fun year4 :: "string \<Rightarrow> (int \<times> string) option" where
  "year4 (a # b # c # d # r) =
     (if is_digit a \<and> is_digit b \<and> is_digit c \<and> is_digit d
      then Some (((dval a * 10 + dval b) * 10 + dval c) * 10 + dval d, r) else None)"
| "year4 _ = None"

text \<open>\<open>parseNanoseconds\<close> over the digits of the fraction: the first nine, scaled up.\<close>

fun frac_ns :: "nat \<Rightarrow> string \<Rightarrow> int" where
  "frac_ns 0 ds = 0"
| "frac_ns (Suc n) [] = 0"
| "frac_ns (Suc n) (d # ds) = dval d * 10 ^ n + frac_ns n ds"

definition fraction :: "string \<Rightarrow> int \<times> string" where
  "fraction s =
     (case s of
        p # d # r \<Rightarrow>
          if (p = CHR ''.'' \<or> p = CHR '','') \<and> is_digit d
          then (frac_ns 9 (takeWhile is_digit (d # r)), dropWhile is_digit (d # r))
          else (0, s)
      | _ \<Rightarrow> (0, s))"

text \<open>The zone \<open>Z07:00\<close>: its offset from UTC in seconds.\<close>

definition zone :: "string \<Rightarrow> (int \<times> string) option" where
  "zone s =
     (case s of [] \<Rightarrow> None
      | sg # r \<Rightarrow>
          if sg = CHR ''Z'' then Some (0, r)
          else do {
            (hr, r) \<leftarrow> getnum True r;
            r \<leftarrow> expect (CHR '':'') r;
            (mm, r) \<leftarrow> getnum True r;
            if hr > 24 \<or> mm > 60 then None
            else if sg = CHR ''+'' then Some ((hr * 60 + mm) * 60, r)
            else if sg = CHR ''-'' then Some (- ((hr * 60 + mm) * 60), r)
            else None
          })"

definition parse_rfc3339 :: "string \<Rightarrow> int option" where
  "parse_rfc3339 s = do {
     (y, r) \<leftarrow> year4 s;
     r \<leftarrow> expect (CHR ''-'') r;
     (mo, r) \<leftarrow> getnum True r;
     r \<leftarrow> expect (CHR ''-'') r;
     (d, r) \<leftarrow> getnum True r;
     r \<leftarrow> expect (CHR ''T'') r;
     (h, r) \<leftarrow> getnum False r;
     r \<leftarrow> expect (CHR '':'') r;
     (mi, r) \<leftarrow> getnum True r;
     r \<leftarrow> expect (CHR '':'') r;
     (sec, r) \<leftarrow> getnum True r;
     let (ns, r) = fraction r;
     (off, r) \<leftarrow> zone r;
     let c = \<lparr>c_year = y, c_month = mo, c_day = d, c_hour = h, c_min = mi, c_sec = sec\<rparr>;
     if r = [] \<and> civil_ok c then Some ((unix_seconds c - off) * 10 ^ 9 + ns) else None
   }"

section \<open>Printing RFC 3339\<close>

definition format_rfc3339 :: "civil \<Rightarrow> string" where
  "format_rfc3339 c =
     fixw 4 (nat (c_year c)) @ ''-'' @ fixw 2 (nat (c_month c)) @ ''-'' @ fixw 2 (nat (c_day c)) @
     ''T'' @ fixw 2 (nat (c_hour c)) @ '':'' @ fixw 2 (nat (c_min c)) @ '':'' @
     fixw 2 (nat (c_sec c)) @ ''Z''"

text \<open>Printing over \<open>int\<close>, for evaluation.\<close>

fun fixw_int :: "nat \<Rightarrow> int \<Rightarrow> string" where
  "fixw_int 0 i = []"
| "fixw_int (Suc w) i = fixw_int w (i div 10) @ [digit (nat (i mod 10))]"

lemma fixw_int_fixw: "fixw_int w (int n) = fixw w n"
proof (induction w arbitrary: n)
  case (Suc w)
  have "int n div 10 = int (n div 10)" "int n mod 10 = int (n mod 10)"
    by (simp_all only: of_nat_div of_nat_mod of_nat_numeral)
  then show ?case by (simp only: fixw_int.simps fixw.simps Suc nat_int)
qed simp

lemma fixw_nat: "fixw w (nat i) = fixw_int w (max 0 i)"
  using fixw_int_fixw [of w "nat i"] by (simp add: max_def)

lemma format_rfc3339_code [code]:
  "format_rfc3339 c =
     fixw_int 4 (max 0 (c_year c)) @ ''-'' @ fixw_int 2 (max 0 (c_month c)) @ ''-'' @
     fixw_int 2 (max 0 (c_day c)) @ ''T'' @ fixw_int 2 (max 0 (c_hour c)) @ '':'' @
     fixw_int 2 (max 0 (c_min c)) @ '':'' @ fixw_int 2 (max 0 (c_sec c)) @ ''Z''"
  by (simp only: format_rfc3339_def fixw_nat)

section \<open>Lemmas\<close>

lemma daysIn_pos: "28 \<le> daysIn m y" "daysIn m y \<le> 31"
  by (simp_all add: daysIn_def)

lemma ceil_div_step:
  fixes y n :: int
  assumes n: "1 < n"
  shows "(y + n) div n = (y + (n - 1)) div n + (if y mod n = 0 then 1 else 0)"
proof -
  have r: "0 \<le> y mod n" "y mod n < n" using n by simp_all
  have e: "y + (n - 1) = (y mod n + (n - 1)) + n * (y div n)" by (simp add: algebra_simps)
  have "(y + (n - 1)) div n = y div n + (y mod n + (n - 1)) div n"
    using arg_cong [OF e, of "\<lambda>x. x div n"] n
      div_mult_self2 [of n "y mod n + (n - 1)" "y div n"] by linarith
  moreover have "(y mod n + (n - 1)) div n = (if y mod n = 0 then 0 else 1)"
  proof (cases "y mod n = 0")
    case False
    have "y mod n + (n - 1) = y mod n - 1 + n" by simp
    then have "(y mod n + (n - 1)) div n = (y mod n - 1 + n) div n" by (rule arg_cong)
    also have "\<dots> = (y mod n - 1) div n + 1" using n by (intro div_add_self2) simp
    also have "(y mod n - 1) div n = 0" using False r by (intro div_pos_pos_trivial) linarith+
    finally show ?thesis using False by simp
  qed (use n in simp)
  moreover have "(y + n) div n = y div n + 1" using n by (intro div_add_self2) simp
  ultimately show ?thesis by simp
qed

lemma ceil_div_step':
  fixes y n m :: int
  assumes "1 < n" "m + 1 = n"
  shows "(y + 1 + m) div n = (y + m) div n + (if y mod n = 0 then 1 else 0)"
proof -
  have "y + 1 + m = y + n" "m = n - 1" using assms by simp_all
  then show ?thesis using ceil_div_step [OF assms(1), of y] by simp
qed

lemma leap_div:
  fixes y :: int
  shows "(y + 1 + 3) div 4 = (y + 3) div 4 + (if y mod 4 = 0 then 1 else 0)"
    and "(y + 1 + 99) div 100 = (y + 99) div 100 + (if y mod 100 = 0 then 1 else 0)"
    and "(y + 1 + 399) div 400 = (y + 399) div 400 + (if y mod 400 = 0 then 1 else 0)"
  by (rule ceil_div_step'; simp)+

lemma leap_mod:
  fixes y :: int
  shows "y mod 100 = 0 \<Longrightarrow> y mod 4 = 0" and "y mod 400 = 0 \<Longrightarrow> y mod 100 = 0"
proof -
  have "(4 :: int) dvd 100" "(100 :: int) dvd 400" by simp_all
  then show "y mod 100 = 0 \<Longrightarrow> y mod 4 = 0" "y mod 400 = 0 \<Longrightarrow> y mod 100 = 0"
    by (metis dvd_eq_mod_eq_0 dvd_trans)+
qed

lemma year_sum_step:
  fixes a b c :: int
  shows "a' = a + x \<Longrightarrow> b' = b + w \<Longrightarrow> c' = c + z \<Longrightarrow>
    365 * (y + 1) + a' - b' + c' - k = 365 * y + a - b + c - k + (365 + x - w + z)"
  by simp

lemma leap_sum:
  "365 + (if y mod 4 = 0 then 1 else 0) - (if y mod 100 = 0 then 1 else 0)
     + (if y mod 400 = 0 then 1 else 0) = (if isLeap y then 366 else (365 :: int))"
  using leap_mod [of y] unfolding isLeap_def
  by (cases "y mod 4 = 0"; cases "y mod 100 = 0"; cases "y mod 400 = 0") simp_all

lemma daysBeforeYear_step:
  "daysBeforeYear (y + 1) = daysBeforeYear y + (if isLeap y then 366 else 365)"
  unfolding daysBeforeYear_def leap_sum [symmetric]
  by (intro year_sum_step leap_div)

lemma daysBeforeMonth_step:
  "1 \<le> m \<Longrightarrow> daysBeforeMonth (m + 1) y = daysBeforeMonth m y + daysIn m y"
proof -
  assume "1 \<le> m"
  then have "[1..m] = [1..m - 1] @ [m]" using upto_rec2 [of 1 m] by simp
  then show ?thesis by (simp add: daysBeforeMonth_def)
qed

lemma daysBeforeMonth_mono:
  assumes "1 \<le> m" "m < m'"
  shows "daysBeforeMonth m y + daysIn m y \<le> daysBeforeMonth m' y"
  using assms(2)
proof (induction m' rule: int_gr_induct)
  case base
  then show ?case using assms(1) by (simp add: daysBeforeMonth_step)
next
  case (step i)
  then show ?case using assms(1) daysIn_pos(1) [of i y] by (simp add: daysBeforeMonth_step)
qed

lemma year_length: "daysBeforeMonth 13 y = (if isLeap y then 366 else 365)"
  by (simp add: daysBeforeMonth_def daysIn_def upto_rec1)

lemma daysBeforeYear_mono:
  assumes "y < y'"
  shows "daysBeforeYear y + (if isLeap y then 366 else 365) \<le> daysBeforeYear y'"
  using assms
proof (induction y' rule: int_gr_induct)
  case base
  then show ?case by (simp add: daysBeforeYear_step)
next
  case (step i)
  then show ?case using daysBeforeYear_step [of i] by (simp split: if_splits)
qed

text \<open>Where the day stands in its year: a later month or a later year is a later day.\<close>

lemma civil_days_in_year:
  assumes "civil_ok c"
  shows "daysBeforeYear (c_year c) \<le> civil_days c"
    and "civil_days c < daysBeforeYear (c_year c) + (if isLeap (c_year c) then 366 else 365)"
proof -
  have ok: "1 \<le> c_month c" "c_month c < 13" "1 \<le> c_day c" "c_day c \<le> daysIn (c_month c) (c_year c)"
    using assms by (auto simp: civil_ok_def)
  have "0 \<le> daysBeforeMonth (c_month c) (c_year c)"
    unfolding daysBeforeMonth_def
    by (intro sum_list_nonneg) (auto simp: daysIn_def)
  then show "daysBeforeYear (c_year c) \<le> civil_days c" using ok by (simp add: civil_days_def)
  have "daysBeforeMonth (c_month c) (c_year c) + daysIn (c_month c) (c_year c)
      \<le> daysBeforeMonth 13 (c_year c)"
    using ok by (intro daysBeforeMonth_mono)
  then show "civil_days c < daysBeforeYear (c_year c) + (if isLeap (c_year c) then 366 else 365)"
    unfolding year_length using ok by (simp add: civil_days_def split: if_splits)
qed

definition civil_key :: "civil \<Rightarrow> int list" where
  "civil_key c = [c_year c, c_month c, c_day c, c_hour c, c_min c, c_sec c]"

lemma civil_days_less:
  assumes "civil_ok a" "civil_ok b" "[c_year a, c_month a, c_day a] < [c_year b, c_month b, c_day b]"
  shows "civil_days a < civil_days b"
proof (cases "c_year a < c_year b")
  case True
  then show ?thesis
    using civil_days_in_year [OF assms(1)] civil_days_in_year [OF assms(2)]
      daysBeforeYear_mono [OF True] by (simp split: if_splits)
next
  case False
  with assms(3) have y: "c_year a = c_year b"
    and md: "c_month a < c_month b \<or> c_month a = c_month b \<and> c_day a < c_day b" by auto
  show ?thesis
  proof (cases "c_month a < c_month b")
    case True
    then show ?thesis
      using daysBeforeMonth_mono [of "c_month a" "c_month b" "c_year b"] assms(1,2) y
      by (auto simp: civil_ok_def civil_days_def)
  qed (use md y in \<open>auto simp: civil_days_def\<close>)
qed

lemma unix_seconds_less:
  assumes "civil_ok a" "civil_ok b" "civil_key a < civil_key b"
  shows "unix_seconds a < unix_seconds b"
proof (cases "[c_year a, c_month a, c_day a] < [c_year b, c_month b, c_day b]")
  case True
  from civil_days_less [OF assms(1,2) True] show ?thesis
    using assms(1,2) by (auto simp: civil_ok_def unix_seconds_def)
next
  case False
  with assms(3) have "c_year a = c_year b" "c_month a = c_month b" "c_day a = c_day b"
    and "[c_hour a, c_min a, c_sec a] < [c_hour b, c_min b, c_sec b]"
    by (auto simp: civil_key_def)
  then show ?thesis using assms(1,2) by (auto simp: civil_ok_def unix_seconds_def civil_days_def)
qed

lemma unix_seconds_less_iff:
  assumes "civil_ok a" "civil_ok b"
  shows "unix_seconds a < unix_seconds b \<longleftrightarrow> civil_key a < civil_key b"
proof
  assume l: "unix_seconds a < unix_seconds b"
  show "civil_key a < civil_key b"
  proof (rule ccontr)
    assume "\<not> civil_key a < civil_key b"
    then consider "civil_key b < civil_key a" | "civil_key a = civil_key b" by fastforce
    then show False
    proof cases
      case 1
      from unix_seconds_less [OF assms(2,1) this] l show False by simp
    next
      case 2
      then have "a = b" by (cases a; cases b) (simp add: civil_key_def)
      with l show False by simp
    qed
  qed
qed (rule unix_seconds_less [OF assms])

lemma format_rfc3339_less:
  assumes "civil_ok a" "civil_ok b"
  shows "format_rfc3339 a < format_rfc3339 b \<longleftrightarrow> unix_seconds a < unix_seconds b"
proof -
  have d: "civil_ok c \<Longrightarrow> nat (c_year c) < 10 ^ 4 \<and> nat (c_month c) < 10 ^ 2 \<and> nat (c_day c) < 10 ^ 2
      \<and> nat (c_hour c) < 10 ^ 2 \<and> nat (c_min c) < 10 ^ 2 \<and> nat (c_sec c) < 10 ^ 2" for c
    using daysIn_pos(2) [of "c_month c" "c_year c"] by (auto simp: civil_ok_def)
  have "format_rfc3339 a < format_rfc3339 b \<longleftrightarrow> civil_key a < civil_key b"
    using d [OF assms(1)] d [OF assms(2)] assms
    by (simp add: format_rfc3339_def civil_key_def less_append_same_length fixw_less fixw_inj
        civil_ok_def nat_less_iff nat_eq_iff) auto
  then show ?thesis by (simp add: unix_seconds_less_iff [OF assms])
qed

lemma dval_digit [simp]: "n < 10 \<Longrightarrow> dval (digit n) = int n"
  unfolding dval_def of_nat_of_char [where ?'a = int, symmetric] by simp

lemma fixw_2: "fixw 2 n = [digit (n div 10 mod 10), digit (n mod 10)]"
  by (simp add: numeral_2_eq_2)

lemma fixw_4: "fixw 4 n =
  [digit (n div 1000 mod 10), digit (n div 100 mod 10), digit (n div 10 mod 10), digit (n mod 10)]"
proof -
  have "4 = Suc (Suc (Suc (Suc 0)))" by simp
  then have "fixw 4 n = fixw (Suc (Suc (Suc (Suc 0)))) n" by (simp only:)
  also have "\<dots> = [digit (n div 10 div 10 div 10 mod 10), digit (n div 10 div 10 mod 10),
      digit (n div 10 mod 10), digit (n mod 10)]" by (simp only: fixw.simps append.simps)
  also have "n div 10 div 10 = n div 100" by (simp add: div_mult2_eq [symmetric])
  also have "n div 100 div 10 = n div 1000" by (simp add: div_mult2_eq [symmetric])
  finally show ?thesis .
qed

lemma div_less_of_mult: "n < m * k \<Longrightarrow> n div k < m" for n m k :: nat
  by (rule less_mult_imp_div_less)

lemma getnum_fixw: "n < 100 \<Longrightarrow> getnum f (fixw 2 n @ r) = Some (int n, r)"
proof -
  assume n: "n < 100"
  then have "n div 10 < 10" by (intro div_less_of_mult) simp
  then have "getnum f (fixw 2 n @ r) = Some (int (n div 10) * 10 + int (n mod 10), r)"
    by (simp only: fixw_2 append_Cons append_Nil getnum.simps is_digit_digit dval_digit mod_less
        mod_less_divisor zero_less_numeral not_True_eq_False if_True if_False)
  also have "int (n div 10) * 10 + int (n mod 10) = int (n div 10 * 10 + n mod 10)"
    by (simp only: of_nat_add of_nat_mult of_nat_numeral)
  also have "\<dots> = int n" by (simp only: div_mult_mod_eq)
  finally show ?thesis .
qed

lemma four_digits:
  fixes n :: nat
  assumes "n < 10000"
  shows "((n div 1000 mod 10 * 10 + n div 100 mod 10) * 10 + n div 10 mod 10) * 10 + n mod 10 = n"
proof -
  have "n div 1000 < 10" using assms by (intro div_less_of_mult) simp
  then have "n div 1000 mod 10 * 10 + n div 100 mod 10 = n div 100"
    using div_mult_mod_eq [of "n div 100" 10] by (simp only: div_mult2_eq [symmetric] mod_less) simp
  moreover have "n div 100 * 10 + n div 10 mod 10 = n div 10"
    using div_mult_mod_eq [of "n div 10" 10] by (simp only: div_mult2_eq [symmetric]) simp
  ultimately show ?thesis by (simp only: div_mult_mod_eq)
qed

lemma year4_fixw:
  assumes n: "n < 10000"
  shows "year4 (fixw 4 n @ r) = Some (int n, r)"
proof -
  have "((n div 1000 mod 10 * 10 + n div 100 mod 10) * 10 + n div 10 mod 10) * 10 + n mod 10 = n"
    using n by (rule four_digits)
  then have "((int (n div 1000 mod 10) * 10 + int (n div 100 mod 10)) * 10 + int (n div 10 mod 10)) * 10
      + int (n mod 10) = int n"
    by (metis of_nat_add of_nat_mult of_nat_numeral)
  then show ?thesis
    by (simp only: fixw_4 append.simps year4.simps is_digit_digit dval_digit mod_less_divisor
        zero_less_numeral simp_thms if_True)
qed

lemma parse_format_rfc3339:
  assumes ok: "civil_ok c"
  shows "parse_rfc3339 (format_rfc3339 c) = Some (unix_seconds c * 10 ^ 9)"
proof -
  have d: "nat (c_year c) < 10000" "nat (c_month c) < 100" "nat (c_day c) < 100"
    "nat (c_hour c) < 100" "nat (c_min c) < 100" "nat (c_sec c) < 100"
    using ok daysIn_pos(2) [of "c_month c" "c_year c"] by (auto simp: civil_ok_def)
  have n: "0 \<le> c_year c" "0 \<le> c_month c" "0 \<le> c_day c" "0 \<le> c_hour c" "0 \<le> c_min c" "0 \<le> c_sec c"
    using ok by (auto simp: civil_ok_def)
  have e: "\<lparr>c_year = c_year c, c_month = c_month c, c_day = c_day c, c_hour = c_hour c,
      c_min = c_min c, c_sec = c_sec c\<rparr> = c" by (cases c) simp
  from ok show ?thesis
    by (simp add: e parse_rfc3339_def format_rfc3339_def year4_fixw getnum_fixw d n fraction_def zone_def Let_def)
qed

section \<open>From an instant to its civil time\<close>

text \<open>The year of a day: counting up from a lower bound, at most a few steps.\<close>

function year_from :: "int \<Rightarrow> int \<Rightarrow> int" where
  "year_from y d = (if daysBeforeYear (y + 1) \<le> d then year_from (y + 1) d else y)"
  by pat_completeness auto
termination
proof (relation "measure (\<lambda>(y, d). nat (d - daysBeforeYear y))")
  fix y d :: int
  assume "daysBeforeYear (y + 1) \<le> d"
  then show "((y + 1, d), (y, d)) \<in> measure (\<lambda>(y, d). nat (d - daysBeforeYear y))"
    using daysBeforeYear_step [of y] by (simp split: if_splits)
qed simp

declare year_from.simps [simp del]

definition year_of_day :: "int \<Rightarrow> int" where
  "year_of_day d = year_from ((d + 719528) div 366) d"

text \<open>The month of the \<open>r\<close>-th day of year \<open>y\<close>: the last one that starts no later.\<close>

definition month_of_day :: "int \<Rightarrow> int \<Rightarrow> int" where
  "month_of_day y r = last (1 # filter (\<lambda>m. daysBeforeMonth m y \<le> r) [2..12])"

definition civil_of_unix :: "int \<Rightarrow> civil" where
  "civil_of_unix s =
     (let d = s div 86400; t = s mod 86400; y = year_of_day d;
          r = d - daysBeforeYear y; m = month_of_day y r in
      \<lparr>c_year = y, c_month = m, c_day = r - daysBeforeMonth m y + 1,
       c_hour = t div 3600, c_min = t mod 3600 div 60, c_sec = t mod 60\<rparr>)"

text \<open>\<open>t.UTC().Format(time.RFC3339)\<close> of an instant in nanoseconds; fractions are cut.\<close>

definition rfc3339 :: "int \<Rightarrow> string" where
  "rfc3339 t = format_rfc3339 (civil_of_unix (t div 1000000000))"

text \<open>The instants of the years 0 to 9999, which four digits can print.\<close>

definition printable :: "int \<Rightarrow> bool" where
  "printable t \<longleftrightarrow> daysBeforeYear 0 \<le> t div 1000000000 div 86400 \<and> t div 1000000000 div 86400 < daysBeforeYear 10000"

lemma year_from_bounds:
  "daysBeforeYear y \<le> d \<Longrightarrow>
    y \<le> year_from y d \<and> daysBeforeYear (year_from y d) \<le> d \<and> d < daysBeforeYear (year_from y d + 1)"
proof (induction y d rule: year_from.induct)
  case (1 y d)
  show ?case
  proof (cases "daysBeforeYear (y + 1) \<le> d")
    case True
    with 1 show ?thesis by (simp add: year_from.simps [of y d])
  qed (use 1 in \<open>simp add: year_from.simps [of y d]\<close>)
qed

lemma daysBeforeYear_le: "0 \<le> y \<Longrightarrow> daysBeforeYear y \<le> 366 * y - 719528"
proof (induction y rule: int_ge_induct)
  case (step i)
  then show ?case using daysBeforeYear_step [of i] by (simp split: if_splits)
qed (simp add: daysBeforeYear_def)

lemma daysBeforeYear_0: "daysBeforeYear 0 = - 719528"
  by (simp add: daysBeforeYear_def)

lemma year_of_day_bounds:
  assumes "daysBeforeYear 0 \<le> d"
  shows "0 \<le> year_of_day d \<and> daysBeforeYear (year_of_day d) \<le> d \<and> d < daysBeforeYear (year_of_day d + 1)"
proof -
  define y where "y = (d + 719528) div 366"
  have d: "0 \<le> d + 719528" using assms by (simp add: daysBeforeYear_0)
  then have y: "0 \<le> y" unfolding y_def by simp
  have "366 * y \<le> d + 719528" unfolding y_def using mult_div_mod_eq [of 366 "d + 719528"]
      pos_mod_sign [of 366 "d + 719528"] by linarith
  then have "daysBeforeYear y \<le> d" using daysBeforeYear_le [OF y] by linarith
  from year_from_bounds [OF this] y show ?thesis unfolding year_of_day_def y_def by linarith
qed

lemma daysBeforeMonth_1: "daysBeforeMonth 1 y = 0"
  by (simp add: daysBeforeMonth_def)

lemma last_filter_upto:
  assumes "P k" "a \<le> k" "k \<le> b" "\<forall>j. k < j \<and> j \<le> b \<longrightarrow> \<not> P j"
  shows "last (x # filter P [a..b]) = k"
proof -
  have "[a..b] = [a..k] @ [k + 1..b]" using assms by (intro upto_split2) auto
  moreover have "filter P [k + 1..b] = []" using assms by (auto simp: filter_empty_conv)
  moreover have "[a..k] = [a..k - 1] @ [k]" using assms by (intro upto_rec2) simp
  ultimately show ?thesis using assms by simp
qed

lemma month_of_day_bounds:
  assumes "0 \<le> r" "r < daysBeforeMonth 13 y"
  shows "1 \<le> month_of_day y r \<and> month_of_day y r \<le> 12 \<and>
    daysBeforeMonth (month_of_day y r) y \<le> r \<and>
    r < daysBeforeMonth (month_of_day y r) y + daysIn (month_of_day y r) y"
proof -
  let ?S = "{m. 1 \<le> m \<and> m \<le> 12 \<and> daysBeforeMonth m y \<le> r}"
  have fin: "finite ?S" by (rule finite_subset [of _ "{1..12}"]) auto
  have "1 \<in> ?S" using assms by (simp add: daysBeforeMonth_1)
  define k where "k = Max ?S"
  have k: "k \<in> ?S" unfolding k_def using fin \<open>1 \<in> ?S\<close> by (intro Max_in) blast+
  have top: "\<not> daysBeforeMonth j y \<le> r" if "k < j" "j \<le> 12" for j
  proof
    assume "daysBeforeMonth j y \<le> r"
    then have "j \<in> ?S" using that k by auto
    then have "j \<le> k" unfolding k_def using fin by (intro Max_ge)
    then show False using that by simp
  qed
  have m: "month_of_day y r = k"
  proof (cases "k = 1")
    case True
    then have "filter (\<lambda>m. daysBeforeMonth m y \<le> r) [2..12] = []"
      using top by (auto simp: filter_empty_conv)
    then show ?thesis using True by (simp add: month_of_day_def)
  next
    case False
    then show ?thesis unfolding month_of_day_def using k top by (intro last_filter_upto) auto
  qed
  have "r < daysBeforeMonth (k + 1) y"
    using top [of "k + 1"] k assms(2) by (cases "k = 12") auto
  then show ?thesis using k m by (simp add: daysBeforeMonth_step)
qed

lemma div_less_int:
  fixes x n m :: int
  assumes "x < n * m" "0 < m"
  shows "x div m < n"
proof -
  have "x div m * m \<le> x" using assms(2) div_mult_mod_eq [of x m] pos_mod_sign [of m x] by linarith
  then have "x div m * m < n * m" using assms(1) by linarith
  then show ?thesis using assms(2) by (simp add: mult_less_cancel_right_pos)
qed

lemma civil_of_unix_inverse:
  assumes "daysBeforeYear 0 \<le> s div 86400" "s div 86400 < daysBeforeYear 10000"
  shows "civil_ok (civil_of_unix s) \<and> unix_seconds (civil_of_unix s) = s"
proof -
  define d t y r m where "d = s div 86400" and "t = s mod 86400" and "y = year_of_day d"
    and "r = d - daysBeforeYear y" and "m = month_of_day y r"
  note defs = d_def t_def y_def r_def m_def
  have y: "0 \<le> y" "daysBeforeYear y \<le> d" "d < daysBeforeYear (y + 1)"
    using year_of_day_bounds assms(1) unfolding defs by blast+
  have y': "y \<le> 9999"
  proof (rule ccontr)
    assume "\<not> y \<le> 9999"
    then have "daysBeforeYear 10000 \<le> daysBeforeYear y"
      using daysBeforeYear_mono [of 10000 y] by (cases "y = 10000") (auto split: if_splits)
    then show False using y assms(2) unfolding defs by linarith
  qed
  have r: "0 \<le> r" "r < daysBeforeMonth 13 y"
    using y daysBeforeYear_step [of y] by (simp_all add: r_def year_length)
  note mb = month_of_day_bounds [OF r, folded m_def]
  have t: "0 \<le> t" "t < 86400" unfolding t_def by simp_all
  have c: "civil_of_unix s = \<lparr>c_year = y, c_month = m, c_day = r - daysBeforeMonth m y + 1,
      c_hour = t div 3600, c_min = t mod 3600 div 60, c_sec = t mod 60\<rparr>"
    by (simp add: civil_of_unix_def Let_def defs)
  have "t mod 3600 mod 60 = t mod 60" by (simp add: mod_mod_cancel)
  then have "t mod 3600 div 60 * 60 + t mod 60 = t mod 3600" using div_mult_mod_eq [of "t mod 3600" 60] by simp
  moreover have "t div 3600 * 3600 + t mod 3600 = t" by (rule div_mult_mod_eq)
  ultimately have hms: "(t div 3600 * 60 + t mod 3600 div 60) * 60 + t mod 60 = t"
    by (simp only: distrib_right mult.assoc numeral_times_numeral semiring_norm add.assoc)
  have mb': "0 \<le> t mod 3600" "t mod 3600 < 3600" by simp_all
  have small: "t div 3600 < 24" "t mod 3600 div 60 < 60" "0 \<le> t div 3600" "0 \<le> t mod 3600 div 60"
    using t mb' by (auto simp: div_int_pos_iff intro!: div_less_int)
  have "civil_ok (civil_of_unix s)" using y y' mb small t unfolding c civil_ok_def by simp
  moreover have "civil_days (civil_of_unix s) = d" unfolding c civil_days_def by (simp add: r_def)
  then have "unix_seconds (civil_of_unix s) = d * 86400 + t"
    using hms unfolding unix_seconds_def by (simp add: c algebra_simps)
  moreover have "d * 86400 + t = s" unfolding defs by simp
  ultimately show ?thesis by simp
qed

lemma rfc3339_less:
  assumes "printable a" "printable b"
  shows "rfc3339 a < rfc3339 b \<longleftrightarrow> a div 1000000000 < b div 1000000000"
  using assms civil_of_unix_inverse
  unfolding printable_def rfc3339_def by (simp add: format_rfc3339_less)

lemma parse_rfc3339_print:
  "printable a \<Longrightarrow> parse_rfc3339 (rfc3339 a) = Some (a div 1000000000 * 1000000000)"
  using civil_of_unix_inverse unfolding printable_def rfc3339_def by (simp add: parse_format_rfc3339)

end
