(* ===== verification/Lww.thy ===== *)
theory Lww
  imports Hlc GoTime
begin

text \<open>
  Last-writer-wins order of \<^verbatim>\<open>internal/corrosion/sync.go\<close>. A row's \<open>updated_at\<close> is either
  the text of a hybrid logical clock timestamp or an RFC 3339 time, and during the migration a
  cluster holds both. \<open>lwwOrder\<close> compares two of them: two clock timestamps by their text, two
  RFC 3339 times by the instant, a mixed pair by the instant with the clock timestamp winning
  an exact tie, and anything it cannot read by its bytes.

  On the timestamps the writers emit, the comparison is the order of one key per timestamp
  (\<open>lww_key\<close>), so it is a total preorder across both formats.
\<close>

section \<open>Comparing timestamps\<close>

text \<open>\<open>strings.Compare\<close>.\<close>

definition strings_Compare :: "string \<Rightarrow> string \<Rightarrow> int" where
  "strings_Compare a b = (if a = b then 0 else if a < b then -1 else 1)"

definition cmpInstants :: "int \<Rightarrow> int \<Rightarrow> int" where
  "cmpInstants a b = (if a > b then 1 else if b > a then -1 else 0)"

text \<open>An instant is in nanoseconds: \<open>time.UnixMilli\<close> of the physical part, or the parsed time.\<close>

definition tsInstant :: "string \<Rightarrow> int option" where
  "tsInstant ts =
     (if IsHLC ts
      then (case Parse ts of Some p \<Rightarrow> Some (PhysicalMS p * 1000000) | None \<Rightarrow> None)
      else (case parse_rfc3339 ts of Some t \<Rightarrow> Some t | None \<Rightarrow> None))"

definition ParseUpdatedAt :: "string \<Rightarrow> int option" where
  "ParseUpdatedAt ts = tsInstant ts"

definition lwwOrder :: "string \<Rightarrow> string \<Rightarrow> int" where
  "lwwOrder localTS incomingTS =
     (let localHLC = IsHLC localTS; incomingHLC = IsHLC incomingTS in
      if localHLC \<and> incomingHLC then strings_Compare localTS incomingTS
      else if \<not> localHLC \<and> \<not> incomingHLC then
        (case (parse_rfc3339 localTS, parse_rfc3339 incomingTS) of
           (Some lt, Some it) \<Rightarrow> cmpInstants lt it
         | _ \<Rightarrow> strings_Compare localTS incomingTS)
      else
        (case (tsInstant localTS, tsInstant incomingTS) of
           (Some li, Some ii) \<Rightarrow>
             let ord = cmpInstants li ii in
             if ord \<noteq> 0 then ord else if localHLC then 1 else -1
         | _ \<Rightarrow> strings_Compare localTS incomingTS))"

definition localWinsLWW :: "string \<Rightarrow> string \<Rightarrow> bool" where
  "localWinsLWW localTS incomingTS \<longleftrightarrow> lwwOrder localTS incomingTS \<ge> 0"

definition LWWNewer :: "string \<Rightarrow> string \<Rightarrow> bool" where
  "LWWNewer a b \<longleftrightarrow> lwwOrder a b > 0"

section \<open>The future-skew quarantine\<close>

definition skewCutoff :: int where
  "skewCutoff = MaxSkewMS * 1000000"

definition tsFutureSkewed :: "string \<Rightarrow> int \<Rightarrow> bool" where
  "tsFutureSkewed ts now =
     (case tsInstant ts of None \<Rightarrow> False | Some inst \<Rightarrow> inst > now + skewCutoff)"

text \<open>The quarantine counter \<open>skewQuarantined\<close> is passed in and handed back.\<close>

definition skewQuarantinesIncoming ::
  "bool \<Rightarrow> string \<Rightarrow> string \<Rightarrow> int \<Rightarrow> u64 \<Rightarrow> bool \<times> u64" where
  "skewQuarantinesIncoming guardOn localTS incomingTS now skewQuarantined =
     (if \<not> guardOn then (False, skewQuarantined)
      else if tsFutureSkewed incomingTS now \<and> \<not> tsFutureSkewed localTS now
      then (True, skewQuarantined + 1)
      else (False, skewQuarantined))"

section \<open>The key behind the order\<close>

text \<open>
  The timestamps the writers emit: the text of a clock timestamp the wire format can carry, or
  a readable RFC 3339 time.
\<close>

definition lww_ok :: "string \<Rightarrow> bool" where
  "lww_ok ts \<longleftrightarrow>
     (case Parse ts of
        Some t \<Rightarrow> wire_ok t \<and> Timestamp_String t = ts
      | None \<Rightarrow> parse_rfc3339 ts \<noteq> None)"

definition lww_key :: "string \<Rightarrow> int list \<times> string" where
  "lww_key ts =
     (case Parse ts of
        Some t \<Rightarrow> ([PhysicalMS t * 1000000, 1], ts)
      | None \<Rightarrow> ([the (parse_rfc3339 ts), 0], ''''))"

definition key_less :: "int list \<times> string \<Rightarrow> int list \<times> string \<Rightarrow> bool" where
  "key_less a b \<longleftrightarrow> fst a < fst b \<or> fst a = fst b \<and> snd a < snd b"

lemma strings_Compare_anti: "strings_Compare a b = - strings_Compare b a"
  by (auto simp: strings_Compare_def)

lemma cmpInstants_anti: "cmpInstants a b = - cmpInstants b a"
  by (auto simp: cmpInstants_def)

lemma key_less_trans: "key_less a b \<Longrightarrow> key_less b c \<Longrightarrow> key_less a c"
  by (auto simp: key_less_def)

lemma key_less_total: "key_less a b \<or> a = b \<or> key_less b a"
  by (cases a; cases b) (auto simp: key_less_def)

lemma key_less_irrefl: "\<not> key_less a a"
  by (simp add: key_less_def)

definition key_cmp :: "int list \<times> string \<Rightarrow> int list \<times> string \<Rightarrow> int" where
  "key_cmp a b = (if a = b then 0 else if key_less a b then -1 else 1)"

lemma key_cmp_trans:
  assumes "key_cmp a b \<ge> 0" "key_cmp b c \<ge> 0"
  shows "key_cmp a c \<ge> 0"
proof -
  have "\<not> key_less a b" "\<not> key_less b c"
    using assms key_less_irrefl by (auto simp: key_cmp_def split: if_splits)
  then have "\<not> key_less a c" using key_less_total key_less_trans by metis
  then show ?thesis by (simp add: key_cmp_def)
qed

lemma key_cmp_strict_trans:
  assumes "key_cmp a b > 0" "key_cmp b c \<ge> 0"
  shows "key_cmp a c > 0"
proof -
  have "key_less b a" "\<not> key_less b c"
    using assms key_less_irrefl key_less_total [of a b] by (auto simp: key_cmp_def split: if_splits)
  then have "key_less c a" using key_less_total key_less_trans by metis
  moreover from this have "\<not> key_less a c" "a \<noteq> c" using key_less_trans key_less_irrefl by blast+
  ultimately show ?thesis by (simp add: key_cmp_def)
qed

text \<open>A clock timestamp's text orders first by its physical milliseconds.\<close>

lemma hlc_text_less:
  assumes "wire_ok t" "wire_ok u" "PhysicalMS t < PhysicalMS u"
  shows "Timestamp_String t < Timestamp_String u"
  using assms by (cases t; cases u) (simp add: Timestamp_String_less Timestamp_less_iff)

lemma lwwOrder_key_cmp:
  assumes a: "lww_ok a" and b: "lww_ok b"
  shows "lwwOrder a b = key_cmp (lww_key a) (lww_key b)"
proof (cases "Parse a"; cases "Parse b")
  fix t u assume p: "Parse a = Some t" "Parse b = Some u"
  with a b have w: "wire_ok t" "wire_ok u" "Timestamp_String t = a" "Timestamp_String u = b"
    by (auto simp: lww_ok_def)
  have "a < b" if "PhysicalMS t < PhysicalMS u" using hlc_text_less [OF w(1,2) that] w by simp
  moreover have "b < a" if "PhysicalMS u < PhysicalMS t" using hlc_text_less [OF w(2,1) that] w by simp
  ultimately have "key_less (lww_key a) (lww_key b) \<longleftrightarrow> a < b"
    using p by (auto simp: key_less_def lww_key_def) (metis less_asym' linorder_less_linear)+
  moreover have "lww_key a = lww_key b \<longleftrightarrow> a = b" using p by (auto simp: lww_key_def)
  ultimately show ?thesis using p by (simp add: lwwOrder_def IsHLC_def strings_Compare_def key_cmp_def)
qed (use a b in \<open>auto simp: lww_ok_def lwwOrder_def IsHLC_def lww_key_def key_less_def tsInstant_def
      cmpInstants_def Let_def key_cmp_def\<close>)

lemma lww_key_eq:
  assumes "lww_ok a" "lww_ok b"
  shows "lww_key a = lww_key b \<longleftrightarrow> a = b \<or> \<not> IsHLC a \<and> \<not> IsHLC b \<and> tsInstant a = tsInstant b"
proof (cases "Parse a"; cases "Parse b")
  assume p: "Parse a = None" "Parse b = None"
  then obtain x y where "parse_rfc3339 a = Some x" "parse_rfc3339 b = Some y"
    using assms by (auto simp: lww_ok_def)
  with p show ?thesis by (auto simp: lww_key_def IsHLC_def tsInstant_def)
qed (auto simp: lww_key_def IsHLC_def)

section \<open>Properties\<close>

text \<open>The comparator is anti-symmetric on all strings, whatever their formats: the two nodes
  of a conflict never both keep their own row, nor both take the other's, on different
  timestamps.\<close>

theorem lwwOrder_antisymmetric: "lwwOrder a b = - lwwOrder b a"
proof (cases "IsHLC a = IsHLC b")
  case True
  then show ?thesis
    by (cases "parse_rfc3339 a"; cases "parse_rfc3339 b")
      (auto simp: lwwOrder_def Let_def strings_Compare_anti [of a b] cmpInstants_def)
next
  case False
  then show ?thesis
    by (cases "tsInstant a"; cases "tsInstant b")
      (auto simp: lwwOrder_def Let_def strings_Compare_anti [of a b] cmpInstants_def)
qed

text \<open>on the timestamps the writers emit the comparator is one total preorder over both
  formats: it is transitive, and it ties only on equal texts or on two RFC 3339 spellings of
  one instant.\<close>

theorem lwwOrder_total_preorder:
  assumes "lww_ok a" "lww_ok b" "lww_ok c"
  shows "(lwwOrder a b \<ge> 0 \<and> lwwOrder b c \<ge> 0 \<longrightarrow> lwwOrder a c \<ge> 0) \<and>
    (lwwOrder a b > 0 \<and> lwwOrder b c \<ge> 0 \<longrightarrow> lwwOrder a c > 0) \<and>
    (lwwOrder a b = 0 \<longleftrightarrow> a = b \<or> \<not> IsHLC a \<and> \<not> IsHLC b \<and> tsInstant a = tsInstant b)"
proof (intro conjI impI)
  assume h: "lwwOrder a b \<ge> 0 \<and> lwwOrder b c \<ge> 0"
  show "lwwOrder a c \<ge> 0"
    using h key_cmp_trans [of "lww_key a" "lww_key b" "lww_key c"]
    by (simp add: lwwOrder_key_cmp assms)
next
  assume h: "lwwOrder a b > 0 \<and> lwwOrder b c \<ge> 0"
  show "lwwOrder a c > 0"
    using h key_cmp_strict_trans [of "lww_key a" "lww_key b" "lww_key c"]
    by (simp add: lwwOrder_key_cmp assms)
next
  show "lwwOrder a b = 0 \<longleftrightarrow> a = b \<or> \<not> IsHLC a \<and> \<not> IsHLC b \<and> tsInstant a = tsInstant b"
    using lww_key_eq [OF assms(1,2)] by (simp add: lwwOrder_key_cmp assms key_cmp_def)
qed

text \<open>A clock timestamp, a time with a zone offset and a fractional one, in order.\<close>

theorem lwwOrder_total_preorder_witness:
  "lww_ok ''1767225600000-0003-n1'' \<and> lww_ok ''2026-01-01T01:00:00+01:00'' \<and>
   lww_ok ''2025-12-31T23:59:59.75Z'' \<and>
   lwwOrder ''1767225600000-0003-n1'' ''2026-01-01T01:00:00+01:00'' > 0 \<and>
   lwwOrder ''2026-01-01T01:00:00+01:00'' ''2025-12-31T23:59:59.75Z'' \<ge> 0 \<and>
   lwwOrder ''1767225600000-0003-n1'' ''2025-12-31T23:59:59.75Z'' > 0"
proof -
  have h: "lww_ok ''1767225600000-0003-n1''" "lww_ok ''2026-01-01T01:00:00+01:00''"
    "lww_ok ''2025-12-31T23:59:59.75Z''"
    "lwwOrder ''1767225600000-0003-n1'' ''2026-01-01T01:00:00+01:00'' > 0 \<and>
     lwwOrder ''2026-01-01T01:00:00+01:00'' ''2025-12-31T23:59:59.75Z'' \<ge> 0"
    by code_simp+
  from h show ?thesis using lwwOrder_total_preorder [OF h(1-3)] by blast
qed

text \<open>
  Outside those timestamps the order can cycle, because an unreadable text is compared by its
  bytes with both formats: SQLite's own \<open>datetime\<close> text is below an RFC 3339 time of its day and
  above every clock timestamp.
\<close>

lemma lwwOrder_cycle:
  "lwwOrder ''2026-01-01T00:00:00Z'' ''2026-01-01 00:00:00'' > 0 \<and>
   lwwOrder ''2026-01-01 00:00:00'' ''1767225600001-0000-n1'' > 0 \<and>
   lwwOrder ''1767225600001-0000-n1'' ''2026-01-01T00:00:00Z'' > 0"
  by code_simp

end
