(* ===== verification/Cells.thy ===== *)
theory Cells
  imports Prelude "HOL-Library.Sublist"
begin

text \<open>
  Row cells of \<^verbatim>\<open>internal/corrosion/sync.go\<close> and their two renderings: \<open>coerceString\<close>, what
  \<^verbatim>\<open>fmt.Sprintf("%v")\<close> makes of a scanned or decoded value, and \<open>canonicalCellValue\<close>,
  which gives every reading of one logical value the same text. \<open>encodeRowCellsV2\<close> is the row
  encoding over the second one: independent of the column order and injective.

  A finite \<^verbatim>\<open>float64\<close> is given by the sign, the digits and the decimal point of its shortest
  decimal representation, which is what \<^verbatim>\<open>strconv.FormatFloat(f, _, -1, 64)\<close> prints from and
  which determines the float: zero has no digits, other floats start and end with a non-zero
  digit, and the value is \<open>0.d1d2... * 10^dp\<close>. Such a float is a whole number exactly when no
  digit stands behind the point.
\<close>

section \<open>Floats\<close>

datatype float64 = FNaN | FInf bool | FNum (fneg: bool) (fdigs: string) (fdp: int)

definition sign_str :: "bool \<Rightarrow> string" where
  "sign_str neg = (if neg then ''-'' else '''')"

text \<open>\<open>fmtF\<close> of \<open>strconv/ftoa.go\<close> with precision \<open>max(nd - dp, 0)\<close>: all the digits there are.\<close>

definition fmtF :: "bool \<Rightarrow> string \<Rightarrow> int \<Rightarrow> string" where
  "fmtF neg ds dp =
     sign_str neg @
     (if dp > 0 then take (nat dp) ds @ replicate (nat dp - length ds) (CHR ''0'') else ''0'') @
     (if int (length ds) > dp
      then ''.'' @ replicate (nat (- dp)) (CHR ''0'') @ drop (nat dp) ds else '''')"

text \<open>\<open>fmtE\<close>, all digits and an exponent of at least two places.\<close>

definition fmtE :: "bool \<Rightarrow> string \<Rightarrow> int \<Rightarrow> string" where
  "fmtE neg ds dp =
     (let exp = (if ds = [] then 0 else dp - 1); a = \<bar>exp\<bar> in
      sign_str neg @
      (case ds of [] \<Rightarrow> ''0'' | d # r \<Rightarrow> d # (if r = [] then [] else CHR ''.'' # r)) @
      ''e'' @ (if exp < 0 then ''-'' else ''+'') @ (if a < 10 then ''0'' else '''') @ dec_int a)"

text \<open>\<open>FormatFloat(f, 'g', -1, 64)\<close>: exponent form below \<open>1e-4\<close> and from seven digits on.\<close>

definition fmtG :: "bool \<Rightarrow> string \<Rightarrow> int \<Rightarrow> string" where
  "fmtG neg ds dp =
     (let exp = dp - 1 in if exp < -4 \<or> exp \<ge> 6 then fmtE neg ds dp else fmtF neg ds dp)"

text \<open>What \<open>%v\<close> prints for a \<open>float64\<close>.\<close>

fun float_v :: "float64 \<Rightarrow> string" where
  "float_v FNaN = ''NaN''"
| "float_v (FInf neg) = (if neg then ''-Inf'' else ''+Inf'')"
| "float_v (FNum neg ds dp) = fmtG neg ds dp"

text \<open>The float of a whole number below \<open>2^53\<close>, which every such number is.\<close>

definition float_of_int :: "int \<Rightarrow> float64" where
  "float_of_int i =
     (if i = 0 then FNum False '''' 0
      else let ds = dec_int \<bar>i\<bar> in
        FNum (i < 0) (rev (dropWhile (\<lambda>c. c = CHR ''0'') (rev ds))) (int (length ds)))"

section \<open>Cells\<close>

text \<open>
  The dynamic types a cell can have. The signed integer types share \<open>CInt\<close>, since every use of
  them goes through \<open>int64\<close>. A \<open>float32\<close> comes with its own shortest digits and with the
  \<open>float64\<close> it converts to, a \<open>json.Number\<close> with its literal and with what \<open>Float64\<close>
  reads in it. \<open>COther\<close> is any other type, by what \<open>%v\<close> prints.
\<close>

datatype cell =
    CNull
  | CStr string
  | CBytes string
  | CBool bool
  | CInt int
  | CUint nat
  | CFloat32 float64 float64
  | CFloat float64
  | CNumber string "float64 option"
  | COther string

definition coerceString :: "cell \<Rightarrow> string" where
  "coerceString v =
     (case v of
        CNull \<Rightarrow> ''''
      | CStr x \<Rightarrow> x
      | CBytes x \<Rightarrow> x
      | CBool b \<Rightarrow> (if b then ''true'' else ''false'')
      | CInt i \<Rightarrow> FormatInt i
      | CUint n \<Rightarrow> FormatInt (int n)
      | CFloat32 f _ \<Rightarrow> float_v f
      | CFloat f \<Rightarrow> float_v f
      | CNumber s _ \<Rightarrow> s
      | COther s \<Rightarrow> s)"

datatype enc_error =
    ErrColVal
  | ErrDupColumn string
  | ErrNonFinite
  | ErrJsonNumber string
  | ErrCellType

definition canonicalFloat :: "float64 \<Rightarrow> enc_error + string" where
  "canonicalFloat f =
     (case f of
        FNaN \<Rightarrow> Inl ErrNonFinite
      | FInf _ \<Rightarrow> Inl ErrNonFinite
      | FNum neg ds dp \<Rightarrow>
          if ds = [] then Inr ''0''
          else if int (length ds) \<le> dp then Inr (fmtF neg ds dp)
          else Inr (fmtG neg ds dp))"

text \<open>\<open>big.Int.SetString(s, 10)\<close>: an optional sign and at least one digit.\<close>

definition big_SetString :: "string \<Rightarrow> int option" where
  "big_SetString s =
     (case s of [] \<Rightarrow> None
      | c # cs \<Rightarrow>
          let ds = (if c = CHR ''-'' \<or> c = CHR ''+'' then cs else s) in
          if ds = [] then None
          else map_option (\<lambda>n. if c = CHR ''-'' then - n else n) (digits_int 0 ds))"

definition canonicalCellValue :: "cell \<Rightarrow> enc_error + string" where
  "canonicalCellValue v =
     (case v of
        CStr x \<Rightarrow> Inr x
      | CBytes x \<Rightarrow> Inr x
      | CBool b \<Rightarrow> Inr (if b then ''true'' else ''false'')
      | CInt i \<Rightarrow> Inr (FormatInt i)
      | CUint n \<Rightarrow> Inr (FormatInt (int n))
      | CFloat32 _ f \<Rightarrow> canonicalFloat f
      | CFloat f \<Rightarrow> canonicalFloat f
      | CNumber s fo \<Rightarrow>
          (case big_SetString s of
             Some bi \<Rightarrow> Inr (FormatInt bi)
           | None \<Rightarrow> (case fo of None \<Rightarrow> Inl (ErrJsonNumber s) | Some f \<Rightarrow> canonicalFloat f))
      | _ \<Rightarrow> Inl ErrCellType)"

text \<open>The value of a whole float of modest size, and the primary-key rendering built on it.\<close>

definition whole :: "float64 \<Rightarrow> int option" where
  "whole f =
     (case f of
        FNum neg ds dp \<Rightarrow>
          if ds = [] then Some 0
          else if int (length ds) \<le> dp
          then map_option (\<lambda>n. if neg then - n else n)
            (digits_int 0 (ds @ replicate (nat dp - length ds) (CHR ''0'')))
          else None
      | _ \<Rightarrow> None)"

definition coercePKString :: "cell \<Rightarrow> string" where
  "coercePKString v =
     (case v of
        CFloat f \<Rightarrow>
          (case whole f of
             Some i \<Rightarrow> if \<bar>i\<bar> < 2 ^ 53 then FormatInt i else coerceString v
           | None \<Rightarrow> coerceString v)
      | _ \<Rightarrow> coerceString v)"

text \<open>\<open>pkKey\<close> is the JSON array of these strings; a key is kept as the strings themselves.\<close>

definition pkKey :: "cell list \<Rightarrow> string list" where
  "pkKey vals = map coercePKString vals"

definition pkKeyAt :: "cell list \<Rightarrow> nat list \<Rightarrow> string list" where
  "pkKeyAt row pkIdx = pkKey (map (\<lambda>idx. if idx < length row then row ! idx else CNull) pkIdx)"

section \<open>The order-invariant row encoding\<close>

text \<open>The first repeated name, in the order of the columns.\<close>

fun first_dup :: "string list \<Rightarrow> string list \<Rightarrow> string option" where
  "first_dup seen [] = None"
| "first_dup seen (c # cs) = (if c \<in> set seen then Some c else first_dup (c # seen) cs)"

definition encode_name :: "string \<Rightarrow> string" where
  "encode_name n = dec (length n) @ '':'' @ n @ ''=''"

definition encode_value :: "cell \<Rightarrow> enc_error + string" where
  "encode_value v =
     (if v = CNull then Inr ''N;''
      else case canonicalCellValue v of
          Inl e \<Rightarrow> Inl e
        | Inr cv \<Rightarrow> Inr (''V'' @ dec (length cv) @ '':'' @ cv))"

fun encode_pairs :: "(string \<times> cell) list \<Rightarrow> enc_error + string" where
  "encode_pairs [] = Inr ''''"
| "encode_pairs ((n, v) # ps) =
     (case encode_value v of
        Inl e \<Rightarrow> Inl e
      | Inr s \<Rightarrow> map_sum id (\<lambda>rest. encode_name n @ s @ rest) (encode_pairs ps))"

definition encodeRowCellsV2 :: "string list \<Rightarrow> cell list \<Rightarrow> enc_error + string" where
  "encodeRowCellsV2 cols vals =
     (if length cols \<noteq> length vals then Inl ErrColVal
      else case first_dup [] cols of
          Some n \<Rightarrow> Inl (ErrDupColumn n)
        | None \<Rightarrow> encode_pairs (sort_key fst (zip cols vals)))"

section \<open>Decoding lengths\<close>

lemma dec_digits: "list_all is_digit (dec n)"
proof (induction n rule: dec.induct)
  case (1 n)
  then show ?case by (cases "n < 10") (simp_all add: dec.simps [of n])
qed

lemma colon_not_digit [simp]: "\<not> is_digit (CHR '':'')"
  by (simp add: is_digit_def)

lemma dec_prefix:
  assumes "dec m @ CHR '':'' # x = dec n @ CHR '':'' # y"
  shows "m = n \<and> x = y"
proof -
  have t: "takeWhile is_digit (dec k @ CHR '':'' # z) = dec k" for k z
    using dec_digits [of k] by (simp add: list_all_iff takeWhile_append)
  from assms t have "dec m = dec n" by metis
  with assms show ?thesis by simp
qed

lemma length_prefix:
  "dec (length a) @ CHR '':'' # a @ r = dec (length b) @ CHR '':'' # b @ r' \<Longrightarrow> a = b \<and> r = r'"
  using dec_prefix [of "length a" "a @ r" "length b" "b @ r'"] by auto

section \<open>The encoding is canonical\<close>

text \<open>A row as the encoding sees it: the canonical text of each of its columns, NULL as \<open>None\<close>.\<close>

definition canon :: "cell \<Rightarrow> string option" where
  "canon v =
     (if v = CNull then None else case canonicalCellValue v of Inl e \<Rightarrow> None | Inr s \<Rightarrow> Some s)"

definition canon_row :: "string list \<Rightarrow> cell list \<Rightarrow> string \<Rightarrow> string option option" where
  "canon_row cols vals = map_of (zip cols (map canon vals))"

definition token :: "string option \<Rightarrow> string" where
  "token c = (case c of None \<Rightarrow> ''N;'' | Some s \<Rightarrow> ''V'' @ dec (length s) @ '':'' @ s)"

definition flat :: "(string \<times> string option) list \<Rightarrow> string" where
  "flat ps = concat (map (\<lambda>(n, c). encode_name n @ token c) ps)"

lemma encode_value_token: "encode_value v = Inr s \<Longrightarrow> s = token (canon v)"
  by (auto simp: encode_value_def token_def canon_def split: if_splits sum.splits)

lemma encode_pairs_flat:
  "encode_pairs ps = Inr s \<Longrightarrow> s = flat (map (\<lambda>(n, v). (n, canon v)) ps)"
proof (induction ps arbitrary: s rule: encode_pairs.induct)
  case (2 n v ps)
  then obtain t where t: "encode_value v = Inr t" by (auto split: sum.splits)
  with 2 obtain rest where "encode_pairs ps = Inr rest" "s = encode_name n @ t @ rest"
    by (cases "encode_pairs ps") auto
  with 2 t encode_value_token [OF t] show ?case by (auto simp: flat_def)
qed (simp add: flat_def)

lemma token_split: "token c @ r = token d @ r' \<Longrightarrow> c = d \<and> r = r'"
  by (cases c; cases d) (auto simp: token_def dest: length_prefix)

lemma flat_Cons: "flat ((n, c) # ps) = dec (length n) @ CHR '':'' # n @ CHR ''='' # token c @ flat ps"
  by (simp add: flat_def encode_name_def)

lemma flat_Nil [simp]: "flat [] = ''''"
  by (simp add: flat_def)

lemma flat_inj: "flat ps = flat qs \<Longrightarrow> ps = qs"
proof (induction ps arbitrary: qs)
  case Nil
  then show ?case by (cases qs) (auto simp: flat_Cons hd_dec)
next
  case (Cons p ps)
  obtain n c where p: "p = (n, c)" by (cases p)
  with Cons.prems obtain m d rs where q: "qs = (m, d) # rs"
    by (cases qs) (auto simp: flat_Cons)
  from Cons.prems p q
  have "n = m \<and> CHR ''='' # token c @ flat ps = CHR ''='' # token d @ flat rs"
    by (intro length_prefix) (simp add: flat_Cons)
  with token_split Cons.IH p q show ?case by auto
qed

lemma first_dup_None: "first_dup seen cs = None \<longleftrightarrow> distinct cs \<and> set cs \<inter> set seen = {}"
  by (induction seen cs rule: first_dup.induct) auto

text \<open>Sorting by distinct keys: the sorted list depends only on the set of pairs.\<close>

lemma sort_key_fst_cong:
  fixes ps qs :: "('a :: linorder \<times> 'b) list"
  assumes "distinct (map fst ps)" "distinct (map fst qs)" "set ps = set qs"
  shows "sort_key fst ps = sort_key fst qs"
proof (rule map_sorted_distinct_set_unique [where f = fst])
  show "inj_on fst (set (sort_key fst ps) \<union> set (sort_key fst qs))"
    using assms by (simp add: distinct_map)
  have "distinct (map fst (sort_key fst xs))" if "distinct (map fst xs)" for xs :: "('a \<times> 'b) list"
    using that by (simp add: distinct_map distinct_sort)
  with assms show "distinct (map fst (sort_key fst ps))" "distinct (map fst (sort_key fst qs))" by blast+
qed (use assms in simp_all)

lemma sort_key_fst_map:
  fixes ps :: "('a :: linorder \<times> 'b) list"
  assumes "distinct (map fst ps)"
  shows "map (\<lambda>(n, v). (n, f v)) (sort_key fst ps) = sort_key fst (map (\<lambda>(n, v). (n, f v)) ps)"
proof -
  let ?g = "\<lambda>(n :: 'a, v :: 'b). (n, f v)"
  have f: "map fst (map ?g xs) = map fst xs" for xs by (induction xs) auto
  have d: "distinct (map fst (sort_key fst ps))"
    using assms by (simp add: distinct_map distinct_sort)
  have "sort_key fst (map ?g (sort_key fst ps)) = sort_key fst (map ?g ps)"
    by (rule sort_key_fst_cong) (use assms d in \<open>simp_all only: f set_map set_sort\<close>)
  moreover have "sort_key fst (map ?g (sort_key fst ps)) = map ?g (sort_key fst ps)"
    by (rule sort_key_id_if_sorted) (simp only: f sorted_sort_key)
  ultimately show ?thesis by simp
qed

lemma encode_ok:
  assumes "encodeRowCellsV2 cols vals = Inr s"
  shows "distinct cols" "length cols = length vals"
    "s = flat (sort_key fst (zip cols (map canon vals)))"
proof -
  show d: "distinct cols" "length cols = length vals"
    using assms by (auto simp: encodeRowCellsV2_def first_dup_None split: if_splits option.splits)
  have "encode_pairs (sort_key fst (zip cols vals)) = Inr s"
    using assms by (auto simp: encodeRowCellsV2_def split: if_splits option.splits)
  then have "s = flat (map (\<lambda>(n, v). (n, canon v)) (sort_key fst (zip cols vals)))"
    by (rule encode_pairs_flat)
  then show "s = flat (sort_key fst (zip cols (map canon vals)))"
    using d by (simp add: sort_key_fst_map zip_map2)
qed


lemma zip_set_of_canon_row:
  assumes "distinct cols" "length cols = length vals"
  shows "set (zip cols (map canon vals)) = Map.graph (canon_row cols vals)"
  unfolding canon_row_def using assms by (simp add: graph_map_of_if_distinct_dom)

lemma graph_inj: "Map.graph m = Map.graph m' \<longleftrightarrow> m = m'"
proof
  assume g: "Map.graph m = Map.graph m'"
  show "m = m'"
  proof
    fix x
    have "m x = Some y \<longleftrightarrow> m' x = Some y" for y
      using g by (auto simp: Map.graph_def set_eq_iff)
    then show "m x = m' x" by (metis option.exhaust)
  qed
qed simp

lemma digit_zero: "digit 0 = CHR ''0''"
  by code_simp

section \<open>One number, two read paths\<close>

lemma dec_int_digits: "0 \<le> i \<Longrightarrow> list_all is_digit (dec_int i)"
  using dec_digits [of "nat i"] by (simp add: dec_nat)

lemma dec_int_value: "0 \<le> i \<Longrightarrow> digits_int 0 (dec_int i) = Some i"
  using digits_int_val [of 0 "dec (nat i)"] unfolding digits_val_dec by (simp add: dec_nat)

lemma dec_int_not_Nil: "0 \<le> i \<Longrightarrow> dec_int i \<noteq> []"
  using hd_dec [of "nat i"] by (simp add: dec_nat)

text \<open>The digits of a positive number do not end in nothing but zeros.\<close>

lemma digits_val_zeros: "digits_val 0 (replicate k (CHR ''0'')) = Some 0"
  by (induction k) (simp_all add: is_digit_def digit_val_def)

lemma strip_zeros:
  "\<exists>k. ds = rev (dropWhile (\<lambda>c. c = CHR ''0'') (rev ds)) @ replicate k (CHR ''0'')"
proof -
  have "takeWhile (\<lambda>c. c = CHR ''0'') (rev ds)
      = replicate (length (takeWhile (\<lambda>c. c = CHR ''0'') (rev ds))) (CHR ''0'')"
    by (rule replicate_length_same [symmetric]) (auto dest: set_takeWhileD)
  then have "rev ds = replicate (length (takeWhile (\<lambda>c. c = CHR ''0'') (rev ds))) (CHR ''0'')
      @ dropWhile (\<lambda>c. c = CHR ''0'') (rev ds)"
    by (metis takeWhile_dropWhile_id)
  then have "ds = rev (dropWhile (\<lambda>c. c = CHR ''0'') (rev ds))
      @ replicate (length (takeWhile (\<lambda>c. c = CHR ''0'') (rev ds))) (CHR ''0'')"
    by (metis rev_append rev_replicate rev_rev_ident)
  then show ?thesis ..
qed

text \<open>The float of a non-zero whole number: some digits, no digit behind the point, and \<open>%f\<close>
  prints the number.\<close>

lemma float_of_int_shape:
  assumes "i \<noteq> 0"
  obtains ds k where "float_of_int i = FNum (i < 0) ds (int (length ds + k))" "ds \<noteq> []"
    "dec_int \<bar>i\<bar> = ds @ replicate k (CHR ''0'')"
proof -
  let ?ds = "rev (dropWhile (\<lambda>c. c = CHR ''0'') (rev (dec_int \<bar>i\<bar>)))"
  obtain k where k: "dec_int \<bar>i\<bar> = ?ds @ replicate k (CHR ''0'')"
    using strip_zeros [of "dec_int \<bar>i\<bar>"] by blast
  have "?ds \<noteq> []"
  proof
    assume "?ds = []"
    with k have "dec (nat \<bar>i\<bar>) = replicate k (CHR ''0'')" by (simp add: dec_nat)
    then have "nat \<bar>i\<bar> = 0" using digits_val_zeros [of k] digits_val_dec [of "nat \<bar>i\<bar>"] by simp
    with assms show False by simp
  qed
  moreover have "length (dec_int \<bar>i\<bar>) = length ?ds + k" by (metis k length_append length_replicate)
  ultimately show ?thesis using that [of ?ds k] k assms by (simp add: float_of_int_def Let_def)
qed

lemma fmtF_whole:
  assumes "ds \<noteq> []"
  shows "fmtF neg ds (int (length ds) + int k) = sign_str neg @ ds @ replicate k (CHR ''0'')"
proof -
  have "nat (int (length ds) + int k) = length ds + k" "0 < int (length ds) + int k"
    using assms by (simp_all add: nat_int_add flip: of_nat_add)
  then show ?thesis by (simp add: fmtF_def)
qed

lemma fmtF_float_of_int:
  assumes "i \<noteq> 0" "float_of_int i = FNum neg ds dp"
  shows "ds \<noteq> [] \<and> int (length ds) \<le> dp \<and> fmtF neg ds dp = FormatInt i"
proof -
  obtain es k where e: "float_of_int i = FNum (i < 0) es (int (length es + k))" "es \<noteq> []"
    "dec_int \<bar>i\<bar> = es @ replicate k (CHR ''0'')"
    using float_of_int_shape [OF assms(1)] .
  then show ?thesis using assms(2) by (auto simp: fmtF_whole FormatInt_def sign_str_def)
qed

section \<open>Properties\<close>

text \<open>C25: two rows have the same encoding exactly when they have the same columns, in whatever
  order, and in each of them the same canonical value or both NULL. So equal digests of a row
  mean the same row, and column order never makes a difference.\<close>

theorem encodeRowCellsV2_canonical:
  assumes "encodeRowCellsV2 cols vals = Inr s" "encodeRowCellsV2 cols' vals' = Inr s'"
  shows "s = s' \<longleftrightarrow> canon_row cols vals = canon_row cols' vals'"
proof -
  let ?p = "zip cols (map canon vals)" and ?p' = "zip cols' (map canon vals')"
  note ok = encode_ok [OF assms(1)] encode_ok [OF assms(2)]
  have "s = s' \<longleftrightarrow> sort_key fst ?p = sort_key fst ?p'" using flat_inj ok by auto
  also have "\<dots> \<longleftrightarrow> set ?p = set ?p'"
    using ok sort_key_fst_cong [of ?p ?p'] by (metis length_map map_fst_zip set_sort)
  also have "\<dots> \<longleftrightarrow> canon_row cols vals = canon_row cols' vals'"
    using ok by (simp add: zip_set_of_canon_row graph_inj)
  finally show ?thesis .
qed

theorem encodeRowCellsV2_canonical_witness:
  "encodeRowCellsV2 [''b'', ''a''] [CInt 42, CNull] = Inr ''1:a=N;1:b=V2:42'' \<and>
   encodeRowCellsV2 [''a'', ''b''] [CNull, CFloat (float_of_int 42)] = Inr ''1:a=N;1:b=V2:42'' \<and>
   canon_row [''b'', ''a''] [CInt 42, CNull] = canon_row [''a'', ''b''] [CNull, CFloat (float_of_int 42)]"
proof -
  have h: "encodeRowCellsV2 [''b'', ''a''] [CInt 42, CNull] = Inr ''1:a=N;1:b=V2:42''"
    "encodeRowCellsV2 [''a'', ''b''] [CNull, CFloat (float_of_int 42)] = Inr ''1:a=N;1:b=V2:42''"
    by code_simp+
  show ?thesis using h encodeRowCellsV2_canonical [OF h] by simp
qed

text \<open>A whole number has one canonical text on every read path: scanned as an integer, decoded
  from a state dump as a float, or kept as a JSON literal.\<close>

theorem canonical_is_read_path_independent:
  "canonicalCellValue (CFloat (float_of_int i)) = canonicalCellValue (CInt i) \<and>
   canonicalCellValue (CNumber (FormatInt i) fo) = canonicalCellValue (CInt i)"
proof
  show "canonicalCellValue (CFloat (float_of_int i)) = canonicalCellValue (CInt i)"
  proof (cases "i = 0")
    case True
    then show ?thesis
      by (simp add: canonicalCellValue_def canonicalFloat_def float_of_int_def FormatInt_def
          dec_int.simps digit_zero)
  next
    case False
    obtain neg ds dp where f: "float_of_int i = FNum neg ds dp" using float_of_int_shape [OF False] .
    then show ?thesis using fmtF_float_of_int [OF False f]
      by (simp add: canonicalCellValue_def canonicalFloat_def)
  qed
next
  have "big_SetString (FormatInt i) = Some i"
  proof (cases "i < 0")
    case True
    then show ?thesis using dec_int_value [of "- i"] dec_int_not_Nil [of "- i"]
      by (simp add: big_SetString_def FormatInt_def)
  next
    case False
    then obtain c cs where c: "dec_int i = c # cs" "is_digit c"
      using dec_int_digits [of i] dec_int_not_Nil [of i] by (cases "dec_int i") auto
    have "c \<noteq> CHR ''-''" "c \<noteq> CHR ''+''" using c by (auto simp: is_digit_def)
    with False c dec_int_value [of i] show ?thesis by (simp add: big_SetString_def FormatInt_def)
  qed
  then show "canonicalCellValue (CNumber (FormatInt i) fo) = canonicalCellValue (CInt i)"
    by (simp add: canonicalCellValue_def)
qed

text \<open>
  \<open>coerceString\<close> is not: a number of seven digits or more has another text as a float.
\<close>

lemma coerceString_differs:
  "coerceString (CInt 1234567) = ''1234567'' \<and> coerceString (CFloat (float_of_int 1234567)) = ''1.234567e+06''"
  by code_simp

end
