(* ===== verification/TieResolver.thy ===== *)
theory TieResolver
  imports Lww Cells
begin

text \<open>
  Equal-timestamp tie resolution of \<^verbatim>\<open>internal/corrosion/resolver.go\<close>: the rules, the
  chains they are composed into, the table of chains and \<open>resolveTie\<close>. A rule is a function of
  the row view; a chain is the list of its rules. What \<open>resolveTie\<close> schedules for after the
  commit, the \<open>effect\<close> closure, is a value of the datatype \<open>tie_effect\<close>.

  Each rule promises one law, the locale \<open>tie_rule\<close>: seen from the other node, with local and
  incoming exchanged, it decides the opposite, or refuses alike. A chain of such rules that
  ends in one that always decides is a \<open>tie_chain\<close>, and both nodes of a tie reach the same
  outcome by it. Every chain of the table is one.
\<close>

section \<open>Decisions and row views\<close>

record tieDecision =
  td_decided :: bool
  td_keepLocal :: bool
  td_unresolved :: bool
  td_resolver :: string
  td_category :: string

definition pass :: tieDecision where
  "pass = \<lparr>td_decided = False, td_keepLocal = False, td_unresolved = False,
     td_resolver = '''', td_category = ''''\<rparr>"

definition decideKeepLocal :: "string \<Rightarrow> tieDecision" where
  "decideKeepLocal r = pass\<lparr>td_decided := True, td_keepLocal := True, td_resolver := r\<rparr>"

definition decideTakeIncoming :: "string \<Rightarrow> tieDecision" where
  "decideTakeIncoming r = pass\<lparr>td_decided := True, td_keepLocal := False, td_resolver := r\<rparr>"

definition decideUnresolved :: "string \<Rightarrow> tieDecision" where
  "decideUnresolved cat = pass\<lparr>td_decided := True, td_unresolved := True, td_category := cat\<rparr>"

record rowView =
  rv_cols :: "string list"
  rv_colIdx :: "string \<Rightarrow> nat option"
  rv_local :: "cell list"
  rv_incoming :: "cell list"

text \<open>The loop over the columns assigns in order, so a repeated name has its last index.\<close>

definition newRowView :: "string list \<Rightarrow> cell list \<Rightarrow> cell list \<Rightarrow> rowView" where
  "newRowView cols local incoming =
     \<lparr>rv_cols = cols, rv_colIdx = map_of (rev (zip cols [0..<length cols])),
      rv_local = local, rv_incoming = incoming\<rparr>"

definition rv_has :: "rowView \<Rightarrow> string \<Rightarrow> bool" where
  "rv_has rv col \<longleftrightarrow> rv_colIdx rv col \<noteq> None"

definition cellStr :: "cell list \<Rightarrow> (string \<Rightarrow> nat option) \<Rightarrow> string \<Rightarrow> string" where
  "cellStr row idx col =
     (case idx col of
        None \<Rightarrow> ''''
      | Some i \<Rightarrow> if i \<ge> length row \<or> row ! i = CNull then '''' else coerceString (row ! i))"

definition localStr :: "rowView \<Rightarrow> string \<Rightarrow> string" where
  "localStr rv col = cellStr (rv_local rv) (rv_colIdx rv) col"

definition incomingStr :: "rowView \<Rightarrow> string \<Rightarrow> string" where
  "incomingStr rv col = cellStr (rv_incoming rv) (rv_colIdx rv) col"

section \<open>Rules\<close>

type_synonym tieRule = "rowView \<Rightarrow> tieDecision"

definition ruleTombstone :: tieRule where
  "ruleTombstone rv =
     (if \<not> rv_has rv ''deleted_at'' then pass
      else
        let lDel = (localStr rv ''deleted_at'' \<noteq> ''''); iDel = (incomingStr rv ''deleted_at'' \<noteq> '''') in
        if lDel \<and> \<not> iDel then decideKeepLocal ''tombstone''
        else if \<not> lDel \<and> iDel then decideTakeIncoming ''tombstone''
        else pass)"

definition ruleColUnresolved :: "string \<Rightarrow> string \<Rightarrow> tieRule" where
  "ruleColUnresolved col category rv =
     (if \<not> rv_has rv col then pass
      else if localStr rv col \<noteq> incomingStr rv col then decideUnresolved category
      else pass)"

definition ruleAnyColUnresolved :: "string list \<Rightarrow> string \<Rightarrow> tieRule" where
  "ruleAnyColUnresolved cols category rv =
     (if list_ex (\<lambda>col. rv_has rv col \<and> localStr rv col \<noteq> incomingStr rv col) cols
      then decideUnresolved category else pass)"

definition ruleNumericMax :: "string \<Rightarrow> tieRule" where
  "ruleNumericMax col rv =
     (if \<not> rv_has rv col then pass
      else case (ParseInt (TrimSpace (localStr rv col)), ParseInt (TrimSpace (incomingStr rv col))) of
          (Some l, Some i) \<Rightarrow>
            if l = i then pass
            else if l > i then decideKeepLocal ''numeric_max''
            else decideTakeIncoming ''numeric_max''
        | _ \<Rightarrow> pass)"

definition parseInstant :: "string \<Rightarrow> int option" where
  "parseInstant s = (if s = '''' then None else parse_rfc3339 s)"

definition ruleTimestampMax :: "string \<Rightarrow> tieRule" where
  "ruleTimestampMax col rv =
     (if \<not> rv_has rv col then pass
      else
        let ls = localStr rv col; is = incomingStr rv col in
        if ls = is then pass
        else case (parseInstant ls, parseInstant is) of
            (Some lt, None) \<Rightarrow> decideKeepLocal ''timestamp_max''
          | (None, Some it) \<Rightarrow> decideTakeIncoming ''timestamp_max''
          | (None, None) \<Rightarrow> pass
          | (Some lt, Some it) \<Rightarrow>
              if lt = it then pass
              else if lt > it then decideKeepLocal ''timestamp_max''
              else decideTakeIncoming ''timestamp_max'')"

definition ruleNonNullWins :: "string \<Rightarrow> tieRule" where
  "ruleNonNullWins col rv =
     (if \<not> rv_has rv col then pass
      else
        let l = (localStr rv col \<noteq> ''''); i = (incomingStr rv col \<noteq> '''') in
        if l \<and> \<not> i then decideKeepLocal ''non_null_wins''
        else if \<not> l \<and> i then decideTakeIncoming ''non_null_wins''
        else pass)"

definition ruleLBGeneration :: "string \<Rightarrow> tieRule" where
  "ruleLBGeneration col rv =
     (if \<not> rv_has rv col then pass
      else
        let lg = localStr rv col; ig = incomingStr rv col in
        if lg = ig then pass
        else if lg \<noteq> '''' \<and> ig = '''' then decideKeepLocal ''lb_generation''
        else if lg = '''' \<and> ig \<noteq> '''' then decideTakeIncoming ''lb_generation''
        else decideUnresolved ''lb_token'')"

definition ruleContentMax :: tieRule where
  "ruleContentMax rv =
     (case (encodeRowCellsV2 (rv_cols rv) (rv_local rv), encodeRowCellsV2 (rv_cols rv) (rv_incoming rv)) of
        (Inr a, Inr b) \<Rightarrow>
          if a \<ge> b then decideKeepLocal ''content_max'' else decideTakeIncoming ''content_max''
      | _ \<Rightarrow> decideUnresolved ''uncategorized'')"

definition ruleUnresolved :: "string \<Rightarrow> tieRule" where
  "ruleUnresolved category rv = decideUnresolved category"

section \<open>Chains\<close>

definition contentDefaultChain :: "tieRule list" where
  "contentDefaultChain = [ruleTombstone, ruleContentMax]"

definition contentOpaqueChain :: "string list \<Rightarrow> tieRule list" where
  "contentOpaqueChain opaqueCols =
     [ruleTombstone]
     @ (if opaqueCols \<noteq> [] then [ruleAnyColUnresolved opaqueCols ''opaque''] else [])
     @ [ruleContentMax]"

definition tenancyOpaqueChain :: "string \<Rightarrow> string list \<Rightarrow> tieRule list" where
  "tenancyOpaqueChain projectCol opaqueCols =
     [ruleColUnresolved projectCol ''tenancy'', ruleTombstone]
     @ (if opaqueCols \<noteq> [] then [ruleAnyColUnresolved opaqueCols ''opaque''] else [])
     @ [ruleContentMax]"

definition policyChain :: "tieRule list" where
  "policyChain = [ruleTombstone, ruleUnresolved ''policy'']"

definition authPointerChain :: "string \<Rightarrow> tieRule list" where
  "authPointerChain pointerCol =
     [ruleTombstone, ruleColUnresolved pointerCol ''auth_pointer'', ruleContentMax]"

definition lbChain :: "tieRule list" where
  "lbChain = [ruleTombstone, ruleLBGeneration ''generation'', ruleContentMax]"

text \<open>A table's entry: its headline category and its chain. The map has one entry per table.\<close>

record tableResolver =
  tr_category :: string
  tr_chain :: "tieRule list"

definition entry :: "string \<Rightarrow> string \<Rightarrow> tieRule list \<Rightarrow> string \<times> tableResolver" where
  "entry table category chain = (table, \<lparr>tr_category = category, tr_chain = chain\<rparr>)"

definition capabilityMap :: "(string \<times> tableResolver) list" where
  "capabilityMap =
    [entry ''vms'' ''runtime-owned''
       [ruleColUnresolved ''host_name'' ''runtime_owned'',
        ruleColUnresolved ''project'' ''tenancy'',
        ruleColUnresolved ''pending_action_id'' ''runtime_owned'',
        ruleNumericMax ''vm_owner_epoch'',
        ruleNumericMax ''spec_generation'',
        ruleColUnresolved ''active_operation_id'' ''runtime_owned'',
        ruleTombstone,
        ruleAnyColUnresolved [''spec''] ''opaque'',
        ruleContentMax],
     entry ''containers'' ''runtime-owned''
       [ruleColUnresolved ''project'' ''tenancy'',
        ruleNumericMax ''owner_epoch'',
        ruleNumericMax ''spec_generation'',
        ruleColUnresolved ''active_operation_id'' ''runtime_owned'',
        ruleTombstone,
        ruleAnyColUnresolved [''create_spec''] ''opaque'',
        ruleContentMax],
     entry ''networks'' ''tenancy-content'' (tenancyOpaqueChain ''project'' [''config'']),
     entry ''storage_pools'' ''tenancy-content'' (tenancyOpaqueChain ''project'' []),
     entry ''volumes'' ''tenancy-content'' (tenancyOpaqueChain ''project'' [''config'']),
     entry ''backup_schedules'' ''tenancy-content'' (tenancyOpaqueChain ''project_name'' []),
     entry ''roles'' ''policy'' policyChain,
     entry ''role_bindings'' ''policy'' policyChain,
     entry ''users'' ''policy'' policyChain,
     entry ''tokens'' ''policy'' policyChain,
     entry ''projects'' ''policy'' policyChain,
     entry ''project_quotas'' ''policy'' policyChain,
     entry ''security_groups'' ''policy'' policyChain,
     entry ''sg_rules'' ''policy'' policyChain,
     entry ''ip_sets'' ''policy'' policyChain,
     entry ''cluster_firewall_rules'' ''policy'' policyChain,
     entry ''host_firewall_rules'' ''policy'' policyChain,
     entry ''firewall_defaults'' ''policy'' policyChain,
     entry ''registry_credentials'' ''policy'' policyChain,
     entry ''notification_targets'' ''policy'' policyChain,
     entry ''notification_routes'' ''policy'' policyChain,
     entry ''cluster_policies'' ''policy'' policyChain,
     entry ''host_fence_credentials'' ''policy'' policyChain,
     entry ''user_credentials'' ''policy'' policyChain,
     entry ''token_credentials'' ''policy'' policyChain,
     entry ''user_2fa'' ''auth''
       [ruleTombstone,
        ruleNumericMax ''last_step'',
        ruleTimestampMax ''last_used_at'',
        ruleUnresolved ''auth_factor''],
     entry ''recovery_codes'' ''auth''
       [ruleTombstone,
        ruleNonNullWins ''used_at'',
        ruleUnresolved ''auth_factor''],
     entry ''user_2fa_sets'' ''auth-pointer'' (authPointerChain ''active_epoch''),
     entry ''recovery_code_sets'' ''auth-pointer'' (authPointerChain ''active_set_id''),
     entry ''lb_configs'' ''lb'' lbChain,
     entry ''lb_backends'' ''lb'' lbChain,
     entry ''cluster'' ''content'' contentDefaultChain,
     entry ''hosts'' ''host-control-plane''
       [ruleTombstone,
        ruleAnyColUnresolved [''state'', ''address'', ''ssh_user'', ''ssh_port'', ''grpc_port'', ''cert_serial'', ''ipmi_address'', ''ipmi_user'', ''ipmi_pass'', ''watchdog_dev'', ''fence_strategy'', ''role'', ''schema_version'', ''capacity_policy_hash''] ''control_plane'',
        ruleContentMax],
     entry ''host_membership'' ''host-control-plane''
       [ruleTombstone,
        ruleAnyColUnresolved [''state'', ''isolation_epoch'', ''isolation_reason''] ''control_plane'',
        ruleContentMax],
     entry ''host_labels'' ''content'' contentDefaultChain,
     entry ''host_health'' ''content'' contentDefaultChain,
     entry ''health_conditions'' ''content'' contentDefaultChain,
     entry ''health_evaluator_status'' ''content'' contentDefaultChain,
     entry ''host_capacity_observations'' ''content'' contentDefaultChain,
     entry ''host_networks'' ''content'' contentDefaultChain,
     entry ''images'' ''content'' contentDefaultChain,
     entry ''image_hosts'' ''content'' contentDefaultChain,
     entry ''stacks'' ''content'' (contentOpaqueChain [''spec'', ''compose_yaml'']),
     entry ''vm_interfaces'' ''content'' contentDefaultChain,
     entry ''vm_disks'' ''content'' contentDefaultChain,
     entry ''vm_nics'' ''content'' contentDefaultChain,
     entry ''vm_pci_intent'' ''content'' (contentOpaqueChain [''selector_payload'']),
     entry ''vm_pci_realizations'' ''content'' contentDefaultChain,
     entry ''snapshots'' ''content'' contentDefaultChain,
     entry ''dns_records'' ''content'' contentDefaultChain,
     entry ''fencing_log'' ''content'' contentDefaultChain,
     entry ''audit_log'' ''content'' contentDefaultChain,
     entry ''network_vteps'' ''content'' contentDefaultChain,
     entry ''bgp_peers'' ''content'' contentDefaultChain,
     entry ''ip_allocations'' ''content'' contentDefaultChain,
     entry ''container_interfaces'' ''content'' contentDefaultChain,
     entry ''host_pci_devices'' ''content'' contentDefaultChain,
     entry ''resource_mappings'' ''content'' contentDefaultChain,
     entry ''service_endpoints'' ''content'' contentDefaultChain,
     entry ''backup_repos'' ''content'' contentDefaultChain,
     entry ''quota_reservations'' ''content'' contentDefaultChain,
     entry ''replication_checkpoints'' ''content'' contentDefaultChain,
     entry ''vm_backups'' ''content'' contentDefaultChain,
     entry ''container_backups'' ''content'' contentDefaultChain,
     entry ''container_snapshots'' ''content'' contentDefaultChain,
     entry ''audit_signing_keys'' ''content'' contentDefaultChain,
     entry ''audit_chain_heads'' ''content'' contentDefaultChain,
     entry ''audit_key_lifecycle'' ''content'' contentDefaultChain,
     entry ''cluster_crl'' ''content'' contentDefaultChain,
     entry ''netbox_bindings'' ''content'' contentDefaultChain,
     entry ''netbox_objects'' ''content'' contentDefaultChain,
     entry ''netbox_host_config'' ''content'' contentDefaultChain]"

section \<open>The replicated tables\<close>

definition tableNames :: "string list" where
  "tableNames =
    [''cluster'', ''hosts'', ''host_labels'', ''host_health'', ''health_conditions'',
     ''health_evaluator_status'', ''host_capacity_observations'', ''images'', ''image_hosts'',
     ''networks'', ''volumes'', ''stacks'', ''vms'', ''vm_interfaces'', ''vm_disks'',
     ''vm_nics'', ''vm_pci_intent'', ''vm_pci_realizations'', ''snapshots'', ''lb_configs'',
     ''lb_backends'', ''users'', ''tokens'', ''dns_records'', ''fencing_log'', ''audit_log'',
     ''network_vteps'', ''bgp_peers'', ''ip_allocations'', ''security_groups'', ''sg_rules'',
     ''containers'', ''container_interfaces'', ''storage_pools'', ''backup_schedules'',
     ''backup_repos'', ''replication_checkpoints'', ''quota_reservations'', ''host_pci_devices'',
     ''roles'', ''role_bindings'', ''projects'', ''project_quotas'', ''resource_mappings'',
     ''service_endpoints'', ''ip_sets'', ''cluster_firewall_rules'', ''host_firewall_rules'',
     ''firewall_defaults'', ''vm_backups'', ''container_backups'', ''container_snapshots'',
     ''operations'', ''operation_steps'', ''project_authority_epochs'', ''audit_signing_keys'',
     ''audit_chain_heads'', ''audit_key_lifecycle'', ''cluster_crl'', ''leader_lease_terms'',
     ''host_networks'', ''netbox_bindings'', ''netbox_objects'', ''netbox_host_config'',
     ''host_membership'', ''cluster_policies'', ''voter_configs'']"

definition sensitiveTableNames :: "string list" where
  "sensitiveTableNames =
    [''registry_credentials'', ''notification_targets'', ''notification_routes'', ''user_2fa'',
     ''user_2fa_sets'', ''recovery_codes'', ''recovery_code_sets'', ''runtime_action_proofs'',
     ''host_fence_credentials'', ''user_credentials'', ''token_credentials'']"

text \<open>The tables with a merge of their own, which never reach the resolver.\<close>

definition customMergeTables :: "string list" where
  "customMergeTables =
    [''runtime_action_proofs'', ''operations'', ''operation_steps'',
     ''project_authority_epochs'', ''leader_lease_terms'', ''voter_configs'']"

section \<open>Resolving a tie\<close>

datatype resolveTiePath = pathAE | pathWAL

text \<open>
  The closure handed back: tracking the tie as unresolved with its key, both rows, path and
  category, counting a tombstone tie, or counting a tie-break with the rule and the winner.
\<close>

datatype tie_effect =
    TrackUnresolved string "string list" "cell list" "cell list" resolveTiePath string
  | ObserveTombstoneTie string
  | ObserveTieBreak string string string

definition winnerLabel :: "bool \<Rightarrow> string" where
  "winnerLabel keepLocal = (if keepLocal then ''local'' else ''incoming'')"

text \<open>The first decision of a chain, \<open>pass\<close> when no rule decides.\<close>

fun walk :: "tieRule list \<Rightarrow> tieRule" where
  "walk [] rv = pass"
| "walk (r # rs) rv = (let d = r rv in if \<not> td_decided d then walk rs rv else d)"

definition same_encoding :: "string list \<Rightarrow> cell list \<Rightarrow> cell list \<Rightarrow> bool" where
  "same_encoding cols local incoming \<longleftrightarrow>
     (case encodeRowCellsV2 cols local of
        Inl _ \<Rightarrow> False
      | Inr a \<Rightarrow> (case encodeRowCellsV2 cols incoming of Inl _ \<Rightarrow> False | Inr b \<Rightarrow> a = b))"

definition resolveTie ::
  "string \<Rightarrow> string list \<Rightarrow> cell list \<Rightarrow> cell list \<Rightarrow> nat list \<Rightarrow> resolveTiePath
    \<Rightarrow> bool \<times> bool \<times> tie_effect option" where
  "resolveTie table cols local incoming pkIdx path =
     (if same_encoding cols local incoming then (True, False, None)
      else
        let pk = pkKeyAt incoming pkIdx in
        case map_of capabilityMap table of
          None \<Rightarrow>
            (True, True, Some (TrackUnresolved table pk local incoming path ''uncategorized''))
        | Some tr \<Rightarrow>
            let d = walk (tr_chain tr) (newRowView cols local incoming) in
            if \<not> td_decided d then (True, True, None)
            else if td_unresolved d
            then (True, True, Some (TrackUnresolved table pk local incoming path (td_category d)))
            else if td_resolver d = ''tombstone''
            then (td_keepLocal d, False, Some (ObserveTombstoneTie table))
            else (td_keepLocal d, False,
              Some (ObserveTieBreak table (td_resolver d) (winnerLabel (td_keepLocal d)))))"

section \<open>The same tie seen from the other node\<close>

text \<open>
  Two views of one tie: \<open>rv'\<close> holds as its local row what \<open>rv\<close> has as incoming, and the other
  way round. What a rule can see of the rows is the names, the cells as text and the encoding
  of the whole row, so that is all the two views have to agree on; the columns may stand in
  another order.
\<close>

definition opposite :: "rowView \<Rightarrow> rowView \<Rightarrow> bool" where
  "opposite rv rv' \<longleftrightarrow>
     (\<forall>c. rv_has rv' c = rv_has rv c \<and> localStr rv' c = incomingStr rv c \<and>
       incomingStr rv' c = localStr rv c) \<and>
     encodeRowCellsV2 (rv_cols rv') (rv_local rv') = encodeRowCellsV2 (rv_cols rv) (rv_incoming rv) \<and>
     encodeRowCellsV2 (rv_cols rv') (rv_incoming rv') = encodeRowCellsV2 (rv_cols rv) (rv_local rv) \<and>
     \<not> same_encoding (rv_cols rv) (rv_local rv) (rv_incoming rv)"

definition mirror :: "tieDecision \<Rightarrow> tieDecision" where
  "mirror d = (if td_decided d \<and> \<not> td_unresolved d then d\<lparr>td_keepLocal := \<not> td_keepLocal d\<rparr> else d)"

lemma decision_simps [simp]:
  "td_decided pass = False" "td_unresolved pass = False"
  "td_decided (decideKeepLocal r)" "td_keepLocal (decideKeepLocal r)"
  "td_unresolved (decideKeepLocal r) = False" "td_resolver (decideKeepLocal r) = r"
  "td_decided (decideTakeIncoming r)" "td_keepLocal (decideTakeIncoming r) = False"
  "td_unresolved (decideTakeIncoming r) = False" "td_resolver (decideTakeIncoming r) = r"
  "td_decided (decideUnresolved c)" "td_unresolved (decideUnresolved c)"
  "td_category (decideUnresolved c) = c"
  by (simp_all add: pass_def decideKeepLocal_def decideTakeIncoming_def decideUnresolved_def)

lemma mirror_simps [simp]:
  "mirror pass = pass" "mirror (decideKeepLocal r) = decideTakeIncoming r"
  "mirror (decideTakeIncoming r) = decideKeepLocal r" "mirror (decideUnresolved c) = decideUnresolved c"
  by (simp_all add: mirror_def pass_def decideKeepLocal_def decideTakeIncoming_def decideUnresolved_def)

lemma mirror_flags [simp]:
  "td_decided (mirror d) = td_decided d" "td_unresolved (mirror d) = td_unresolved d"
  "td_resolver (mirror d) = td_resolver d" "td_category (mirror d) = td_category d"
  by (simp_all add: mirror_def)

lemma oppositeD:
  "opposite rv rv' \<Longrightarrow>
    rv_has rv' = rv_has rv \<and> localStr rv' = incomingStr rv \<and> incomingStr rv' = localStr rv"
  by (simp add: opposite_def fun_eq_iff)

locale tie_rule =
  fixes rule :: tieRule
  assumes mirrored: "opposite rv rv' \<Longrightarrow> rule rv' = mirror (rule rv)"

lemma walk_mirrored_list:
  assumes o: "opposite rv rv'"
  shows "\<forall>r \<in> set rs. tie_rule r \<Longrightarrow> walk rs rv' = mirror (walk rs rv)"
proof (induction rs)
  case (Cons r rs)
  have "r rv' = mirror (r rv)" using Cons.prems o by (simp add: tie_rule_def)
  moreover have "walk rs rv' = mirror (walk rs rv)" using Cons by simp
  ultimately show ?case by (simp add: Let_def)
qed simp

locale tie_chain =
  fixes chain :: "tieRule list"
  assumes rules: "r \<in> set chain \<Longrightarrow> tie_rule r"
    and nonempty: "chain \<noteq> []"
    and terminal: "td_decided (last chain rv)"
begin

lemma walk_decides: "td_decided (walk chain rv)"
  using nonempty terminal [of rv] by (induction chain) (auto simp: Let_def split: if_splits)

lemma walk_mirrored: "opposite rv rv' \<Longrightarrow> walk chain rv' = mirror (walk chain rv)"
  using rules by (intro walk_mirrored_list) blast+

end

text \<open>Every rule keeps the law.\<close>

interpretation tombstone: tie_rule ruleTombstone
  by unfold_locales (auto dest!: oppositeD simp: ruleTombstone_def Let_def)

interpretation col_unresolved: tie_rule "ruleColUnresolved col category" for col category
  by unfold_locales (auto dest!: oppositeD simp: ruleColUnresolved_def)

interpretation any_col_unresolved: tie_rule "ruleAnyColUnresolved cols category" for cols category
  by unfold_locales (auto dest!: oppositeD simp: ruleAnyColUnresolved_def list_ex_iff)

interpretation numeric_max: tie_rule "ruleNumericMax col" for col
  by unfold_locales (auto dest!: oppositeD simp: ruleNumericMax_def split: option.splits)

interpretation timestamp_max: tie_rule "ruleTimestampMax col" for col
  by unfold_locales (auto dest!: oppositeD simp: ruleTimestampMax_def Let_def split: option.splits)

interpretation non_null_wins: tie_rule "ruleNonNullWins col" for col
  by unfold_locales (auto dest!: oppositeD simp: ruleNonNullWins_def Let_def)

interpretation lb_generation: tie_rule "ruleLBGeneration col" for col
  by unfold_locales (auto dest!: oppositeD simp: ruleLBGeneration_def Let_def)

interpretation content_max: tie_rule ruleContentMax
proof
  fix rv rv' assume "opposite rv rv'"
  then show "ruleContentMax rv' = mirror (ruleContentMax rv)"
    by (cases "encodeRowCellsV2 (rv_cols rv) (rv_local rv)";
        cases "encodeRowCellsV2 (rv_cols rv) (rv_incoming rv)")
      (auto simp: ruleContentMax_def opposite_def same_encoding_def)
qed

interpretation refuse: tie_rule "ruleUnresolved category" for category
  by unfold_locales (simp add: ruleUnresolved_def)

lemmas all_rules = tombstone.tie_rule_axioms col_unresolved.tie_rule_axioms
  any_col_unresolved.tie_rule_axioms numeric_max.tie_rule_axioms timestamp_max.tie_rule_axioms
  non_null_wins.tie_rule_axioms lb_generation.tie_rule_axioms content_max.tie_rule_axioms
  refuse.tie_rule_axioms

lemma terminal_rules [simp]: "td_decided (ruleContentMax rv)" "td_decided (ruleUnresolved c rv)"
  by (simp_all add: ruleContentMax_def ruleUnresolved_def split: sum.splits)

text \<open>
  The chain \<open>resolveTie\<close> walks for a table. A table without an entry is refused, which is the
  one-rule chain of \<open>ruleUnresolved\<close>.
\<close>

definition table_chain :: "string \<Rightarrow> tieRule list" where
  "table_chain table =
     (case map_of capabilityMap table of
        None \<Rightarrow> [ruleUnresolved ''uncategorized''] | Some tr \<Rightarrow> tr_chain tr)"

lemmas chain_defs = contentDefaultChain_def contentOpaqueChain_def tenancyOpaqueChain_def
  policyChain_def authPointerChain_def lbChain_def

definition good_chain :: "tieRule list \<Rightarrow> bool" where
  "good_chain chain \<longleftrightarrow> chain \<noteq> [] \<and> (\<forall>r \<in> set chain. tie_rule r) \<and> (\<forall>rv. td_decided (last chain rv))"

lemma good_chain_tie_chain: "good_chain chain \<Longrightarrow> tie_chain chain"
  by unfold_locales (auto simp: good_chain_def tie_rule.mirrored)

lemma good_chain_Cons: "tie_rule r \<Longrightarrow> good_chain rs \<Longrightarrow> good_chain (r # rs)"
  by (simp add: good_chain_def)

lemma good_chain_last: "good_chain [ruleContentMax]" "good_chain [ruleUnresolved c]"
  by (simp_all add: good_chain_def all_rules)

lemma good_chains:
  "good_chain contentDefaultChain" "good_chain (contentOpaqueChain cs)"
  "good_chain (tenancyOpaqueChain p cs)" "good_chain policyChain"
  "good_chain (authPointerChain p)" "good_chain lbChain"
  by (simp_all add: good_chain_def chain_defs all_rules)

lemma good_entry:
  "good_chain chain \<Longrightarrow> list_all (good_chain \<circ> tr_chain \<circ> snd) es \<Longrightarrow>
    list_all (good_chain \<circ> tr_chain \<circ> snd) (entry t c chain # es)"
  by (simp add: entry_def)

lemma capabilityMap_chains: "list_all (good_chain \<circ> tr_chain \<circ> snd) capabilityMap"
  unfolding capabilityMap_def
  by (intro good_entry good_chains good_chain_last good_chain_Cons all_rules list.pred_inject(1))

interpretation table: tie_chain "table_chain t" for t
proof -
  have "good_chain (tr_chain tr)" if "map_of capabilityMap t = Some tr" for tr
    using capabilityMap_chains map_of_SomeD [OF that] by (auto simp: list_all_iff)
  then have "good_chain (table_chain t)"
    by (auto simp: table_chain_def good_chain_def all_rules split: option.splits)
  then show "tie_chain (table_chain t)" by (rule good_chain_tie_chain)
qed

lemma resolveTie_walk:
  assumes "\<not> same_encoding cols local incoming"
    and d: "walk (table_chain t) (newRowView cols local incoming) = d"
  shows "fst (resolveTie t cols local incoming pkIdx path) = (td_unresolved d \<or> td_keepLocal d)"
    and "fst (snd (resolveTie t cols local incoming pkIdx path)) = td_unresolved d"
  using assms table.walk_decides [of t "newRowView cols local incoming"]
  by (auto simp: resolveTie_def table_chain_def ruleUnresolved_def Let_def split: option.splits)

section \<open>Two readings of one row\<close>

text \<open>
  The same row on two nodes: the same columns, maybe in another order, and in each column cells
  that read the same as text and canonically. The types of the cells may differ.
\<close>

definition same_reading :: "cell \<Rightarrow> cell \<Rightarrow> bool" where
  "same_reading v v' \<longleftrightarrow>
     (v = CNull) = (v' = CNull) \<and> coerceString v = coerceString v' \<and>
     canonicalCellValue v = canonicalCellValue v'"

definition same_row :: "string list \<Rightarrow> cell list \<Rightarrow> string list \<Rightarrow> cell list \<Rightarrow> bool" where
  "same_row cols vals cols' vals' \<longleftrightarrow>
     length vals = length cols \<and> length vals' = length cols' \<and> distinct cols \<and> distinct cols' \<and>
     set cols = set cols' \<and>
     list_all (\<lambda>c. same_reading (the (map_of (zip cols vals) c)) (the (map_of (zip cols' vals') c))) cols"

lemma colIdx_distinct:
  assumes "distinct cols"
  shows "map_of (rev (zip cols [0..<length cols])) c = Some i \<longleftrightarrow> i < length cols \<and> cols ! i = c"
proof -
  have "distinct (map fst (rev (zip cols [0..<length cols])))" using assms by (simp add: rev_map [symmetric])
  then show ?thesis by (simp add: map_of_eq_Some_iff in_set_zip) auto
qed

lemma colIdx_None: "map_of (rev (zip cols [0..<length cols])) c = None \<longleftrightarrow> c \<notin> set cols"
  by (simp add: map_of_eq_None_iff flip: set_map)

lemma same_row_reading:
  assumes "same_row cols vals cols' vals'" "c \<in> set cols"
  shows "\<exists>v v'. map_of (zip cols vals) c = Some v \<and> map_of (zip cols' vals') c = Some v' \<and> same_reading v v'"
proof -
  note s = assms(1) [unfolded same_row_def]
  obtain v v' where v: "map_of (zip cols vals) c = Some v" "map_of (zip cols' vals') c = Some v'"
    using s assms(2) by (metis map_of_zip_is_Some)
  have "same_reading (the (map_of (zip cols vals) c)) (the (map_of (zip cols' vals') c))"
    using s assms(2) by (simp only: list_all_iff)
  then show ?thesis unfolding v by simp
qed

lemma cellStr_map_of:
  assumes "distinct cols" "length vals = length cols"
  shows "cellStr vals (map_of (rev (zip cols [0..<length cols]))) c =
    (case map_of (zip cols vals) c of None \<Rightarrow> '''' | Some v \<Rightarrow> if v = CNull then '''' else coerceString v)"
proof (cases "c \<in> set cols")
  case True
  then obtain i where i: "i < length cols" "cols ! i = c" by (auto simp: in_set_conv_nth)
  then have "map_of (rev (zip cols [0..<length cols])) c = Some i"
    using colIdx_distinct [OF assms(1)] by simp
  moreover have "map_of (zip cols vals) c = Some (vals ! i)"
    using i assms map_of_zip_nth [of cols vals i] by simp
  ultimately show ?thesis using i assms by (simp add: cellStr_def)
next
  case False
  then have "map_of (rev (zip cols [0..<length cols])) c = None"
    by (simp add: colIdx_None)
  moreover have "map_of (zip cols vals) c = None"
    using False assms by (simp add: map_of_zip_is_None)
  ultimately show ?thesis by (simp add: cellStr_def)
qed

lemma same_row_cells:
  assumes "same_row cols vals cols' vals'"
  shows "cellStr vals (map_of (rev (zip cols [0..<length cols]))) c
    = cellStr vals' (map_of (rev (zip cols' [0..<length cols']))) c"
proof -
  note s = assms [unfolded same_row_def]
  show ?thesis
  proof (cases "c \<in> set cols")
    case True
    then obtain v v' where v: "map_of (zip cols vals) c = Some v" "map_of (zip cols' vals') c = Some v'"
      "same_reading v v'" using same_row_reading [OF assms] by blast
    then show ?thesis using s v by (simp add: cellStr_map_of same_reading_def)
  next
    case False
    then have "map_of (zip cols vals) c = None" "map_of (zip cols' vals') c = None"
      using s by (auto simp: map_of_zip_is_None)
    with s show ?thesis by (simp only: cellStr_map_of option.case)
  qed
qed

lemma encode_pairs_cong:
  "map (\<lambda>(n, v). (n, encode_value v)) ps = map (\<lambda>(n, v). (n, encode_value v)) qs \<Longrightarrow>
    encode_pairs ps = encode_pairs qs"
proof (induction ps arbitrary: qs rule: encode_pairs.induct)
  case (2 n v ps)
  then obtain w rs where q: "qs = (n, w) # rs" "encode_value w = encode_value v"
    and r: "map (\<lambda>(n, v). (n, encode_value v)) ps = map (\<lambda>(n, v). (n, encode_value v)) rs"
    by (cases qs) auto
  show ?case using 2(1) [OF _ r] q by (cases "encode_value v") simp_all
qed simp

lemma same_reading_value: "same_reading v v' \<Longrightarrow> encode_value v = encode_value v'"
  by (auto simp: same_reading_def encode_value_def)

lemma same_row_zip_values:
  assumes "same_row cols vals cols' vals'"
  shows "set (zip cols (map encode_value vals)) = set (zip cols' (map encode_value vals'))"
proof -
  note s = assms [unfolded same_row_def]
  have "map_of (zip cols (map encode_value vals)) = map_of (zip cols' (map encode_value vals'))"
  proof
    fix c
    have z: "map_of (zip cols (map encode_value vals)) c = map_option encode_value (map_of (zip cols vals) c)"
      "map_of (zip cols' (map encode_value vals')) c = map_option encode_value (map_of (zip cols' vals') c)"
      by (simp_all add: zip_map2 map_of_map)
    show "map_of (zip cols (map encode_value vals)) c = map_of (zip cols' (map encode_value vals')) c"
    proof (cases "c \<in> set cols")
      case True
      then obtain v v' where v: "map_of (zip cols vals) c = Some v" "map_of (zip cols' vals') c = Some v'"
        "same_reading v v'" using same_row_reading [OF assms] by blast
      then show ?thesis unfolding z using v same_reading_value by simp
    next
      case False
      then have "map_of (zip cols vals) c = None" "map_of (zip cols' vals') c = None"
        using s by (auto simp: map_of_zip_is_None)
      then show ?thesis unfolding z by simp
    qed
  qed
  then show ?thesis using s
    by (simp flip: graph_map_of_if_distinct_dom)
qed

lemma same_row_encode:
  assumes "same_row cols vals cols' vals'"
  shows "encodeRowCellsV2 cols vals = encodeRowCellsV2 cols' vals'"
proof -
  note s = assms [unfolded same_row_def]
  have m: "map (\<lambda>(n, v). (n, encode_value v)) (sort_key fst (zip cs vs))
      = sort_key fst (zip cs (map encode_value vs))"
    if "distinct cs" "length vs = length cs" for cs :: "string list" and vs
    using that by (simp add: sort_key_fst_map zip_map2)
  have "sort_key fst (zip cols (map encode_value vals)) = sort_key fst (zip cols' (map encode_value vals'))"
    using s same_row_zip_values [OF assms] by (intro sort_key_fst_cong) simp_all
  with s m have "encode_pairs (sort_key fst (zip cols vals)) = encode_pairs (sort_key fst (zip cols' vals'))"
    by (intro encode_pairs_cong) simp
  moreover have "first_dup [] cols = None" "first_dup [] cols' = None"
    using s by (simp_all add: first_dup_None)
  ultimately show ?thesis using s by (simp add: encodeRowCellsV2_def)
qed

lemma same_row_opposite:
  assumes l: "same_row cols l cols' l'" and i: "same_row cols i cols' i'"
    and n: "\<not> same_encoding cols l i"
  shows "opposite (newRowView cols l i) (newRowView cols' i' l')"
proof -
  have "set cols = set cols'" "distinct cols" "distinct cols'" using l by (simp_all add: same_row_def)
  then have "rv_has (newRowView cols l i) c \<longleftrightarrow> rv_has (newRowView cols' i' l') c" for c
    by (simp add: rv_has_def newRowView_def colIdx_None flip: not_None_eq)
  then show ?thesis
    using same_row_cells [OF l] same_row_cells [OF i] same_row_encode [OF l] same_row_encode [OF i] n
    by (simp add: opposite_def localStr_def incomingStr_def newRowView_def)
qed

section \<open>What the survivor of a tie looks like\<close>

text \<open>The row that stands after the decision, and a cell of it as text.\<close>

definition survivor :: "bool \<Rightarrow> cell list \<Rightarrow> cell list \<Rightarrow> cell list" where
  "survivor keepLocal local incoming = (if keepLocal then local else incoming)"

definition col_text :: "string list \<Rightarrow> cell list \<Rightarrow> string \<Rightarrow> string" where
  "col_text cols row col = localStr (newRowView cols row row) col"

definition col_int :: "string list \<Rightarrow> cell list \<Rightarrow> string \<Rightarrow> int option" where
  "col_int cols row col = ParseInt (TrimSpace (col_text cols row col))"

lemma col_text_views [simp]:
  "localStr (newRowView cols l i) c = col_text cols l c"
  "incomingStr (newRowView cols l i) c = col_text cols i c"
  by (simp_all add: localStr_def incomingStr_def newRowView_def col_text_def)

lemma has_col [simp]: "rv_has (newRowView cols l i) c \<longleftrightarrow> c \<in> set cols"
  using colIdx_None [of cols c] by (auto simp: rv_has_def newRowView_def)

lemma resolved_walk:
  assumes "resolveTie t cols local incoming pkIdx path = (k, False, Some eff)"
  obtains d where "walk (table_chain t) (newRowView cols local incoming) = d"
    "td_decided d" "\<not> td_unresolved d" "td_keepLocal d = k"
proof -
  have n: "\<not> same_encoding cols local incoming" using assms by (auto simp: resolveTie_def)
  show ?thesis
    using that resolveTie_walk [OF n refl, of t pkIdx path] assms
      table.walk_decides [of t "newRowView cols local incoming"] by auto
qed

text \<open>The chains that settle a one-sided delete before any rule can take a live row.\<close>

definition tombstone_led :: "tieRule list \<Rightarrow> bool" where
  "tombstone_led chain \<longleftrightarrow>
     (\<exists>rs. chain = ruleTombstone # rs) \<or>
     (\<exists>col cat rs. chain = ruleColUnresolved col cat # ruleTombstone # rs)"

lemma tombstone_led_intros:
  "tombstone_led (ruleTombstone # rs)" "tombstone_led contentDefaultChain"
  "tombstone_led (contentOpaqueChain cs)" "tombstone_led (tenancyOpaqueChain p cs)"
  "tombstone_led policyChain" "tombstone_led (authPointerChain p)" "tombstone_led lbChain"
  by (auto simp: tombstone_led_def chain_defs)

lemma led_entry:
  "tombstone_led chain \<Longrightarrow> list_all (\<lambda>(t, tr). t \<in> S \<or> tombstone_led (tr_chain tr)) es \<Longrightarrow>
    list_all (\<lambda>(t, tr). t \<in> S \<or> tombstone_led (tr_chain tr)) (entry t c chain # es)"
  by (simp add: entry_def)

lemma exempt_entry:
  "t \<in> S \<Longrightarrow> list_all (\<lambda>(t, tr). t \<in> S \<or> tombstone_led (tr_chain tr)) es \<Longrightarrow>
    list_all (\<lambda>(t, tr). t \<in> S \<or> tombstone_led (tr_chain tr)) (entry t c chain # es)"
  by (simp add: entry_def)

lemma capabilityMap_tombstones:
  "list_all (\<lambda>(t, tr). t \<in> {''vms'', ''containers''} \<or> tombstone_led (tr_chain tr)) capabilityMap"
  unfolding capabilityMap_def
  by (rule exempt_entry, simp, rule exempt_entry, simp)
    (intro led_entry tombstone_led_intros list.pred_inject(1))

lemma tombstone_led_walk:
  assumes "tombstone_led chain" "td_decided (walk chain rv)" "\<not> td_unresolved (walk chain rv)"
    and "rv_has rv ''deleted_at''" "(localStr rv ''deleted_at'' = '''') \<noteq> (incomingStr rv ''deleted_at'' = '''')"
  shows "td_keepLocal (walk chain rv) \<longleftrightarrow> localStr rv ''deleted_at'' \<noteq> ''''"
  using assms unfolding tombstone_led_def
  by (auto simp: Let_def ruleTombstone_def ruleColUnresolved_def split: if_splits)

lemma table_chain_simps:
  "table_chain ''vms'' =
     [ruleColUnresolved ''host_name'' ''runtime_owned'', ruleColUnresolved ''project'' ''tenancy'',
      ruleColUnresolved ''pending_action_id'' ''runtime_owned'', ruleNumericMax ''vm_owner_epoch'',
      ruleNumericMax ''spec_generation'', ruleColUnresolved ''active_operation_id'' ''runtime_owned'',
      ruleTombstone, ruleAnyColUnresolved [''spec''] ''opaque'', ruleContentMax]"
  "table_chain ''user_2fa'' =
     [ruleTombstone, ruleNumericMax ''last_step'', ruleTimestampMax ''last_used_at'',
      ruleUnresolved ''auth_factor'']"
  by (simp_all add: table_chain_def capabilityMap_def entry_def)

lemma walk_ColUnresolved:
  assumes "walk (ruleColUnresolved c cat # rs) (newRowView cols l i) = d" "\<not> td_unresolved d" "c \<in> set cols"
  shows "col_text cols l c = col_text cols i c \<and> walk rs (newRowView cols l i) = d"
  using assms by (auto simp: ruleColUnresolved_def Let_def split: if_splits)

lemma walk_NumericMax:
  assumes "c \<in> set cols" "col_int cols l c = Some a" "col_int cols i c = Some b" "a \<noteq> b"
  shows "walk (ruleNumericMax c # rs) (newRowView cols l i)
    = (if a > b then decideKeepLocal ''numeric_max'' else decideTakeIncoming ''numeric_max'')"
  using assms by (auto simp: ruleNumericMax_def col_int_def Let_def)

section \<open>Properties\<close>

text \<open>C5: both nodes of a tie reach the same outcome. One node holds a row as local and gets the
  other's as incoming; the other node sees the same two rows the other way round, its columns
  maybe in another order and its numbers maybe read with another type. Then either both refuse
  and keep their own row, flagged, or the row that survives is the same on both, or the two
  rows were the same to begin with.\<close>

theorem resolveTie_converges:
  assumes l: "same_row cols l cols' l'" and i: "same_row cols i cols' i'"
    and A: "resolveTie t cols l i pkA pathA = (kA, uA, effA)"
    and B: "resolveTie t cols' i' l' pkB pathB = (kB, uB, effB)"
  shows "uA = uB \<and> (uA \<longrightarrow> kA \<and> kB) \<and>
    (\<not> uA \<longrightarrow> kA = (\<not> kB) \<or> (\<exists>s. encodeRowCellsV2 cols l = Inr s \<and> encodeRowCellsV2 cols i = Inr s))"
proof (cases "same_encoding cols l i")
  case True
  then have "same_encoding cols' i' l'"
    using same_row_encode [OF l] same_row_encode [OF i]
    by (auto simp: same_encoding_def split: sum.splits)
  with True A B show ?thesis by (auto simp: resolveTie_def same_encoding_def split: sum.splits)
next
  case False
  then have False': "\<not> same_encoding cols' i' l'"
    using same_row_encode [OF l] same_row_encode [OF i]
    by (auto simp: same_encoding_def split: sum.splits)
  define d where "d = walk (table_chain t) (newRowView cols l i)"
  have e: "walk (table_chain t) (newRowView cols' i' l') = mirror d"
    unfolding d_def by (rule table.walk_mirrored [OF same_row_opposite [OF l i False]])
  have "td_decided d" unfolding d_def by (rule table.walk_decides)
  then have "td_keepLocal (mirror d) = (\<not> td_keepLocal d)" if "\<not> td_unresolved d"
    using that by (simp add: mirror_def)
  then show ?thesis
    using resolveTie_walk [OF False d_def [symmetric], of pkA pathA] resolveTie_walk [OF False' e, of pkB pathB] A B
    by auto
qed

definition demo_cols :: "string list" where
  "demo_cols = [''name'', ''deleted_at'', ''size'', ''updated_at'']"

definition demo_cols' :: "string list" where
  "demo_cols' = [''updated_at'', ''name'', ''size'', ''deleted_at'']"

theorem resolveTie_converges_witness:
  "same_row demo_cols [CStr ''img'', CNull, CInt 42, CStr ''t''] demo_cols' [CStr ''t'', CStr ''img'', CFloat (float_of_int 42), CNull] \<and>
   same_row demo_cols [CStr ''img'', CNull, CFloat (float_of_int 7), CStr ''t''] demo_cols' [CStr ''t'', CStr ''img'', CInt 7, CNull] \<and>
   (case resolveTie ''images'' demo_cols [CStr ''img'', CNull, CInt 42, CStr ''t'']
           [CStr ''img'', CNull, CFloat (float_of_int 7), CStr ''t''] [0] pathAE of
      (kA, uA, _) \<Rightarrow>
        case resolveTie ''images'' demo_cols' [CStr ''t'', CStr ''img'', CInt 7, CNull]
           [CStr ''t'', CStr ''img'', CFloat (float_of_int 42), CNull] [1] pathAE of
          (kB, uB, _) \<Rightarrow> \<not> uA \<and> \<not> uB \<and> kA = (\<not> kB))"
proof -
  let ?l = "[CStr ''img'', CNull, CInt 42, CStr ''t'']"
  let ?l' = "[CStr ''t'', CStr ''img'', CFloat (float_of_int 42), CNull]"
  let ?i = "[CStr ''img'', CNull, CFloat (float_of_int 7), CStr ''t'']"
  let ?i' = "[CStr ''t'', CStr ''img'', CInt 7, CNull]"
  have h: "same_row demo_cols ?l demo_cols' ?l'" "same_row demo_cols ?i demo_cols' ?i'"
    by code_simp+
  have n: "encodeRowCellsV2 demo_cols ?l \<noteq> encodeRowCellsV2 demo_cols ?i" by code_simp
  have u: "\<not> fst (snd (resolveTie ''images'' demo_cols ?l ?i [0] pathAE))" by code_simp
  obtain kA uA eA kB uB eB where
    A: "resolveTie ''images'' demo_cols ?l ?i [0] pathAE = (kA, uA, eA)" and
    B: "resolveTie ''images'' demo_cols' ?i' ?l' [1] pathAE = (kB, uB, eB)"
    by (metis prod_cases3)
  from resolveTie_converges [OF h A B] n u A have "\<not> uA \<and> \<not> uB \<and> kA = (\<not> kB)" by auto
  with h show ?thesis unfolding A B by simp
qed

text \<open>The tables with a chain, in order; both sides of the comparison are sorted to it.\<close>

definition resolved_tables :: "string list" where
  "resolved_tables =
    [''audit_chain_heads'', ''audit_key_lifecycle'', ''audit_log'', ''audit_signing_keys'',
     ''backup_repos'', ''backup_schedules'', ''bgp_peers'', ''cluster'', ''cluster_crl'',
     ''cluster_firewall_rules'', ''cluster_policies'', ''container_backups'',
     ''container_interfaces'', ''container_snapshots'', ''containers'', ''dns_records'',
     ''fencing_log'', ''firewall_defaults'', ''health_conditions'', ''health_evaluator_status'',
     ''host_capacity_observations'', ''host_fence_credentials'', ''host_firewall_rules'',
     ''host_health'', ''host_labels'', ''host_membership'', ''host_networks'',
     ''host_pci_devices'', ''hosts'', ''image_hosts'', ''images'', ''ip_allocations'',
     ''ip_sets'', ''lb_backends'', ''lb_configs'', ''netbox_bindings'', ''netbox_host_config'',
     ''netbox_objects'', ''network_vteps'', ''networks'', ''notification_routes'',
     ''notification_targets'', ''project_quotas'', ''projects'', ''quota_reservations'',
     ''recovery_code_sets'', ''recovery_codes'', ''registry_credentials'',
     ''replication_checkpoints'', ''resource_mappings'', ''role_bindings'', ''roles'',
     ''security_groups'', ''service_endpoints'', ''sg_rules'', ''snapshots'', ''stacks'',
     ''storage_pools'', ''token_credentials'', ''tokens'', ''user_2fa'', ''user_2fa_sets'',
     ''user_credentials'', ''users'', ''vm_backups'', ''vm_disks'', ''vm_interfaces'',
     ''vm_nics'', ''vm_pci_intent'', ''vm_pci_realizations'', ''vms'', ''volumes'']"

lemma capabilityMap_tables: "sort (map fst capabilityMap) = resolved_tables"
  unfolding capabilityMap_def entry_def list.map fst_conv by code_simp

lemma repaired_tables:
  "sort (filter (\<lambda>t. t \<notin> set customMergeTables) (tableNames @ sensitiveTableNames)) = resolved_tables"
  by code_simp

lemma resolved_tables_distinct: "sorted_wrt (<) resolved_tables"
proof -
  have "successively (<) resolved_tables" by code_simp
  then show ?thesis by (simp add: successively_iff_sorted_wrt_strong)
qed

text \<open>every table that anti-entropy repairs either has a merge of its own or exactly one chain,
  and no other table has one; and no chain falls through: \<open>resolveTie\<close> reports a consequence for
  every pair of rows that differ.\<close>

theorem every_tie_is_decided:
  "set (map fst capabilityMap) = (set tableNames \<union> set sensitiveTableNames) - set customMergeTables \<and>
   distinct (map fst capabilityMap) \<and>
   (\<forall>t cols l i pk path. snd (snd (resolveTie t cols l i pk path)) = None \<longleftrightarrow> same_encoding cols l i)"
proof (intro conjI allI)
  show "set (map fst capabilityMap) = (set tableNames \<union> set sensitiveTableNames) - set customMergeTables"
    using arg_cong [OF capabilityMap_tables, of set] arg_cong [OF repaired_tables, of set] by auto
  show "distinct (map fst capabilityMap)"
    using resolved_tables_distinct capabilityMap_tables by (metis distinct_sort strict_sorted_iff)
next
  fix t cols l i pk path
  show "snd (snd (resolveTie t cols l i pk path)) = None \<longleftrightarrow> same_encoding cols l i"
    using table.walk_decides [of t "newRowView cols l i"]
    by (auto simp: resolveTie_def table_chain_def Let_def split: option.splits)
qed

text \<open>C23: a tied merge never brings back a deleted row: when exactly one of the two rows is
  soft-deleted and the tie resolves, the deleted row is the one that stands. The two workload
  tables are the exception: their ownership and spec counters are asked first.\<close>

theorem tie_never_resurrects:
  assumes "resolveTie t cols l i pkIdx path = (k, False, Some eff)"
    and "t \<notin> {''vms'', ''containers''}" "''deleted_at'' \<in> set cols"
    and "(col_text cols l ''deleted_at'' = '''') \<noteq> (col_text cols i ''deleted_at'' = '''')"
  shows "col_text cols (survivor k l i) ''deleted_at'' \<noteq> ''''"
proof -
  obtain d where d: "walk (table_chain t) (newRowView cols l i) = d"
    "td_decided d" "\<not> td_unresolved d" "td_keepLocal d = k"
    using resolved_walk [OF assms(1)] .
  have "tombstone_led (table_chain t)"
  proof (cases "map_of capabilityMap t")
    case None
    with d show ?thesis by (auto simp: table_chain_def ruleUnresolved_def)
  next
    case (Some tr)
    then have "(t, tr) \<in> set capabilityMap" by (rule map_of_SomeD)
    with assms(2) capabilityMap_tombstones Some show ?thesis
      by (auto simp: list_all_iff table_chain_def)
  qed
  from tombstone_led_walk [OF this, of "newRowView cols l i"] d assms(3,4) show ?thesis
    by (auto simp: survivor_def)
qed

theorem tie_never_resurrects_witness:
  "col_text demo_cols (survivor False [CStr ''img'', CNull, CInt 9, CStr ''t''] [CStr ''img'', CStr ''t'', CInt 1, CStr ''t'']) ''deleted_at'' \<noteq> ''''"
proof -
  have r: "resolveTie ''images'' demo_cols [CStr ''img'', CNull, CInt 9, CStr ''t'']
      [CStr ''img'', CStr ''t'', CInt 1, CStr ''t''] [0] pathWAL = (False, False, Some (ObserveTombstoneTie ''images''))"
    by code_simp
  show ?thesis by (rule tie_never_resurrects [OF r]) code_simp+
qed

text \<open>C22: a tie never moves a virtual machine. When a tie on its row resolves, the two rows name the
  same host, the same project and the same authorising proof, and where both ownership epochs
  are numbers the row with the highest one stands.\<close>

theorem tie_never_moves_vm:
  assumes "resolveTie ''vms'' cols l i pkIdx path = (k, False, Some eff)"
    and "{''host_name'', ''project'', ''pending_action_id'', ''vm_owner_epoch''} \<subseteq> set cols"
  shows "col_text cols l ''host_name'' = col_text cols i ''host_name'' \<and>
    col_text cols l ''project'' = col_text cols i ''project'' \<and>
    col_text cols l ''pending_action_id'' = col_text cols i ''pending_action_id'' \<and>
    (\<forall>a b. col_int cols l ''vm_owner_epoch'' = Some a \<and> col_int cols i ''vm_owner_epoch'' = Some b \<longrightarrow>
      col_int cols (survivor k l i) ''vm_owner_epoch'' = Some (max a b))"
proof -
  obtain d where d: "walk (table_chain ''vms'') (newRowView cols l i) = d"
    "td_decided d" "\<not> td_unresolved d" "td_keepLocal d = k"
    using resolved_walk [OF assms(1)] .
  define rest where "rest = [ruleNumericMax ''spec_generation'', ruleColUnresolved ''active_operation_id'' ''runtime_owned'',
      ruleTombstone, ruleAnyColUnresolved [''spec''] ''opaque'', ruleContentMax]"
  have chain: "table_chain ''vms'' = ruleColUnresolved ''host_name'' ''runtime_owned'' #
      ruleColUnresolved ''project'' ''tenancy'' # ruleColUnresolved ''pending_action_id'' ''runtime_owned'' #
      ruleNumericMax ''vm_owner_epoch'' # rest"
    by (simp only: table_chain_simps rest_def)
  have c: "''host_name'' \<in> set cols" "''project'' \<in> set cols" "''pending_action_id'' \<in> set cols"
    "''vm_owner_epoch'' \<in> set cols" using assms(2) by simp_all
  have e: "col_text cols l ''host_name'' = col_text cols i ''host_name''"
    "col_text cols l ''project'' = col_text cols i ''project''"
    "col_text cols l ''pending_action_id'' = col_text cols i ''pending_action_id''"
    and w: "walk (ruleNumericMax ''vm_owner_epoch'' # rest) (newRowView cols l i) = d"
  proof -
    note w1 = walk_ColUnresolved [OF d(1) [unfolded chain] d(3) c(1)]
    note w2 = walk_ColUnresolved [OF conjunct2 [OF w1] d(3) c(2)]
    note w3 = walk_ColUnresolved [OF conjunct2 [OF w2] d(3) c(3)]
    show "col_text cols l ''host_name'' = col_text cols i ''host_name''"
      "col_text cols l ''project'' = col_text cols i ''project''"
      "col_text cols l ''pending_action_id'' = col_text cols i ''pending_action_id''"
      "walk (ruleNumericMax ''vm_owner_epoch'' # rest) (newRowView cols l i) = d"
      using w1 w2 w3 by (simp_all only:)
  qed
  have "col_int cols (survivor k l i) ''vm_owner_epoch'' = Some (max a b)"
    if "col_int cols l ''vm_owner_epoch'' = Some a" "col_int cols i ''vm_owner_epoch'' = Some b" for a b
  proof (cases "a = b")
    case False
    with walk_NumericMax [OF c(4) that False, of rest] w
    have "d = (if a > b then decideKeepLocal ''numeric_max'' else decideTakeIncoming ''numeric_max'')"
      by (simp only:)
    then show ?thesis using that d(4) by (auto simp: survivor_def split: if_splits)
  qed (use that in \<open>simp add: survivor_def\<close>)
  with e show ?thesis by blast
qed

definition demo_vm_cols :: "string list" where
  "demo_vm_cols = [''host_name'', ''project'', ''pending_action_id'', ''vm_owner_epoch'']"

theorem tie_never_moves_vm_witness:
  "col_text demo_vm_cols [CStr ''h1'', CStr ''p'', CNull, CInt 3] ''host_name''
     = col_text demo_vm_cols [CStr ''h1'', CStr ''p'', CNull, CInt 4] ''host_name'' \<and>
   col_int demo_vm_cols (survivor False [CStr ''h1'', CStr ''p'', CNull, CInt 3] [CStr ''h1'', CStr ''p'', CNull, CInt 4])
     ''vm_owner_epoch'' = Some (max 3 4)"
proof -
  have r: "resolveTie ''vms'' demo_vm_cols [CStr ''h1'', CStr ''p'', CNull, CInt 3]
      [CStr ''h1'', CStr ''p'', CNull, CInt 4] [0] pathAE
      = (False, False, Some (ObserveTieBreak ''vms'' ''numeric_max'' ''incoming''))"
    and e: "col_int demo_vm_cols [CStr ''h1'', CStr ''p'', CNull, CInt 3] ''vm_owner_epoch'' = Some 3"
      "col_int demo_vm_cols [CStr ''h1'', CStr ''p'', CNull, CInt 4] ''vm_owner_epoch'' = Some 4"
    by code_simp+
  have c: "{''host_name'', ''project'', ''pending_action_id'', ''vm_owner_epoch''} \<subseteq> set demo_vm_cols"
    by code_simp
  show ?thesis using tie_never_moves_vm [OF r c] e by blast
qed

text \<open>Where both replay counters of a second factor read as numbers and neither or both rows are
  deleted, the tie keeps the higher counter: the guard against replaying a one-time code never
  moves back.\<close>

theorem totp_ratchet_keeps_maximum:
  assumes "resolveTie ''user_2fa'' cols l i pkIdx path = (k, u, eff)"
    and "{''deleted_at'', ''last_step''} \<subseteq> set cols" "\<not> same_encoding cols l i"
    and "(col_text cols l ''deleted_at'' = '''') = (col_text cols i ''deleted_at'' = '''')"
    and "col_int cols l ''last_step'' = Some a" "col_int cols i ''last_step'' = Some b"
  shows "col_int cols (survivor k l i) ''last_step'' = Some (max a b)"
proof -
  define d where "d = walk (table_chain ''user_2fa'') (newRowView cols l i)"
  have k: "k = (td_unresolved d \<or> td_keepLocal d)"
    using resolveTie_walk(1) [OF assms(3) d_def [symmetric], of pkIdx path] assms(1) by simp
  show ?thesis
  proof (cases "a = b")
    case True
    then show ?thesis using assms(5,6) by (simp add: survivor_def)
  next
    case False
    then have "d = (if a > b then decideKeepLocal ''numeric_max'' else decideTakeIncoming ''numeric_max'')"
      using assms(2,4-6)
      by (auto simp: d_def table_chain_simps ruleTombstone_def ruleNumericMax_def col_int_def Let_def)
    then show ?thesis using k assms(5,6) by (auto simp: survivor_def)
  qed
qed

definition demo_2fa_cols :: "string list" where
  "demo_2fa_cols = [''username'', ''last_step'', ''last_used_at'', ''deleted_at'']"

theorem totp_ratchet_keeps_maximum_witness:
  "col_int demo_2fa_cols (survivor True [CStr ''u'', CInt 59123457, CNull, CNull] [CStr ''u'', CInt 59123456, CNull, CNull])
     ''last_step'' = Some (max 59123457 59123456)"
proof -
  have r: "resolveTie ''user_2fa'' demo_2fa_cols [CStr ''u'', CInt 59123457, CNull, CNull]
      [CStr ''u'', CInt 59123456, CNull, CNull] [0] pathWAL
      = (True, False, Some (ObserveTieBreak ''user_2fa'' ''numeric_max'' ''local''))"
    by code_simp
  show ?thesis by (rule totp_ratchet_keeps_maximum [OF r]) code_simp+
qed


end
