(* ===== verification/LeaderLease.thy ===== *)
theory LeaderLease
  imports Lww Cells
begin

text \<open>
  Leader leases with fencing terms: \<^verbatim>\<open>internal/corrosion/leader_lease.go\<close>,
  \<^verbatim>\<open>leader_lease_hold.go\<close>, \<^verbatim>\<open>leader_lease_contest.go\<close> and
  \<^verbatim>\<open>leader_lease_clearance.go\<close>. A lease is a row of \<open>leader_election\<close> with a holder and an
  expiry; every incarnation of it also has a row in the append-only ledger
  \<open>leader_lease_terms\<close>, and the term of that row is the fencing token.

  A call runs between other writers: sibling callers of the same process, and replication,
  which brings the rows of peers. The model makes that explicit. All shared state is one
  \<open>world\<close>, a call is a sequence of atomic accesses to it, and before each access the
  environment may replace the world (\<open>env_other\<close>). The environment also decides which database
  accesses fail, which commits fail, how much time has passed, whether the mint gate is open
  and what the peers answer to a mint clearance. A result is \<open>Inl\<close> of the error the source
  wraps, or \<open>Inr\<close> of the returned values.

  The column \<open>updated_at\<close>, which only replication reads, is left out of both tables.
\<close>

section \<open>Tables and process memory\<close>

definition LeaseKeyFailover :: string where "LeaseKeyFailover = ''failover''"
definition LeaseKeyRebalancer :: string where "LeaseKeyRebalancer = ''rebalancer''"
definition LeaseKeyDualRun :: string where "LeaseKeyDualRun = ''dual_run_detector''"

definition ValidLeaseKey :: "string \<Rightarrow> bool" where
  "ValidLeaseKey key \<longleftrightarrow> key \<in> set [LeaseKeyFailover, LeaseKeyRebalancer, LeaseKeyDualRun]"

record term_row =
  t_key :: string
  t_term :: int
  t_holder :: string
  t_acquired :: string
  t_deleted :: bool

datatype leaseTerm = leaseTerm (lt_Term: int) (lt_Holder: string)

text \<open>
  \<open>election\<close> is \<open>leader_election\<close>, a holder and an expiry per key. \<open>termless\<close> and \<open>minted\<close> are
  \<open>termlessIncarnations\<close> and \<open>mintedHere\<close> of this client, \<open>contests\<close> its claimant register,
  \<open>withheld\<close> the reason a clearance was last refused.
\<close>

record world =
  election :: "(string \<times> (string \<times> string)) list"
  terms :: "term_row list"
  termless :: "string \<Rightarrow> bool"
  minted :: "string \<Rightarrow> int option"
  contests :: "(string \<times> int) \<Rightarrow> string list"
  withheld :: "string \<Rightarrow> string option"

section \<open>Reading the ledger\<close>

definition rows_of :: "string \<Rightarrow> term_row list \<Rightarrow> term_row list" where
  "rows_of key rs = filter (\<lambda>r. t_key r = key) rs"

definition live_rows :: "string \<Rightarrow> term_row list \<Rightarrow> term_row list" where
  "live_rows key rs = filter (\<lambda>r. \<not> t_deleted r) (rows_of key rs)"

text \<open>\<open>ORDER BY term DESC LIMIT 1\<close>, and \<open>COALESCE(MAX(term), 0)\<close>.\<close>

fun top_row :: "term_row list \<Rightarrow> term_row option" where
  "top_row [] = None"
| "top_row (r # rs) =
     (case top_row rs of None \<Rightarrow> Some r | Some b \<Rightarrow> if t_term b > t_term r then Some b else Some r)"

definition newest_live :: "string \<Rightarrow> term_row list \<Rightarrow> leaseTerm" where
  "newest_live key rs =
     (case top_row (live_rows key rs) of
        None \<Rightarrow> leaseTerm 0 ''''
      | Some r \<Rightarrow> leaseTerm (t_term r) (t_holder r))"

definition max_term :: "term_row list \<Rightarrow> int" where
  "max_term rs = (case top_row rs of None \<Rightarrow> 0 | Some r \<Rightarrow> t_term r)"

section \<open>Calls between other writers\<close>

record LeaseMintRequest =
  mr_Key :: string
  mr_Term :: int
  mr_Holder :: string
  mr_Takeover :: bool
  mr_Now :: string

datatype lease_error =
  ReadLease | ReadNewestTerm | AllocateTerm | RenewLease | RenewLeaseAtTerm | AcquireWithTerm

text \<open>
  \<open>env_since\<close> is \<open>time.Since(entry)\<close> at an access, \<open>env_clear\<close> the injected clearance, \<open>None\<close> when
  there is none. The argument of each function is the number of accesses made before.
\<close>

record lease_env =
  env_now :: int
  env_since :: "nat \<Rightarrow> int"
  env_other :: "nat \<Rightarrow> world \<Rightarrow> world"
  env_err :: "nat \<Rightarrow> bool"
  env_commit_err :: "nat \<Rightarrow> bool"
  env_may :: "nat \<Rightarrow> bool"
  env_clear :: "(nat \<Rightarrow> LeaseMintRequest \<Rightarrow> bool \<times> string) option"

type_synonym lease_state = "nat \<times> world"
type_synonym 'a call = "lease_env \<Rightarrow> lease_state \<Rightarrow> (lease_error + 'a) \<times> lease_state"

definition ret :: "'a \<Rightarrow> 'a call" where
  "ret x env s = (Inr x, s)"

definition andthen :: "'a call \<Rightarrow> ('a \<Rightarrow> 'b call) \<Rightarrow> 'b call" where
  "andthen m f env s =
     (case m env s of (Inl e, s') \<Rightarrow> (Inl e, s') | (Inr x, s') \<Rightarrow> f x env s')"

text \<open>An atomic access to the shared state that cannot fail, and one to the database.\<close>

definition locked :: "(world \<Rightarrow> 'a \<times> world) \<Rightarrow> 'a call" where
  "locked f env s =
     (let (n, w) = s; (x, w') = f (env_other env n w) in (Inr x, (Suc n, w')))"

definition query :: "lease_error \<Rightarrow> (world \<Rightarrow> 'a) \<Rightarrow> 'a call" where
  "query e f env s =
     (let (n, w) = s; w' = env_other env n w in
      if env_err env n then (Inl e, (Suc n, w')) else (Inr (f w'), (Suc n, w')))"

text \<open>
  \<open>ExecuteBatchGuarded\<close>: the guard decides inside the transaction, \<open>note\<close> is what it records
  in memory when it lets the statements run, and the statements either commit together or not
  at all.
\<close>

definition guarded ::
  "lease_error \<Rightarrow> (world \<Rightarrow> bool) \<Rightarrow> (world \<Rightarrow> world) \<Rightarrow> (world \<Rightarrow> world option) \<Rightarrow> bool call" where
  "guarded e guard note stmts env s =
     (let (n, w) = s; w' = env_other env n w in
      if env_err env n then (Inl e, (Suc n, w'))
      else if \<not> guard w' then (Inr False, (Suc n, w'))
      else
        (case stmts (note w') of
           None \<Rightarrow> (Inl e, (Suc n, note w'))
         | Some w'' \<Rightarrow>
             if env_commit_err env n then (Inl e, (Suc n, note w')) else (Inr True, (Suc n, w''))))"

definition sample :: "int call" where
  "sample env s = (Inr (env_now env + env_since env (fst s)), s)"

definition MayMintLeaseTerm :: "bool call" where
  "MayMintLeaseTerm env s =
     (case locked (\<lambda>w. ((), w)) env s of
        (Inl e, s') \<Rightarrow> (Inl e, s') | (Inr _, s') \<Rightarrow> (Inr (env_may env (fst s)), s'))"

section \<open>The statements\<close>

definition leaseUpsert :: "string \<Rightarrow> string \<Rightarrow> string \<Rightarrow> string \<Rightarrow> world \<Rightarrow> world" where
  "leaseUpsert key holder expires now w =
     (case map_of (election w) key of
        None \<Rightarrow> w\<lparr>election := AList.update key (holder, expires) (election w)\<rparr>
      | Some (h, e) \<Rightarrow>
          if e < now \<or> h = holder
          then w\<lparr>election := AList.update key (holder, expires) (election w)\<rparr>
          else w)"

text \<open>A plain INSERT: a second row for one (key, term) is an error.\<close>

definition mintLeaseTerm :: "string \<Rightarrow> int \<Rightarrow> string \<Rightarrow> string \<Rightarrow> world \<Rightarrow> world option" where
  "mintLeaseTerm key term holder acquiredAt w =
     (if list_ex (\<lambda>r. t_term r = term) (rows_of key (terms w)) then None
      else Some (w\<lparr>terms := terms w @
        [\<lparr>t_key = key, t_term = term, t_holder = holder, t_acquired = acquiredAt, t_deleted = False\<rparr>]\<rparr>))"

definition leaseRow :: "string \<Rightarrow> (string \<times> string) call" where
  "leaseRow key =
     query ReadLease (\<lambda>w. case map_of (election w) key of None \<Rightarrow> ('''', '''') | Some r \<Rightarrow> r)"

definition newestLeaseTerm :: "string \<Rightarrow> leaseTerm call" where
  "newestLeaseTerm key = query ReadNewestTerm (\<lambda>w. newest_live key (terms w))"

definition nextLeaseTerm :: "string \<Rightarrow> int call" where
  "nextLeaseTerm key = query AllocateTerm (\<lambda>w. wrap64 (max_term (rows_of key (terms w)) + 1))"

definition CurrentLeaseTerm :: "string \<Rightarrow> int call" where
  "CurrentLeaseTerm key = andthen (newestLeaseTerm key) (\<lambda>t. ret (lt_Term t))"

definition LeaseTermHolder :: "string \<Rightarrow> int \<Rightarrow> (string \<times> bool) call" where
  "LeaseTermHolder key term =
     query ReadNewestTerm (\<lambda>w.
       case filter (\<lambda>r. t_term r = term) (live_rows key (terms w)) of
         [] \<Rightarrow> ('''', False) | r # _ \<Rightarrow> (t_holder r, True))"

text \<open>A ledger error still reports the holder and the liveness already read.\<close>

definition LeaseTenure ::
  "string \<Rightarrow> int \<Rightarrow> lease_env \<Rightarrow> lease_state \<Rightarrow> (string \<times> int \<times> bool \<times> lease_error option) \<times> lease_state" where
  "LeaseTenure key now env s =
     (case query ReadLease (\<lambda>w. map_of (election w) key) env s of
        (Inl e, s') \<Rightarrow> (('''', 0, False, Some e), s')
      | (Inr None, s') \<Rightarrow> (('''', 0, False, None), s')
      | (Inr (Some (holder, expires)), s') \<Rightarrow>
          let live = (holder \<noteq> '''' \<and> expires \<ge> rfc3339 now) in
          (case newestLeaseTerm key env s' of
             (Inl e, s'') \<Rightarrow> ((holder, 0, live, Some e), s'')
           | (Inr newest, s'') \<Rightarrow>
               ((holder, if lt_Holder newest = holder then lt_Term newest else 0, live, None), s'')))"

section \<open>Contested terms\<close>

definition noteLeaseTermClaims :: "string \<Rightarrow> int \<Rightarrow> string list \<Rightarrow> world \<Rightarrow> world" where
  "noteLeaseTermClaims key term holders w =
     (if key = '''' \<or> term \<le> 0 then w
      else w\<lparr>contests := (contests w)((key, term) :=
        fold (\<lambda>h set. if h = '''' then set else List.insert h set) holders (contests w (key, term)))\<rparr>)"

definition leaseTermClaimants :: "world \<Rightarrow> string \<Rightarrow> int \<Rightarrow> string list" where
  "leaseTermClaimants w key term =
     (let set = contests w (key, term) in if length set < 2 then [] else sort set)"

definition effectiveLeaseHolder :: "world \<Rightarrow> string \<Rightarrow> leaseTerm \<Rightarrow> string \<times> bool" where
  "effectiveLeaseHolder w key newest =
     (if lt_Term newest \<le> 0 then (lt_Holder newest, False)
      else case leaseTermClaimants w key (lt_Term newest) of
          c # _ \<Rightarrow> (c, True)
        | [] \<Rightarrow> (lt_Holder newest, False))"

definition deferTakeover :: "string \<Rightarrow> string \<Rightarrow> string \<Rightarrow> string \<Rightarrow> int \<Rightarrow> int \<Rightarrow> bool" where
  "deferTakeover curHolder curExpires effective holder now ttl =
     (if curHolder = '''' \<or> effective = '''' \<or> effective = curHolder \<or> effective = holder then False
      else case parse_rfc3339 curExpires of
          None \<Rightarrow> False
        | Some exp \<Rightarrow> \<not> now > exp + ttl)"

text \<open>\<open>indexOf\<close>, with \<open>None\<close> for its \<open>-1\<close>; a cell past the end of a row is the source's bounds check.\<close>

fun indexOf :: "string list \<Rightarrow> string \<Rightarrow> nat option" where
  "indexOf [] col = None"
| "indexOf (c # cs) col = (if c = col then Some 0 else map_option Suc (indexOf cs col))"

definition cell_of :: "string list \<Rightarrow> cell list \<Rightarrow> string \<Rightarrow> cell option" where
  "cell_of cols row col =
     (case indexOf cols col of None \<Rightarrow> None | Some i \<Rightarrow> if i < length row then Some (row ! i) else None)"

definition noteLeaseTermMergeConflict :: "string list \<Rightarrow> cell list \<Rightarrow> cell list \<Rightarrow> world \<Rightarrow> world" where
  "noteLeaseTermMergeConflict cols localRow incoming w =
     (case (cell_of cols localRow ''key'', cell_of cols localRow ''term'', cell_of cols localRow ''holder'',
            cell_of cols incoming ''key'', cell_of cols incoming ''term'', cell_of cols incoming ''holder'') of
        (Some lk, Some lt, Some lh, Some _, Some _, Some ih) \<Rightarrow>
          (case ParseInt (coercePKString lt) of
             None \<Rightarrow> w
           | Some term \<Rightarrow> noteLeaseTermClaims (coerceString lk) term [coerceString lh, coerceString ih] w)
      | _ \<Rightarrow> w)"

definition noteLeaseTermWALClaim :: "string list \<Rightarrow> cell list \<Rightarrow> world \<Rightarrow> world" where
  "noteLeaseTermWALClaim cols vals w =
     (case (cell_of cols vals ''key'', cell_of cols vals ''term'', cell_of cols vals ''holder'') of
        (Some k, Some t, Some h) \<Rightarrow>
          let key = coerceString k; incoming = coerceString h in
          (case ParseInt (coercePKString t) of
             None \<Rightarrow> w
           | Some term \<Rightarrow>
               if key = '''' \<or> incoming = '''' then w
               else
                 (case filter (\<lambda>r. t_term r = term) (live_rows key (terms w)) of
                    [] \<Rightarrow> w
                  | r # _ \<Rightarrow>
                      if t_holder r \<noteq> incoming then noteLeaseTermClaims key term [t_holder r, incoming] w
                      else w))
      | _ \<Rightarrow> w)"

definition IsLeaseHolder :: "string \<Rightarrow> string \<Rightarrow> int \<Rightarrow> bool call" where
  "IsLeaseHolder key host now =
     andthen (query ReadLease (\<lambda>w. map_of (election w) key)) (\<lambda>row.
       case row of
         None \<Rightarrow> ret False
       | Some (holder, expires) \<Rightarrow>
           if \<not> expires \<ge> rfc3339 now \<or> holder \<noteq> host then ret False
           else andthen (newestLeaseTerm key) (\<lambda>newest.
             if lt_Term newest \<le> 0 then ret True
             else locked (\<lambda>w. (fst (effectiveLeaseHolder w key newest) = host, w))))"

section \<open>The incarnation flags\<close>

definition noteHandedTerm :: "string \<Rightarrow> int \<Rightarrow> unit call" where
  "noteHandedTerm key term =
     locked (\<lambda>w. ((), w\<lparr>termless := (termless w)(key := (term = 0)),
       minted := (if term = 0 then (minted w)(key := None) else minted w)\<rparr>))"

definition noteMintedTerm :: "string \<Rightarrow> int \<Rightarrow> world \<Rightarrow> world" where
  "noteMintedTerm key term w = w\<lparr>minted := (minted w)(key := Some term)\<rparr>"

definition heldTermlessIncarnation :: "string \<Rightarrow> bool call" where
  "heldTermlessIncarnation key = locked (\<lambda>w. (termless w key, w))"

definition termBelongsToEarlierTenure :: "string \<Rightarrow> int \<Rightarrow> bool call" where
  "termBelongsToEarlierTenure key newest =
     locked (\<lambda>w. (termless w key \<and> minted w key \<noteq> Some newest, w))"

section \<open>Mint clearance\<close>

definition clearLeaseMint :: "LeaseMintRequest \<Rightarrow> bool call" where
  "clearLeaseMint req env s =
     (case env_clear env of
        None \<Rightarrow> (Inr True, s)
      | Some f \<Rightarrow>
          let (ok, reason) = f (fst s) req in
          locked (\<lambda>w. (ok, w\<lparr>withheld := (withheld w)(mr_Key req := (if ok then None else Some reason))\<rparr>)) env s)"

section \<open>Renewing and taking a lease\<close>

definition leaseContended :: int where "leaseContended = -1"
definition maxLeaseAttempts :: nat where "maxLeaseAttempts = 3"

definition leaseRenewableTx :: "string \<Rightarrow> string \<Rightarrow> string \<Rightarrow> int \<Rightarrow> world \<Rightarrow> bool" where
  "leaseRenewableTx key holder nowRFC expectTerm w =
     (case map_of (election w) key of
        None \<Rightarrow> False
      | Some (curHolder, expiresAt) \<Rightarrow>
          if curHolder \<noteq> holder \<or> expiresAt < nowRFC then False
          else max_term (live_rows key (terms w)) = expectTerm)"

definition renewLeaseAtTerm :: "string \<Rightarrow> string \<Rightarrow> string \<Rightarrow> string \<Rightarrow> int \<Rightarrow> bool call" where
  "renewLeaseAtTerm key holder expires nowRFC expectTerm =
     guarded RenewLeaseAtTerm (leaseRenewableTx key holder nowRFC expectTerm) (\<lambda>w. w)
       (\<lambda>w. Some (leaseUpsert key holder expires nowRFC w))"

definition renewLease :: "string \<Rightarrow> string \<Rightarrow> string \<Rightarrow> string \<Rightarrow> bool call" where
  "renewLease key holder expires nowRFC =
     andthen (guarded RenewLease (\<lambda>w. True) (\<lambda>w. w) (\<lambda>w. Some (leaseUpsert key holder expires nowRFC w)))
       (\<lambda>_. andthen (leaseRow key) (\<lambda>(cur, _). ret (cur = holder)))"

definition HoldTermlessLease :: "string \<Rightarrow> string \<Rightarrow> int \<Rightarrow> int \<Rightarrow> bool call" where
  "HoldTermlessLease key holder ttl now = renewLease key holder (rfc3339 (now + ttl)) (rfc3339 now)"

definition leaseAcquirableTx :: "string \<Rightarrow> string \<Rightarrow> string \<Rightarrow> int \<Rightarrow> int \<Rightarrow> world \<Rightarrow> bool" where
  "leaseAcquirableTx key holder nowRFC term supersede w =
     ((case map_of (election w) key of
         None \<Rightarrow> True
       | Some (curHolder, expiresAt) \<Rightarrow>
           let expired = (expiresAt < nowRFC) in
           if \<not> expired \<and> curHolder \<noteq> holder then False
           else if \<not> expired \<and> curHolder = holder \<and> live_rows key (terms w) \<noteq> [] then
             (if supersede \<le> 0 then False
              else newest_live key (terms w) = leaseTerm supersede holder)
           else True) \<and>
      max_term (rows_of key (terms w)) < term)"

definition takeLeaseAndMintTerm ::
  "string \<Rightarrow> string \<Rightarrow> string \<Rightarrow> string \<Rightarrow> int \<Rightarrow> int \<Rightarrow> bool \<Rightarrow> (bool \<times> int) call" where
  "takeLeaseAndMintTerm key holder expires nowRFC now supersede takeover =
     (let acquiredAt = rfc3339 now in
      andthen (nextLeaseTerm key) (\<lambda>nxt.
      andthen (clearLeaseMint \<lparr>mr_Key = key, mr_Term = nxt, mr_Holder = holder,
          mr_Takeover = takeover, mr_Now = nowRFC\<rparr>) (\<lambda>cleared.
      if \<not> cleared then ret (False, 0)
      else
        andthen (guarded AcquireWithTerm (leaseAcquirableTx key holder nowRFC nxt supersede)
            (noteMintedTerm key nxt)
            (\<lambda>w. mintLeaseTerm key nxt holder acquiredAt (leaseUpsert key holder expires nowRFC w)))
          (\<lambda>applied.
            if applied then ret (True, nxt)
            else andthen (leaseRow key) (\<lambda>(cur, _).
              if cur \<noteq> '''' \<and> cur \<noteq> holder then ret (False, 0)
              else ret (False, leaseContended))))))"

definition holdLeaseWithoutTerm ::
  "string \<Rightarrow> string \<Rightarrow> string \<Rightarrow> string \<Rightarrow> string \<Rightarrow> string \<Rightarrow> (bool \<times> int) call" where
  "holdLeaseWithoutTerm key holder expires nowRFC curHolder curExpires =
     (if curHolder \<noteq> '''' \<and> curHolder \<noteq> holder \<and> curExpires \<ge> nowRFC then ret (False, 0)
      else andthen (renewLease key holder expires nowRFC) (\<lambda>held.
        if \<not> held then ret (False, 0)
        else andthen (noteHandedTerm key 0) (\<lambda>_. ret (True, 0))))"

section \<open>Acquiring a lease\<close>

text \<open>One iteration of the loop: \<open>None\<close> to re-classify, or the values to return.\<close>

definition mint_outcome :: "string \<Rightarrow> bool \<times> int \<Rightarrow> (bool \<times> int) option call" where
  "mint_outcome key r =
     (case r of (held, term) \<Rightarrow>
        if held then andthen (noteHandedTerm key term) (\<lambda>_. ret (Some (True, term)))
        else if term = leaseContended then ret None
        else ret (Some (False, 0)))"

definition acquire_attempt ::
  "string \<Rightarrow> string \<Rightarrow> int \<Rightarrow> (bool \<times> int) option call" where
  "acquire_attempt key holder ttl =
     andthen sample (\<lambda>cur.
     let nowRFC = rfc3339 cur; expires = rfc3339 (cur + ttl) in
     andthen (leaseRow key) (\<lambda>(curHolder, curExpires).
     andthen MayMintLeaseTerm (\<lambda>may.
     if \<not> may then
       andthen (holdLeaseWithoutTerm key holder expires nowRFC curHolder curExpires) (\<lambda>r. ret (Some r))
     else
     andthen (newestLeaseTerm key) (\<lambda>newest.
     andthen (locked (\<lambda>w. (effectiveLeaseHolder w key newest, w))) (\<lambda>(effective, contested).
     let ourTenure = (curHolder = holder \<and> curExpires \<ge> nowRFC);
         ourTerm = (lt_Term newest > 0 \<and> lt_Holder newest = holder) in
     if ourTenure \<and> ourTerm \<and> contested \<and> effective \<noteq> holder then ret (Some (False, 0))
     else if ourTenure \<and> ourTerm \<and> contested then
       andthen (takeLeaseAndMintTerm key holder expires nowRFC cur (lt_Term newest) False) (mint_outcome key)
     else
     andthen (termBelongsToEarlierTenure key (lt_Term newest)) (\<lambda>earlier.
     if ourTenure \<and> ourTerm \<and> \<not> earlier then
       andthen sample (\<lambda>live.
       if curExpires < rfc3339 live then ret None
       else
         andthen (renewLeaseAtTerm key holder expires nowRFC (lt_Term newest)) (\<lambda>held.
         if \<not> held then ret None
         else andthen (noteHandedTerm key (lt_Term newest)) (\<lambda>_. ret (Some (True, lt_Term newest)))))
     else if ourTenure \<and> lt_Term newest > 0 \<and> lt_Holder newest \<noteq> holder then ret (Some (False, 0))
     else if \<not> ourTenure \<and> curHolder \<noteq> '''' \<and> curHolder \<noteq> holder \<and> curExpires \<ge> nowRFC then ret (Some (False, 0))
     else if \<not> ourTenure \<and> curExpires < nowRFC \<and> lt_Term newest > 0 \<and>
         deferTakeover curHolder curExpires effective holder cur ttl then ret (Some (False, 0))
     else
     andthen (termBelongsToEarlierTenure key (lt_Term newest)) (\<lambda>earlier'.
     let supersede = (if ourTenure \<and> ourTerm \<and> earlier' then lt_Term newest else 0) in
     andthen (takeLeaseAndMintTerm key holder expires nowRFC cur supersede (\<not> ourTenure)) (mint_outcome key))))))))"

primrec acquire_loop :: "nat \<Rightarrow> string \<Rightarrow> string \<Rightarrow> int \<Rightarrow> (bool \<times> int) call" where
  "acquire_loop 0 key holder ttl = ret (False, 0)"
| "acquire_loop (Suc left) key holder ttl =
     andthen (acquire_attempt key holder ttl) (\<lambda>r.
       case r of Some v \<Rightarrow> ret v | None \<Rightarrow> acquire_loop left key holder ttl)"

text \<open>The caller's \<open>now\<close> is \<open>env_now\<close>; an error comes with \<open>false\<close> and term 0.\<close>

definition AcquireLeaseWithTerm :: "string \<Rightarrow> string \<Rightarrow> int \<Rightarrow> (bool \<times> int) call" where
  "AcquireLeaseWithTerm = acquire_loop maxLeaseAttempts"

section \<open>What other writers may do to the ledger\<close>

text \<open>
  A ledger is well formed when a term of a key has one row and is positive. Writers only add
  rows: \<open>ledger_le\<close> keeps every row as it is. (Tombstoning a term is an operator's act outside
  these calls.) \<open>fair\<close> is the assumption on the environment.
\<close>

definition ledger_ok :: "world \<Rightarrow> bool" where
  "ledger_ok w \<longleftrightarrow> distinct (map (\<lambda>r. (t_key r, t_term r)) (terms w)) \<and> (\<forall>r \<in> set (terms w). 0 < t_term r)"

definition ledger_le :: "world \<Rightarrow> world \<Rightarrow> bool" where
  "ledger_le w w' \<longleftrightarrow> set (terms w) \<subseteq> set (terms w') \<and> (ledger_ok w \<longrightarrow> ledger_ok w')"

definition fair :: "lease_env \<Rightarrow> bool" where
  "fair env \<longleftrightarrow> (\<forall>n w. ledger_le w (env_other env n w))"

definition claims :: "string \<Rightarrow> world \<Rightarrow> (int \<times> string) set" where
  "claims key w = (\<lambda>r. (t_term r, t_holder r)) ` set (live_rows key (terms w))"

lemma ledger_le_refl [simp]: "ledger_le w w"
  by (simp add: ledger_le_def)

lemma ledger_le_trans: "ledger_le a b \<Longrightarrow> ledger_le b c \<Longrightarrow> ledger_le a c"
  by (auto simp: ledger_le_def)

lemma ledger_le_same_terms: "terms w' = terms w \<Longrightarrow> ledger_le w w'"
  by (simp add: ledger_le_def ledger_ok_def)

lemma ledger_ok_le: "ledger_le w w' \<Longrightarrow> ledger_ok w \<Longrightarrow> ledger_ok w'"
  by (simp add: ledger_le_def)

lemma set_live_rows: "set (live_rows key rs) = {r \<in> set rs. t_key r = key \<and> \<not> t_deleted r}"
  by (auto simp: live_rows_def rows_of_def)

text \<open>
  The contract of a ledger, over one key: claims are unique by term and only grow. From it: a
  claim that tops the ledger at a later moment is no lower than an earlier one, and higher when
  it names another holder.
\<close>

locale term_ledger =
  fixes ok :: "'w \<Rightarrow> bool"
    and later :: "'w \<Rightarrow> 'w \<Rightarrow> bool"
    and claim :: "'w \<Rightarrow> (int \<times> string) set"
  assumes unique: "ok w \<Longrightarrow> (t, h) \<in> claim w \<Longrightarrow> (t, h') \<in> claim w \<Longrightarrow> h = h'"
    and grows: "later w w' \<Longrightarrow> claim w \<subseteq> claim w'"
    and keeps_ok: "later w w' \<Longrightarrow> ok w \<Longrightarrow> ok w'"
begin

definition tops :: "'w \<Rightarrow> int \<Rightarrow> string \<Rightarrow> bool" where
  "tops w t h \<longleftrightarrow> (t, h) \<in> claim w \<and> (\<forall>(t', h') \<in> claim w. t' \<le> t)"

lemma fencing:
  assumes "ok w" "(t, h) \<in> claim w" "later w w'" "tops w' t' h'"
  shows "t \<le> t' \<and> (h \<noteq> h' \<longrightarrow> t < t')"
proof -
  have "(t, h) \<in> claim w'" using assms(2,3) grows by blast
  moreover have "ok w'" using assms(1,3) keeps_ok by blast
  ultimately show ?thesis using assms(4) unique [of w' t h h'] unfolding tops_def
    by (cases "t = t'") fastforce+
qed

end

interpretation ledger: term_ledger ledger_ok ledger_le "claims key" for key
proof
  fix w t h h'
  assume ok: "ledger_ok w" and "(t, h) \<in> claims key w" "(t, h') \<in> claims key w"
  then obtain r r' where "r \<in> set (terms w)" "r' \<in> set (terms w)" "t_term r = t" "t_term r' = t"
    "t_holder r = h" "t_holder r' = h'" "t_key r = key" "t_key r' = key"
    by (auto simp: claims_def set_live_rows)
  moreover from this ok have "r = r'"
    by (auto simp: ledger_ok_def distinct_map dest!: inj_onD [where x = r and y = r'])
  ultimately show "h = h'" by simp
qed (auto simp: ledger_le_def claims_def set_live_rows)

lemma top_row_None: "top_row rs = None \<longleftrightarrow> rs = []"
  by (cases rs) (auto split: option.splits)

lemma top_row_Some: "top_row rs = Some r \<Longrightarrow> r \<in> set rs \<and> (\<forall>x \<in> set rs. t_term x \<le> t_term r)"
proof (induction rs arbitrary: r)
  case (Cons x xs)
  show ?case
  proof (cases "top_row xs")
    case None
    with Cons.prems show ?thesis by (auto simp: top_row_None)
  next
    case (Some b)
    with Cons.IH [OF Some] Cons.prems show ?thesis by (auto split: if_splits)
  qed
qed simp

lemma max_term_ge: "x \<in> set rs \<Longrightarrow> t_term x \<le> max_term rs"
  using top_row_None [of rs] by (auto simp: max_term_def dest: top_row_Some split: option.splits)

lemma newest_claim: "0 < lt_Term (newest_live key (terms w)) \<Longrightarrow>
    (lt_Term (newest_live key (terms w)), lt_Holder (newest_live key (terms w))) \<in> claims key w"
  by (auto simp: newest_live_def claims_def dest: top_row_Some split: option.splits)

section \<open>Reasoning about calls\<close>

text \<open>
  A call from a well-formed world where \<open>P\<close> holds, among fair writers, keeps the ledger growing
  and ends with \<open>Q\<close> between its result, the world it started in and the one it ended in.
\<close>

definition triple :: "(world \<Rightarrow> bool) \<Rightarrow> 'a call \<Rightarrow> ('a \<Rightarrow> world \<Rightarrow> world \<Rightarrow> bool) \<Rightarrow> bool" where
  "triple P m Q \<longleftrightarrow>
     (\<forall>env s x s'. fair env \<and> ledger_ok (snd s) \<and> P (snd s) \<and> m env s = (Inr x, s') \<longrightarrow>
       ledger_le (snd s) (snd s') \<and> Q x (snd s) (snd s'))"

text \<open>Preconditions that other writers cannot undo, and results that hold from any earlier world.\<close>

definition stable :: "(world \<Rightarrow> bool) \<Rightarrow> bool" where
  "stable P \<longleftrightarrow> (\<forall>w w'. ledger_le w w' \<and> P w \<longrightarrow> P w')"

definition backward :: "('a \<Rightarrow> world \<Rightarrow> world \<Rightarrow> bool) \<Rightarrow> bool" where
  "backward Q \<longleftrightarrow> (\<forall>x v w w'. ledger_le v w \<and> Q x w w' \<longrightarrow> Q x v w')"

lemma triple_ret: "(\<And>w. P w \<Longrightarrow> Q x w w) \<Longrightarrow> triple P (ret x) Q"
  by (simp add: triple_def ret_def)

lemma triple_andthen:
  assumes "triple P m (\<lambda>x w w'. F x w')" "stable P" "backward Q"
    and "\<And>x. triple (\<lambda>w. P w \<and> F x w) (f x) Q"
  shows "triple P (andthen m f) Q"
  unfolding triple_def
proof (intro allI impI)
  fix env s y s'
  assume h: "fair env \<and> ledger_ok (snd s) \<and> P (snd s) \<and> andthen m f env s = (Inr y, s')"
  then obtain x t where x: "m env s = (Inr x, t)" "f x env t = (Inr y, s')"
    by (auto simp: andthen_def split: prod.splits sum.splits)
  with h assms(1) have t: "ledger_le (snd s) (snd t)" "F x (snd t)" unfolding triple_def by blast+
  with h assms(2) have "P (snd t)" "ledger_ok (snd t)" unfolding stable_def using ledger_ok_le by blast+
  with h x t assms(4) [of x] have "ledger_le (snd t) (snd s')" "Q y (snd t) (snd s')"
    unfolding triple_def by blast+
  with t assms(3) show "ledger_le (snd s) (snd s') \<and> Q y (snd s) (snd s')"
    unfolding backward_def using ledger_le_trans by blast
qed

text \<open>The same where nothing is learned from the first call.\<close>

lemma triple_then:
  assumes "triple P m (\<lambda>_ _ _. True)" "stable P" "backward Q" "\<And>x. triple P (f x) Q"
  shows "triple P (andthen m f) Q"
  using assms by (intro triple_andthen [where F = "\<lambda>_ _. True"]) auto

lemma triple_weaken: "triple P m R \<Longrightarrow> (\<And>x w w'. R x w w' \<Longrightarrow> Q x w w') \<Longrightarrow> triple P m Q"
  unfolding triple_def by blast

lemma triple_pre: "triple R m Q \<Longrightarrow> (\<And>w. P w \<Longrightarrow> R w) \<Longrightarrow> triple P m Q"
  unfolding triple_def by blast

lemma fairD: "fair env \<Longrightarrow> ledger_le w (env_other env n w)"
  by (simp add: fair_def)

lemma triple_query:
  assumes "stable P" "\<And>w. P w \<Longrightarrow> F (f w) w"
  shows "triple P (query e f) (\<lambda>x w w'. F x w')"
  using assms fairD unfolding triple_def stable_def query_def
  by (fastforce simp: Let_def split: prod.splits if_splits)

lemma triple_locked:
  assumes "\<And>w. terms (snd (f w)) = terms w"
  shows "triple P (locked f) (\<lambda>_ _ _. True)"
  unfolding triple_def
proof (intro allI impI)
  fix env s x s'
  assume h: "fair env \<and> ledger_ok (snd s) \<and> P (snd s) \<and> locked f env s = (Inr x, s')"
  obtain n w where s: "s = (n, w)" by (cases s)
  from h s have "snd s' = snd (f (env_other env n w))" by (auto simp: locked_def Let_def split: prod.splits)
  then have "ledger_le (env_other env n w) (snd s')" using assms by (simp add: ledger_le_same_terms)
  with h s show "ledger_le (snd s) (snd s') \<and> True" using fairD ledger_le_trans by fastforce
qed

text \<open>A guarded transaction: what the committed world satisfies.\<close>

lemma triple_guarded:
  assumes "stable P"
    and "\<And>w w'. P w \<Longrightarrow> ledger_ok w \<Longrightarrow> guard w \<Longrightarrow> stmts (note w) = Some w' \<Longrightarrow> ledger_le w w' \<and> F w'"
  shows "triple P (guarded e guard note stmts) (\<lambda>applied w w'. applied \<longrightarrow> F w')"
  unfolding triple_def
proof (intro allI impI)
  fix env s x s'
  assume h: "fair env \<and> ledger_ok (snd s) \<and> P (snd s) \<and> guarded e guard note stmts env s = (Inr x, s')"
  obtain n w where s: "s = (n, w)" by (cases s)
  let ?v = "env_other env n w"
  have v: "ledger_le w ?v" using h fairD by blast
  then have "ledger_ok ?v" "P ?v" using h s assms(1) ledger_ok_le unfolding stable_def by auto
  then have "ledger_le ?v (snd s') \<and> (x \<longrightarrow> F (snd s'))"
    using h s assms(2) [of ?v]
    by (auto simp: guarded_def Let_def split: if_splits option.splits)
  with v s show "ledger_le (snd s) (snd s') \<and> (x \<longrightarrow> F (snd s'))" using ledger_le_trans by auto
qed

section \<open>Every handed term tops the ledger when it is handed\<close>

text \<open>Somewhere between the two worlds, \<open>t\<close> was the top claim and it was \<open>h\<close>'s.\<close>

definition handed :: "string \<Rightarrow> string \<Rightarrow> int \<Rightarrow> world \<Rightarrow> world \<Rightarrow> bool" where
  "handed key h t w w' \<longleftrightarrow>
     (\<exists>v. ledger_le w v \<and> ledger_le v w' \<and> ledger_ok v \<and> 0 < t \<and> (t, h) \<in> claims key v \<and>
       (\<forall>(t', h') \<in> claims key v. t' \<le> t))"

definition owns :: "string \<Rightarrow> string \<Rightarrow> bool \<times> int \<Rightarrow> world \<Rightarrow> world \<Rightarrow> bool" where
  "owns key h r w w' \<longleftrightarrow> fst r \<and> snd r \<noteq> 0 \<longrightarrow> handed key h (snd r) w w'"

definition proper :: "bool \<times> int \<Rightarrow> bool" where
  "proper r \<longleftrightarrow> (\<not> fst r \<longrightarrow> snd r = 0)"

lemma handed_backward: "ledger_le v w \<Longrightarrow> handed key h t w w' \<Longrightarrow> handed key h t v w'"
  unfolding handed_def using ledger_le_trans by blast

lemma handed_forward: "handed key h t v w \<Longrightarrow> ledger_le w w' \<Longrightarrow> handed key h t v w'"
  unfolding handed_def using ledger_le_trans by blast

lemma terms_upsert [simp]: "terms (leaseUpsert key holder expires now w) = terms w"
  by (simp add: leaseUpsert_def split: option.splits prod.splits)

lemma terms_minted [simp]: "terms (noteMintedTerm key t w) = terms w"
  by (simp add: noteMintedTerm_def)

lemma claims_upsert [simp]: "claims key (leaseUpsert k holder expires now w) = claims key w"
  by (simp add: claims_def)

lemma ledger_ok_positive: "ledger_ok w \<Longrightarrow> (t, h) \<in> claims key w \<Longrightarrow> 0 < t"
  by (auto simp: ledger_ok_def claims_def set_live_rows)

lemma max_term_nonneg: "ledger_ok w \<Longrightarrow> 0 \<le> max_term (rows_of key (terms w))"
  by (fastforce simp: max_term_def ledger_ok_def rows_of_def dest: top_row_Some split: option.splits)

text \<open>A mint above every row of the key keeps the ledger well formed and tops it.\<close>

lemma mint_tops:
  assumes ok: "ledger_ok w" and above: "max_term (rows_of key (terms w)) < t"
    and m: "mintLeaseTerm key t h at w0 = Some w'" and same: "terms w0 = terms w"
  shows "ledger_le w w' \<and> ledger_ok w' \<and> 0 < t \<and> (t, h) \<in> claims key w' \<and> (\<forall>(t', h') \<in> claims key w'. t' \<le> t)"
proof -
  have w': "terms w' = terms w @ [\<lparr>t_key = key, t_term = t, t_holder = h, t_acquired = at, t_deleted = False\<rparr>]"
    using m same by (auto simp: mintLeaseTerm_def split: if_splits)
  have below: "t_term r < t" if "r \<in> set (terms w)" "t_key r = key" for r
    using max_term_ge [of r "rows_of key (terms w)"] that above by (simp add: rows_of_def)
  have pos: "0 < t" using above max_term_nonneg [OF ok, of key] by linarith
  have "ledger_ok w'" using ok below pos unfolding ledger_ok_def w' by (auto simp: image_iff)
  moreover have c: "claims key w' = insert (t, h) (claims key w)"
    by (simp add: claims_def live_rows_def rows_of_def w')
  moreover have "t' \<le> t" if "(t', h') \<in> claims key w" for t' h'
    using that by (auto simp: claims_def set_live_rows intro: less_imp_le [OF below])
  ultimately show ?thesis using pos by (auto simp: ledger_le_def w')
qed

lemma handed_now:
  "ledger_ok w \<Longrightarrow> 0 < t \<Longrightarrow> (t, h) \<in> claims key w \<Longrightarrow> (\<forall>(t', h') \<in> claims key w. t' \<le> t) \<Longrightarrow> handed key h t w w"
  unfolding handed_def by (intro exI [of _ w]) simp

lemma stable_True [simp]: "stable (\<lambda>_. True)"
  by (simp add: stable_def)

lemma stable_claim [simp]: "stable (\<lambda>w. A \<longrightarrow> c \<in> claims key w)"
  using ledger.grows unfolding stable_def by blast

lemma backward_owns [simp]: "backward (\<lambda>r w w'. owns key h r w w' \<and> proper r)"
  using handed_backward unfolding backward_def owns_def by blast

definition owns_opt :: "string \<Rightarrow> string \<Rightarrow> (bool \<times> int) option \<Rightarrow> world \<Rightarrow> world \<Rightarrow> bool" where
  "owns_opt key h y w w' \<longleftrightarrow> (\<forall>r. y = Some r \<longrightarrow> owns key h r w w' \<and> proper r)"

lemma backward_owns_opt [simp]: "backward (owns_opt key h)"
  using handed_backward unfolding backward_def owns_opt_def owns_def by blast

lemma backward_owns_only [simp]: "backward (owns key h)"
  using handed_backward unfolding backward_def owns_def by blast

lemma owns_no_term [simp]: "owns key h (x, 0) w w'" "owns key h (False, t) w w'"
  by (simp_all add: owns_def)

lemma owns_opt_simps [simp]: "owns_opt key h None w w'" "owns_opt key h (Some (x, 0)) w w'"
  by (simp_all add: owns_opt_def proper_def)

lemma triple_reads [simp]:
  "stable P \<Longrightarrow> triple P (leaseRow key) (\<lambda>_ _ _. True)"
  "stable P \<Longrightarrow> triple P (nextLeaseTerm key) (\<lambda>_ _ _. True)"
  "triple P sample (\<lambda>_ _ _. True)"
  "triple P MayMintLeaseTerm (\<lambda>_ _ _. True)"
  "triple P (locked (\<lambda>w. (effectiveLeaseHolder w key newest, w))) (\<lambda>_ _ _. True)"
  "triple P (termBelongsToEarlierTenure key t) (\<lambda>_ _ _. True)"
  "triple P (noteHandedTerm key t) (\<lambda>_ _ _. True)"
  "triple P (clearLeaseMint req) (\<lambda>_ _ _. True)"
proof -
  show "stable P \<Longrightarrow> triple P (leaseRow key) (\<lambda>_ _ _. True)"
    "stable P \<Longrightarrow> triple P (nextLeaseTerm key) (\<lambda>_ _ _. True)"
    unfolding leaseRow_def nextLeaseTerm_def by (rule triple_query [where F = "\<lambda>_ _. True"]; simp)+
  show "triple P sample (\<lambda>_ _ _. True)" by (simp add: triple_def sample_def)
  show "triple P (locked (\<lambda>w. (effectiveLeaseHolder w key newest, w))) (\<lambda>_ _ _. True)"
    "triple P (termBelongsToEarlierTenure key t) (\<lambda>_ _ _. True)"
    "triple P (noteHandedTerm key t) (\<lambda>_ _ _. True)"
    unfolding termBelongsToEarlierTenure_def noteHandedTerm_def by (rule triple_locked; simp)+
  have "triple P (locked (\<lambda>w. ((), w))) (\<lambda>_ _ _. True)" by (rule triple_locked) simp
  then show "triple P MayMintLeaseTerm (\<lambda>_ _ _. True)"
    unfolding triple_def MayMintLeaseTerm_def by (auto split: prod.splits sum.splits)
  have "triple P (locked (\<lambda>w. (ok, w\<lparr>withheld := (withheld w)(mr_Key req := v)\<rparr>))) (\<lambda>_ _ _. True)" for ok :: bool and v
    by (rule triple_locked) simp
  then have l: "ledger_le b b'"
    if "fair env" "ledger_ok b" "P b"
      "locked (\<lambda>w. (ok, w\<lparr>withheld := (withheld w)(mr_Key req := v)\<rparr>)) env (a, b) = (Inr x, (a', b'))"
    for env a b a' b' x and ok :: bool and v
    using that unfolding triple_def by fastforce
  show "triple P (clearLeaseMint req) (\<lambda>_ _ _. True)"
    unfolding triple_def clearLeaseMint_def Let_def
    by (auto split: option.splits prod.splits dest: l)
qed

text \<open>After a mint or a renewal committed, the world it left tops the ledger with our term.\<close>

definition topped :: "string \<Rightarrow> string \<Rightarrow> int \<Rightarrow> world \<Rightarrow> bool" where
  "topped key h t w \<longleftrightarrow> ledger_ok w \<and> 0 < t \<and> (t, h) \<in> claims key w \<and> (\<forall>(t', h') \<in> claims key w. t' \<le> t)"

lemma triple_mint:
  "triple (\<lambda>_. True)
     (guarded AcquireWithTerm (leaseAcquirableTx key holder nowRFC nxt supersede) (noteMintedTerm key nxt)
        (\<lambda>w. mintLeaseTerm key nxt holder at (leaseUpsert key holder expires nowRFC w)))
     (\<lambda>applied w w'. applied \<longrightarrow> topped key holder nxt w')"
proof (rule triple_guarded)
  fix w w'
  assume "ledger_ok w" "leaseAcquirableTx key holder nowRFC nxt supersede w"
    "mintLeaseTerm key nxt holder at (leaseUpsert key holder expires nowRFC (noteMintedTerm key nxt w)) = Some w'"
  then show "ledger_le w w' \<and> topped key holder nxt w'"
    using mint_tops [of w key nxt holder at _ w'] by (auto simp: topped_def leaseAcquirableTx_def)
qed simp

lemma max_live_ge: "(t, h) \<in> claims key w \<Longrightarrow> t \<le> max_term (live_rows key (terms w))"
  using max_term_ge by (fastforce simp: claims_def)

lemma triple_renew:
  "triple (\<lambda>w. (t, holder) \<in> claims key w) (renewLeaseAtTerm key holder expires nowRFC t)
     (\<lambda>held w w'. held \<longrightarrow> topped key holder t w')"
  unfolding renewLeaseAtTerm_def
proof (rule triple_guarded)
  show "stable (\<lambda>w. (t, holder) \<in> claims key w)" using stable_claim [of True] by simp
  fix w w'
  assume "(t, holder) \<in> claims key w" "ledger_ok w" "leaseRenewableTx key holder nowRFC t w"
    "Some (leaseUpsert key holder expires nowRFC w) = Some w'"
  moreover from this have "\<forall>(t', h') \<in> claims key w. t' \<le> t"
    using max_live_ge by (fastforce simp: leaseRenewableTx_def split: option.splits prod.splits if_splits)
  ultimately show "ledger_le w w' \<and> topped key holder t w'"
    using ledger_ok_positive [of w t holder key]
    by (auto simp: topped_def ledger_ok_def intro!: ledger_le_same_terms)
qed

lemma topped_handed: "topped key h t w \<Longrightarrow> handed key h t w w"
  unfolding topped_def by (intro handed_now) auto

text \<open>Steps after the result is settled: what the first call achieved stays achieved.\<close>

lemma triple_finish:
  assumes "triple P m Q" "\<And>x. triple (\<lambda>_. True) (f x) (\<lambda>y _ _. R x y)"
    and "\<And>x y w v w'. Q x w v \<Longrightarrow> ledger_le v w' \<Longrightarrow> R x y \<Longrightarrow> Q' y w w'"
  shows "triple P (andthen m f) Q'"
  unfolding triple_def
proof (intro allI impI)
  fix env s y s'
  assume h: "fair env \<and> ledger_ok (snd s) \<and> P (snd s) \<and> andthen m f env s = (Inr y, s')"
  then obtain x t where x: "m env s = (Inr x, t)" "f x env t = (Inr y, s')"
    by (auto simp: andthen_def split: prod.splits sum.splits)
  with h assms(1) have t: "ledger_le (snd s) (snd t)" "Q x (snd s) (snd t)" unfolding triple_def by blast+
  with h have "ledger_ok (snd t)" using ledger_ok_le by blast
  with h x t assms(2) [of x] have "ledger_le (snd t) (snd s')" "R x y" unfolding triple_def by blast+
  with t assms(3) show "ledger_le (snd s) (snd s') \<and> Q' y (snd s) (snd s')"
    using ledger_le_trans by blast
qed

lemma triple_take:
  "triple (\<lambda>_. True) (takeLeaseAndMintTerm key holder expires nowRFC now supersede takeover) (owns key holder)"
  unfolding takeLeaseAndMintTerm_def Let_def
proof (intro triple_then triple_reads stable_True backward_owns_only)
  fix nxt cleared
  let ?tx = "guarded AcquireWithTerm (leaseAcquirableTx key holder nowRFC nxt supersede) (noteMintedTerm key nxt)
        (\<lambda>w. mintLeaseTerm key nxt holder (rfc3339 now) (leaseUpsert key holder expires nowRFC w))"
  let ?fin = "\<lambda>applied. if applied then ret (True, nxt)
            else andthen (leaseRow key) (\<lambda>(cur, _).
              if cur \<noteq> '''' \<and> cur \<noteq> holder then ret (False, 0) else ret (False, leaseContended))"
  have "triple (\<lambda>w. True \<and> (applied \<longrightarrow> topped key holder nxt w)) (?fin applied) (owns key holder)" for applied
  proof (cases applied)
    case True
    then show ?thesis by (auto intro!: triple_ret topped_handed simp: owns_def)
  next
    case False
    then show ?thesis
      by (auto intro!: triple_then triple_reads triple_ret split: prod.splits)
  qed
  then have "triple (\<lambda>_. True) (andthen ?tx ?fin) (owns key holder)"
    by (intro triple_andthen [OF triple_mint]) simp_all
  then show "triple (\<lambda>_. True) (if \<not> cleared then ret (False, 0) else andthen ?tx ?fin) (owns key holder)"
    by (auto intro!: triple_ret)
qed

lemma triple_mint_outcome:
  assumes "triple P m (owns key holder)"
  shows "triple P (andthen m (mint_outcome key)) (owns_opt key holder)"
proof (rule triple_finish [OF assms])
  fix r :: "bool \<times> int"
  let ?R = "\<lambda>y. y = (if fst r then Some (True, snd r) else if snd r = leaseContended then None else Some (False, 0))"
  obtain held t where r: "r = (held, t)" by (cases r)
  have "triple (\<lambda>_. True) (andthen (noteHandedTerm key t) (\<lambda>_. ret (Some (True, t)))) (\<lambda>y _ _. y = Some (True, t))"
    by (intro triple_then triple_reads triple_ret) (auto simp: backward_def)
  then show "triple (\<lambda>_. True) (mint_outcome key r) (\<lambda>y _ _. ?R y)"
    using r by (auto simp: mint_outcome_def intro!: triple_ret)
next
  fix x y w v w'
  assume "owns key holder x w v" "ledger_le v w'"
    "y = (if fst x then Some (True, snd x) else if snd x = leaseContended then None else Some (False, 0))"
  then show "owns_opt key holder y w w'"
    using handed_forward by (auto simp: owns_opt_def owns_def proper_def split: if_splits)
qed

lemma triple_renew_outcome:
  "triple (\<lambda>w. (t, holder) \<in> claims key w)
     (andthen (renewLeaseAtTerm key holder expires nowRFC t) (\<lambda>held.
        if \<not> held then ret None else andthen (noteHandedTerm key t) (\<lambda>_. ret (Some (True, t)))))
     (owns_opt key holder)"
proof (rule triple_finish [where Q = "\<lambda>held w w'. held \<longrightarrow> handed key holder t w w'"
        and R = "\<lambda>held y. y = (if held then Some (True, t) else None)"])
  show "triple (\<lambda>w. (t, holder) \<in> claims key w) (renewLeaseAtTerm key holder expires nowRFC t)
     (\<lambda>held w w'. held \<longrightarrow> handed key holder t w w')"
    using triple_renew [of t holder key expires nowRFC] topped_handed handed_backward
    unfolding triple_def by metis
  fix held
  show "triple (\<lambda>_. True) (if \<not> held then ret None else andthen (noteHandedTerm key t) (\<lambda>_. ret (Some (True, t))))
     (\<lambda>y _ _. y = (if held then Some (True, t) else None))"
    by (cases held) (auto intro!: triple_then triple_reads triple_ret simp: backward_def)
next
  fix held y w v w'
  assume "held \<longrightarrow> handed key holder t w v" "ledger_le v w'" "y = (if held then Some (True, t) else None)"
  then show "owns_opt key holder y w w'"
    using handed_forward by (auto simp: owns_opt_def owns_def proper_def split: if_splits)
qed

lemma triple_termless:
  "triple (\<lambda>_. True) (andthen (holdLeaseWithoutTerm key holder expires nowRFC ch ce) (\<lambda>r. ret (Some r)))
     (owns_opt key holder)"
proof -
  have "triple (\<lambda>_. True) (renewLease key holder expires nowRFC) (\<lambda>_ _ _. True)"
    unfolding renewLease_def
    by (intro triple_then triple_reads triple_ret
        triple_weaken [OF triple_guarded [where F = "\<lambda>_. True"]])
      (auto simp: backward_def intro!: ledger_le_same_terms triple_ret split: prod.splits)
  then have "triple (\<lambda>_. True) (holdLeaseWithoutTerm key holder expires nowRFC ch ce) (\<lambda>r _ _. snd r = 0)"
    unfolding holdLeaseWithoutTerm_def
    by (auto intro!: triple_ret triple_then triple_reads simp: backward_def)
  then show ?thesis
    by (rule triple_finish [where R = "\<lambda>r y. y = Some r"]) (auto intro!: triple_ret simp: owns_opt_def owns_def proper_def)
qed

lemma triple_if:
  "(b \<Longrightarrow> triple P m Q) \<Longrightarrow> (\<not> b \<Longrightarrow> triple P n Q) \<Longrightarrow> triple P (if b then m else n) Q"
  by simp

lemma triple_split: "(\<And>a b. triple P (f a b) Q) \<Longrightarrow> triple P (case p of (a, b) \<Rightarrow> f a b) Q"
  by (cases p) simp

definition known :: "string \<Rightarrow> leaseTerm \<Rightarrow> world \<Rightarrow> bool" where
  "known key newest w \<longleftrightarrow> (0 < lt_Term newest \<longrightarrow> (lt_Term newest, lt_Holder newest) \<in> claims key w)"

lemma stable_known [simp]: "stable (known key newest)"
  unfolding known_def by (rule stable_claim)

lemma triple_newest_then:
  assumes "backward Q" "\<And>newest. triple (known key newest) (f newest) Q"
  shows "triple (\<lambda>_. True) (andthen (newestLeaseTerm key) f) Q"
proof (rule triple_andthen [where F = "known key"])
  show "triple (\<lambda>_. True) (newestLeaseTerm key) (\<lambda>newest w w'. known key newest w')"
    unfolding newestLeaseTerm_def known_def using newest_claim by (intro triple_query) auto
qed (use assms in simp_all)

lemma triple_taken:
  "triple (known key newest)
     (andthen (takeLeaseAndMintTerm key holder expires nowRFC cur old tk) (mint_outcome key)) (owns_opt key holder)"
  by (rule triple_pre [OF triple_mint_outcome [OF triple_take]]) simp

lemma triple_renewed:
  "0 < lt_Term newest \<and> lt_Holder newest = holder \<Longrightarrow>
   triple (known key newest)
      (andthen (renewLeaseAtTerm key holder expires nowRFC (lt_Term newest)) (\<lambda>held.
         if \<not> held then ret None else andthen (noteHandedTerm key (lt_Term newest)) (\<lambda>_. ret (Some (True, lt_Term newest)))))
      (owns_opt key holder)"
  by (rule triple_pre [OF triple_renew_outcome]) (auto simp: known_def)

lemma triple_attempt: "triple (\<lambda>_. True) (acquire_attempt key holder ttl) (owns_opt key holder)"
  unfolding acquire_attempt_def Let_def
  by (rule triple_termless triple_taken
      | (rule triple_renewed, blast)
      | (rule triple_newest_then, rule backward_owns_opt)
      | rule triple_if triple_split
      | (rule triple_ret, simp; fail)
      | (rule triple_then, (rule triple_reads; simp; fail), simp, simp))+

text \<open>A loop step: either the attempt's value is returned, or the rest of the loop runs after it.\<close>

lemma triple_cases:
  assumes "triple P m (owns_opt key holder)" "stable P" "triple P rest (\<lambda>r w w'. owns key holder r w w' \<and> proper r)"
  shows "triple P (andthen m (\<lambda>r. case r of Some v \<Rightarrow> ret v | None \<Rightarrow> rest)) (\<lambda>r w w'. owns key holder r w w' \<and> proper r)"
  unfolding triple_def
proof (intro allI impI)
  fix env s y s'
  assume h: "fair env \<and> ledger_ok (snd s) \<and> P (snd s) \<and>
    andthen m (\<lambda>r. case r of Some v \<Rightarrow> ret v | None \<Rightarrow> rest) env s = (Inr y, s')"
  then obtain x t where x: "m env s = (Inr x, t)"
    "(case x of Some v \<Rightarrow> ret v | None \<Rightarrow> rest) env t = (Inr y, s')"
    by (auto simp: andthen_def split: prod.splits sum.splits)
  with h assms(1) have t: "ledger_le (snd s) (snd t)" "owns_opt key holder x (snd s) (snd t)"
    unfolding triple_def by blast+
  show "ledger_le (snd s) (snd s') \<and> owns key holder y (snd s) (snd s') \<and> proper y"
  proof (cases x)
    case (Some v)
    with x t show ?thesis by (simp add: ret_def owns_opt_def)
  next
    case None
    have "ledger_ok (snd t)" "P (snd t)" using h t assms(2) ledger_ok_le unfolding stable_def by blast+
    moreover have "rest env t = (Inr y, s')" using x None by simp
    ultimately have "ledger_le (snd t) (snd s')" "owns key holder y (snd t) (snd s')" "proper y"
      using h assms(3) unfolding triple_def by blast+
    with t show ?thesis using ledger_le_trans handed_backward unfolding owns_def by blast
  qed
qed

lemma triple_loop: "triple (\<lambda>_. True) (acquire_loop n key holder ttl) (\<lambda>r w w'. owns key holder r w w' \<and> proper r)"
proof (induction n)
  case 0
  show ?case by (auto intro!: triple_ret simp: proper_def)
next
  case (Suc n)
  show ?case
    unfolding acquire_loop.simps
    by (rule triple_cases [OF triple_attempt stable_True Suc])
qed

lemma acquire_hands:
  assumes "fair env" "ledger_ok w" "AcquireLeaseWithTerm key holder ttl env (n, w) = (Inr (held, t), (n', w'))"
  shows "ledger_le w w' \<and> owns key holder (held, t) w w' \<and> proper (held, t)"
  using triple_loop [of maxLeaseAttempts key holder ttl] assms
  unfolding triple_def AcquireLeaseWithTerm_def by fastforce

section \<open>An undisturbed call\<close>

text \<open>
  No other writer, no failing access, the mint gate open, and a clearance that is either not
  wired or agrees; time may pass. \<open>steady\<close> adds that the call takes less than a second of the
  caller's clock, so that every reading of it prints the same.
\<close>

definition quiet :: "lease_env \<Rightarrow> bool" where
  "quiet env \<longleftrightarrow> (\<forall>n w. env_other env n w = w) \<and> (\<forall>n. \<not> env_err env n \<and> \<not> env_commit_err env n \<and> env_may env n) \<and>
     env_clear env = None"

lemma quiet_simps:
  assumes "quiet env"
  shows "query e f env s = (Inr (f (snd s)), (Suc (fst s), snd s))"
    and "locked g env s = (Inr (fst (g (snd s))), (Suc (fst s), snd (g (snd s))))"
    and "MayMintLeaseTerm env s = (Inr True, (Suc (fst s), snd s))"
    and "clearLeaseMint req env s = (Inr True, s)"
  using assms by (auto simp: quiet_def query_def locked_def MayMintLeaseTerm_def clearLeaseMint_def Let_def
      split: prod.splits)

lemma quiet_guarded:
  assumes "quiet env"
  shows "guarded e guard note stmts env s =
    (if \<not> guard (snd s) then (Inr False, (Suc (fst s), snd s))
     else case stmts (note (snd s)) of
         None \<Rightarrow> (Inl e, (Suc (fst s), note (snd s)))
       | Some w \<Rightarrow> (Inr True, (Suc (fst s), w)))"
  using assms by (auto simp: quiet_def guarded_def Let_def split: prod.splits option.splits)

lemmas quiet_calls = quiet_simps quiet_guarded andthen_def ret_def sample_def

text \<open>Minting on an undisturbed replica: the next term, the lease and the ledger row together.\<close>

lemma quiet_take:
  assumes q: "quiet env" and nx: "nxt = max_term (rows_of key (terms w)) + 1" "in_i64 nxt"
    and guard: "leaseAcquirableTx key holder nowRFC nxt supersede w"
  shows "\<exists>n' w'. takeLeaseAndMintTerm key holder expires nowRFC now supersede takeover env (n, w) = (Inr (True, nxt), (n', w')) \<and>
    terms w' = terms w @ [\<lparr>t_key = key, t_term = nxt, t_holder = holder, t_acquired = rfc3339 now, t_deleted = False\<rparr>] \<and>
    map_of (election w') key = Some (holder, expires)"
proof -
  have "\<not> list_ex (\<lambda>r. t_term r = nxt) (rows_of key (terms w))"
    using max_term_ge nx by (fastforce simp: list_ex_iff)
  moreover have "map_of (election (leaseUpsert key holder expires nowRFC (noteMintedTerm key nxt w))) key = Some (holder, expires)"
    using guard by (auto simp: leaseUpsert_def noteMintedTerm_def leaseAcquirableTx_def Let_def
        split: option.splits prod.splits if_splits)
  ultimately show ?thesis
    using q nx guard
    by (auto simp: takeLeaseAndMintTerm_def quiet_calls nextLeaseTerm_def mintLeaseTerm_def Let_def)
qed

lemma quiet_mint_outcome:
  assumes "quiet env"
  shows "mint_outcome key (True, t) env (n, w) =
    (Inr (Some (True, t)), (Suc n, w\<lparr>termless := (termless w)(key := (t = 0)),
       minted := (if t = 0 then (minted w)(key := None) else minted w)\<rparr>))"
  using assms by (simp add: mint_outcome_def noteHandedTerm_def quiet_calls)

lemma sort_hd_Min: "xs \<noteq> [] \<Longrightarrow> hd (sort xs) = Min (set xs)" for xs :: "string list"
proof -
  assume "xs \<noteq> []"
  then obtain y ys where s: "sort xs = y # ys" by (cases "sort xs") (auto dest: arg_cong [of _ _ length])
  have "sorted (y # ys)" using sorted_sort [of xs] s by simp
  moreover have "set xs = set (y # ys)" using s by (metis set_sort)
  ultimately show ?thesis using s by (auto intro!: Min_eqI [symmetric])
qed

section \<open>Properties\<close>

text \<open>C2: the terms handed out for a lease are fencing tokens. A call that returned a term, then a
  later call on the replica that returned one: the second is never below the first, and strictly
  above it when it went to another holder. This holds whatever sibling callers and replication do
  before, between and during the calls, as long as ledger rows are only added, and whatever
  accesses and commits fail.\<close>

theorem fencing_terms_increase:
  assumes "fair env1" "fair env2" "ledger_ok w1"
    and "AcquireLeaseWithTerm key h1 ttl1 env1 (n1, w1) = (Inr (True, t1), (n1', w1'))" "t1 \<noteq> 0"
    and "ledger_le w1' w2"
    and "AcquireLeaseWithTerm key h2 ttl2 env2 (n2, w2) = (Inr (True, t2), (n2', w2'))" "t2 \<noteq> 0"
  shows "t1 \<le> t2 \<and> (h1 \<noteq> h2 \<longrightarrow> t1 < t2)"
proof -
  have a: "ledger_le w1 w1'" "handed key h1 t1 w1 w1'"
    using acquire_hands [OF assms(1,3,4)] assms(5) by (auto simp: owns_def)
  have "ledger_ok w2" using a assms(3,6) ledger_ok_le by blast
  then have b: "handed key h2 t2 w2 w2'"
    using acquire_hands [OF assms(2) _ assms(7)] assms(8) by (auto simp: owns_def)
  from a(2) obtain v1 where v1: "ledger_le v1 w1'" "ledger_ok v1" "(t1, h1) \<in> claims key v1"
    by (auto simp: handed_def)
  from b obtain v2 where v2: "ledger_le w2 v2" "(t2, h2) \<in> claims key v2" "\<forall>(t', h') \<in> claims key v2. t' \<le> t2"
    by (auto simp: handed_def)
  have "ledger_le v1 v2" using v1 v2 assms(6) ledger_le_trans by blast
  moreover have "ledger.tops key v2 t2 h2" using v2 by (simp add: ledger.tops_def)
  ultimately show ?thesis using ledger.fencing [OF v1(2,3)] by blast
qed

definition quiet_env :: "int \<Rightarrow> lease_env" where
  "quiet_env now = \<lparr>env_now = now, env_since = \<lambda>_. 0, env_other = \<lambda>_ w. w, env_err = \<lambda>_. False,
     env_commit_err = \<lambda>_. False, env_may = \<lambda>_. True, env_clear = None\<rparr>"

definition demo_world :: world where
  "demo_world = \<lparr>election = [], terms = [], termless = \<lambda>_. False, minted = \<lambda>_. None,
     contests = \<lambda>_. [], withheld = \<lambda>_. None\<rparr>"

text \<open>One node takes the lease at 2026-01-01 00:00:00; a minute later, its lease expired, another does.\<close>

definition demo_t0 :: int where "demo_t0 = 1767225600000000000"
definition demo_ttl :: int where "demo_ttl = 15000000000"
definition demo_t1 :: int where "demo_t1 = demo_t0 + 60000000000"

lemma demo_lapsed: "rfc3339 (demo_t0 + demo_ttl) < rfc3339 demo_t1"
  by code_simp

lemma quiet_quiet_env: "quiet (quiet_env t)" "env_now (quiet_env t) = t" "env_since (quiet_env t) n = 0"
  by (simp_all add: quiet_def quiet_env_def)

lemmas quiet_run = AcquireLeaseWithTerm_def maxLeaseAttempts_def numeral_3_eq_3 acquire_attempt_def
  leaseRow_def newestLeaseTerm_def termBelongsToEarlierTenure_def quiet_calls

definition demo_row :: "int \<Rightarrow> string \<Rightarrow> string \<Rightarrow> term_row" where
  "demo_row t h at = \<lparr>t_key = ''failover'', t_term = t, t_holder = h, t_acquired = at, t_deleted = False\<rparr>"

definition demo_after :: world where
  "demo_after = demo_world\<lparr>election := [(''failover'', (''h1'', rfc3339 (demo_t0 + demo_ttl)))],
     terms := [demo_row 1 ''h1'' (rfc3339 demo_t0)], minted := (\<lambda>_. None)(''failover'' := Some 1)\<rparr>"

lemmas demo_defs = demo_world_def demo_after_def demo_row_def effectiveLeaseHolder_def leaseTermClaimants_def
  newest_live_def live_rows_def rows_of_def max_term_def takeLeaseAndMintTerm_def nextLeaseTerm_def
  leaseAcquirableTx_def mintLeaseTerm_def leaseUpsert_def noteMintedTerm_def mint_outcome_def noteHandedTerm_def
  deferTakeover_def wrap64_def

lemma demo_first:
  "\<exists>n. AcquireLeaseWithTerm ''failover'' ''h1'' demo_ttl (quiet_env demo_t0) (0, demo_world) = (Inr (True, 1), (n, demo_after))"
  by (simp add: quiet_run quiet_quiet_env demo_defs Let_def fun_eq_iff)

lemma demo_second:
  "\<exists>n w. AcquireLeaseWithTerm ''failover'' ''h2'' demo_ttl (quiet_env demo_t1) (0, demo_after) = (Inr (True, 2), (n, w))"
  using demo_lapsed by (simp add: quiet_run quiet_quiet_env demo_defs Let_def)

theorem fencing_terms_increase_witness:
  "\<exists>n w n' w'. AcquireLeaseWithTerm ''failover'' ''h1'' demo_ttl (quiet_env demo_t0) (0, demo_world) = (Inr (True, 1), (n, w)) \<and>
    AcquireLeaseWithTerm ''failover'' ''h2'' demo_ttl (quiet_env demo_t1) (0, w) = (Inr (True, 2), (n', w')) \<and> (1 :: int) < 2"
proof -
  obtain n n' w' where c: "AcquireLeaseWithTerm ''failover'' ''h1'' demo_ttl (quiet_env demo_t0) (0, demo_world) = (Inr (True, 1), (n, demo_after))"
    "AcquireLeaseWithTerm ''failover'' ''h2'' demo_ttl (quiet_env demo_t1) (0, demo_after) = (Inr (True, 2), (n', w'))"
    using demo_first demo_second by blast
  have fair: "fair (quiet_env t)" for t by (simp add: fair_def quiet_env_def)
  have ok: "ledger_ok demo_world" by (simp add: ledger_ok_def demo_world_def)
  have "''h1'' \<noteq> ''h2'' \<longrightarrow> (1 :: int) < 2"
    using fencing_terms_increase [OF fair fair ok c(1) _ ledger_le_refl c(2)] by simp
  with c show ?thesis by blast
qed


text \<open>Two nodes claimed term 1; on the replica of \<open>h1\<close> the claim of \<open>h2\<close> has been noted.\<close>

definition demo_contest :: world where
  "demo_contest = noteLeaseTermClaims ''failover'' 1 [''h1'', ''h2''] demo_after"


text \<open>the term follows the tenure. While its lease is unbroken a holder keeps its term and the
  ledger does not move; once the lease has lapsed, even by its own doing, the same holder gets a
  fresh term above every retained one, and the lease and the ledger row are written together.
  Liveness is compared as text; on printable times that is the comparison of the instants, to
  the second.\<close>

theorem term_follows_tenure:
  assumes q: "quiet env" "\<forall>n. env_since env n = d" and now: "now = env_now env + d"
    and row: "map_of (election w) key = Some (h, rfc3339 exp)" and p: "printable exp" "printable now"
    and newest: "newest_live key (terms w) = leaseTerm T h" "0 < T"
    and calm: "contests w (key, T) = []" "\<not> termless w key" and h: "h \<noteq> ''''"
    and room: "in_i64 (max_term (rows_of key (terms w)) + 1)"
  shows "\<exists>n' w'. AcquireLeaseWithTerm key h ttl env (n, w) =
      (Inr (True, if exp div 1000000000 < now div 1000000000 then max_term (rows_of key (terms w)) + 1 else T), (n', w')) \<and>
    map_of (election w') key = Some (h, rfc3339 (now + ttl)) \<and>
    (if exp div 1000000000 < now div 1000000000
     then terms w' = terms w @ [\<lparr>t_key = key, t_term = max_term (rows_of key (terms w)) + 1, t_holder = h,
            t_acquired = rfc3339 now, t_deleted = False\<rparr>]
     else terms w' = terms w)"
proof -
  have less: "rfc3339 exp < rfc3339 now \<longleftrightarrow> exp div 1000000000 < now div 1000000000"
    by (rule rfc3339_less [OF p])
  have eff: "effectiveLeaseHolder w key (leaseTerm T h) = (h, False)"
    using calm newest(2) by (simp add: effectiveLeaseHolder_def leaseTermClaimants_def)
  show ?thesis
  proof (cases "rfc3339 exp < rfc3339 now")
    case True
    then have guard: "leaseAcquirableTx key h (rfc3339 now) (max_term (rows_of key (terms w)) + 1) 0 w"
      using row by (simp add: leaseAcquirableTx_def Let_def)
    have "deferTakeover h (rfc3339 exp) h h now ttl = False" by (simp add: deferTakeover_def)
    moreover obtain n' w' where
      "takeLeaseAndMintTerm key h (rfc3339 (now + ttl)) (rfc3339 now) now 0 True env (Suc (Suc (Suc (Suc (Suc (Suc n))))), w)
        = (Inr (True, max_term (rows_of key (terms w)) + 1), (n', w'))"
      "terms w' = terms w @ [\<lparr>t_key = key, t_term = max_term (rows_of key (terms w)) + 1, t_holder = h,
            t_acquired = rfc3339 now, t_deleted = False\<rparr>]"
      "map_of (election w') key = Some (h, rfc3339 (now + ttl))"
      using quiet_take [OF q(1) refl room guard] by blast
    ultimately show ?thesis
      using q row newest eff True less now
      by (simp add: quiet_run quiet_mint_outcome Let_def not_le [symmetric])
  next
    case False
    have "max_term (live_rows key (terms w)) = T"
      using newest by (auto simp: newest_live_def max_term_def split: option.splits)
    with False have "leaseRenewableTx key h (rfc3339 now) T w"
      using row by (simp add: leaseRenewableTx_def)
    moreover have "(rfc3339 exp < rfc3339 now) = False" "(rfc3339 now \<le> rfc3339 exp) = True"
      "(exp div 1000000000 < now div 1000000000) = False"
      using False less by simp_all
    ultimately show ?thesis
      using q row newest eff now calm
      by (simp add: quiet_run renewLeaseAtTerm_def noteHandedTerm_def leaseUpsert_def Let_def del: not_less not_le)
  qed
qed

theorem term_follows_tenure_witness:
  "\<exists>n' w'. AcquireLeaseWithTerm ''failover'' ''h1'' demo_ttl (quiet_env demo_t1) (0, demo_after) = (Inr (True, 2), (n', w')) \<and>
    map_of (election w') ''failover'' = Some (''h1'', rfc3339 (demo_t1 + demo_ttl))"
proof -
  have c: "map_of (election demo_after) ''failover'' = Some (''h1'', rfc3339 (demo_t0 + demo_ttl))"
    "newest_live ''failover'' (terms demo_after) = leaseTerm 1 ''h1''"
    "contests demo_after (''failover'', 1) = []" "\<not> termless demo_after ''failover''"
    "max_term (rows_of ''failover'' (terms demo_after)) = 1"
    by (simp_all add: demo_defs)
  have p: "printable (demo_t0 + demo_ttl)" "printable demo_t1"
    "(demo_t0 + demo_ttl) div 1000000000 < demo_t1 div 1000000000" by code_simp+
  have s: "\<forall>n. env_since (quiet_env demo_t1) n = 0" "demo_t1 = env_now (quiet_env demo_t1) + 0"
    by (simp_all add: quiet_quiet_env)
  have "in_i64 (1 + 1)" by (simp add: in_i64_def)
  then show ?thesis
    using term_follows_tenure [OF quiet_quiet_env(1) s c(1) p(1,2) c(2) _ c(3,4), of demo_ttl 0] c(5) p(3) by auto
qed

end
