(* ===== verification/Merges.thy ===== *)
theory Merges
  imports TieResolver LeaderLease VoterSet
begin

text \<open>
  The merges of the tables that neither last-writer-wins nor the tie chains may decide
  (\<open>customMergeTables\<close> of \<^verbatim>\<open>src/internal/corrosion/sync.go\<close>): action proofs, the append-only ledgers,
  project authority (\<^verbatim>\<open>project_authority_merge.go\<close>) and voter configurations.

  A merge sees the columns of the incoming dump, the local row read in that order and the incoming
  row, both in the kinds JSON has, and one row per primary key; the caller has checked that the
  columns are distinct and that the row has as many cells. It may change the incoming row before it
  is applied and the local row in place, so its result carries both. The JSON reading of a
  certificate and its verification on this node are arguments.
\<close>

section \<open>Rows\<close>

text \<open>\<open>fmt.Sprint\<close> of a cell, and the unchecked assertion to a string.\<close>

definition sprint :: "cell \<Rightarrow> string" where
  "sprint v =
     (case v of
        CNull \<Rightarrow> ''<nil>''
      | CBytes bs \<Rightarrow> ''['' @ concat (map2 (\<lambda>i c. (if i = 0 then '''' else '' '') @ FormatInt (of_char c)) [0..<length bs] bs) @ '']''
      | _ \<Rightarrow> coerceString v)"

definition str_of :: "cell \<Rightarrow> string" where
  "str_of v = (case v of CStr s \<Rightarrow> s | _ \<Rightarrow> '''')"

definition cellNonEmpty :: "cell \<Rightarrow> bool" where
  "cellNonEmpty v = (case v of CStr s \<Rightarrow> s \<noteq> '''' | _ \<Rightarrow> False)"

definition encodeRowCells :: "cell list \<Rightarrow> string" where
  "encodeRowCells vals =
     concat (map (\<lambda>v. if v = CNull then ''N;''
       else let s = coerceString v in FormatInt (int (length s)) @ '':'' @ s) vals)"

definition rowFactsEqual :: "string list \<Rightarrow> cell list \<Rightarrow> cell list \<Rightarrow> nat option list \<Rightarrow> bool" where
  "rowFactsEqual cols a b skip =
     (if length a \<noteq> length cols \<or> length b \<noteq> length cols then False
      else
        let kept = filter (\<lambda>i. Some i \<notin> set skip) [0..<length cols] in
        encodeRowCells (map (nth a) kept) = encodeRowCells (map (nth b) kept))"

definition deleted_at :: "nat option \<Rightarrow> cell list \<Rightarrow> bool" where
  "deleted_at idx row = (case idx of None \<Rightarrow> False | Some i \<Rightarrow> cellNonEmpty (row ! i))"

text \<open>The pair of the source: whom to keep, and whether that is decided.\<close>

definition tombstoneDominates :: "cell list \<Rightarrow> cell list \<Rightarrow> nat option \<Rightarrow> bool \<times> bool" where
  "tombstoneDominates localRow row deletedAtIdx =
     (let localDeleted = deleted_at deletedAtIdx localRow; incomingDeleted = deleted_at deletedAtIdx row in
      if localDeleted = incomingDeleted then (False, False) else (localDeleted, True))"

section \<open>What a merge does\<close>

datatype merge_effect =
    Unresolved string
  | LeaseConflict "string list" "cell list" "cell list"
  | RefusedForced int

record merge_result =
  mg_keep :: bool
  mg_local :: "cell list"
  mg_incoming :: "cell list"
  mg_effects :: "merge_effect list"

definition verdict :: "bool \<Rightarrow> cell list \<Rightarrow> cell list \<Rightarrow> merge_effect list \<Rightarrow> merge_result" where
  "verdict keep localRow row effs = \<lparr>mg_keep = keep, mg_local = localRow, mg_incoming = row, mg_effects = effs\<rparr>"

text \<open>The row of the table after the merge.\<close>

definition merged :: "merge_result \<Rightarrow> cell list" where
  "merged r = survivor (mg_keep r) (mg_local r) (mg_incoming r)"

section \<open>Append-only ledgers\<close>

definition immutableTieCategory :: "string \<Rightarrow> string" where
  "immutableTieCategory table =
     (if table = ''leader_lease_terms'' then ''immutable_ledger_conflict'' else ''immutable_ownership_conflict'')"

definition immutableMergeKeepLocalRow :: "string \<Rightarrow> string list \<Rightarrow> nat option \<Rightarrow> cell list \<Rightarrow> cell list \<Rightarrow> merge_result" where
  "immutableMergeKeepLocalRow table cols updatedAtIdx localRow row =
     (let delIdx = indexOf cols ''deleted_at'' in
      (case tombstoneDominates localRow row delIdx of
         (keepLocal, True) \<Rightarrow> verdict keepLocal localRow row []
       | (_, False) \<Rightarrow>
           if rowFactsEqual cols localRow row [updatedAtIdx, delIdx] then verdict True localRow row []
           else
             verdict True localRow row
               (Unresolved (immutableTieCategory table) #
                (if table = ''leader_lease_terms'' \<and> \<not> deleted_at delIdx localRow
                 then [LeaseConflict cols localRow row] else []))))"

section \<open>Project authority\<close>

definition authorityClaimsConflict :: "string list \<Rightarrow> cell list \<Rightarrow> cell list \<Rightarrow> nat option \<Rightarrow> nat option \<Rightarrow> bool" where
  "authorityClaimsConflict cols localRow incoming updatedAtIdx deletedAtIdx =
     (\<not> rowFactsEqual cols localRow incoming [updatedAtIdx, deletedAtIdx, indexOf cols ''created_at''])"

definition authorityJoinKeepLocal :: "string list \<Rightarrow> cell list \<Rightarrow> cell list \<Rightarrow> bool \<times> bool" where
  "authorityJoinKeepLocal cols localRow incomingRow =
     (case (encodeRowCellsV2 cols localRow, encodeRowCellsV2 cols incomingRow) of
        (Inr a, Inr b) \<Rightarrow> (a < b, True)
      | _ \<Rightarrow> (False, False))"

text \<open>The conflict warning is logging and has no effect here.\<close>

definition authorityMergeRow :: "string list \<Rightarrow> cell list \<Rightarrow> cell list \<Rightarrow> merge_result" where
  "authorityMergeRow cols localRow row =
     (case tombstoneDominates localRow row (indexOf cols ''deleted_at'') of
        (keepLocal, True) \<Rightarrow> verdict keepLocal localRow row []
      | (_, False) \<Rightarrow>
          if encodeRowCells localRow = encodeRowCells row then verdict True localRow row []
          else
            (case authorityJoinKeepLocal cols localRow row of
               (keepLocal, True) \<Rightarrow> verdict keepLocal localRow row []
             | (_, False) \<Rightarrow> verdict True localRow row []))"

section \<open>Action proofs\<close>

definition proofRank :: "string \<Rightarrow> int" where
  "proofRank status =
     (if status = ''in_progress'' then 1 else if status = ''completed'' \<or> status = ''failed'' then 2 else 0)"

definition proofMergeKeepLocal :: "string \<Rightarrow> string \<Rightarrow> string \<Rightarrow> string \<Rightarrow> bool" where
  "proofMergeKeepLocal localStatus localTS incomingStatus incomingTS =
     (let lr = proofRank localStatus; ir = proofRank incomingStatus in
      if lr \<noteq> ir then lr > ir
      else if lr = 2 \<and> localStatus \<noteq> incomingStatus then True
      else localWinsLWW localTS incomingTS)"

text \<open>\<open>strings.Fields\<close>; the first argument is the word being read, reversed.\<close>

function fields :: "string \<Rightarrow> string \<Rightarrow> string list" where
  "fields w [] = (if w = [] then [] else [rev w])"
| "fields w (c # s) =
     (case find (\<lambda>p. prefix p (c # s)) space_seqs of
        Some p \<Rightarrow> (if w = [] then [] else [rev w]) @ fields [] (drop (length p - 1) s)
      | None \<Rightarrow> fields (c # w) s)"
  by pat_completeness auto
termination
  by (relation "measure (length \<circ> snd)") auto

fun keep_first :: "string list \<Rightarrow> string list \<Rightarrow> string list" where
  "keep_first seen [] = []"
| "keep_first seen (s # ss) =
     (if s \<in> set seen then keep_first seen ss else s # keep_first (s # seen) ss)"

fun join_space :: "string list \<Rightarrow> string" where
  "join_space [] = ''''"
| "join_space [s] = s"
| "join_space (s # ss) = s @ '' '' @ join_space ss"

definition unionSteps :: "string \<Rightarrow> string \<Rightarrow> string" where
  "unionSteps a b = join_space (keep_first [] (fields [] (a @ '' '' @ b)))"

definition proofBindingColumns :: "string list" where
  "proofBindingColumns =
     [''action'', ''target_kind'', ''target_name'', ''dest_host'', ''coordinator'', ''relocation_token'',
      ''fence_epoch'', ''owner_epoch'', ''lease_term'', ''lease_key'']"

definition proofBindingCellsEqual :: "string list \<Rightarrow> cell list \<Rightarrow> cell list \<Rightarrow> bool" where
  "proofBindingCellsEqual cols a b =
     list_all (\<lambda>name.
       case indexOf cols name of
         None \<Rightarrow> False
       | Some i \<Rightarrow> i < length a \<and> i < length b \<and> sprint (a ! i) = sprint (b ! i)) proofBindingColumns"

definition proofRowEncoding :: "cell list \<Rightarrow> string" where
  "proofRowEncoding row = concat (map (\<lambda>v. sprint v @ [CHR 0x00]) row)"

definition ClaimCertificateReplaces ::
  "(string \<Rightarrow> ClaimCertificate option) \<Rightarrow> (string \<Rightarrow> bool) \<Rightarrow> string \<Rightarrow> string \<Rightarrow> bool" where
  "ClaimCertificateReplaces decode verifies current nxt =
     (if nxt = '''' \<or> nxt = current then False
      else
        (case decode nxt of
           None \<Rightarrow> False
         | Some n \<Rightarrow>
             if current = '''' then True
             else
               (case decode current of
                  None \<Rightarrow> True
                | Some c \<Rightarrow>
                    let sameKey = (ct_Key n = ct_Key c \<or>
                      k_Incarnation (ct_Key c) = '''' \<and> SameDecision (ct_Key n) (ct_Key c)) in
                    if ct_ValueDigest n \<noteq> ct_ValueDigest c \<or> \<not> sameKey \<or> \<not> verifies nxt then False
                    else \<not> verifies current \<or> ct_ConfigGeneration n > ct_ConfigGeneration c)))"

definition betterClaimCertificate ::
  "(string \<Rightarrow> ClaimCertificate option) \<Rightarrow> (string \<Rightarrow> bool) \<Rightarrow> string \<Rightarrow> string \<Rightarrow> string" where
  "betterClaimCertificate decode verifies a b =
     (if a = b then a
      else if ClaimCertificateReplaces decode verifies a b then b
      else if ClaimCertificateReplaces decode verifies b a then a
      else if a = '''' then b
      else if b = '''' then a
      else if verifies a \<noteq> verifies b then (if verifies a then a else b)
      else if a > b then a else b)"

text \<open>The two folds of \<open>proofMergeKeepLocalRow\<close>: whichever row stays gets the union of the steps, and
  the better certificate.\<close>

definition fold_cell :: "nat option \<Rightarrow> (string \<Rightarrow> string \<Rightarrow> string) \<Rightarrow> merge_result \<Rightarrow> merge_result" where
  "fold_cell idx pick r =
     (case idx of
        None \<Rightarrow> r
      | Some i \<Rightarrow>
          let l = str_of (mg_local r ! i); best = pick l (str_of (mg_incoming r ! i)) in
          if \<not> mg_keep r then r\<lparr>mg_incoming := (mg_incoming r)[i := CStr best]\<rparr>
          else if best \<noteq> l then r\<lparr>mg_local := (mg_local r)[i := CStr best]\<rparr>
          else r)"

definition proofMergeKeepLocalRow ::
  "(string \<Rightarrow> ClaimCertificate option) \<Rightarrow> (string \<Rightarrow> bool) \<Rightarrow> string list \<Rightarrow> nat \<Rightarrow> cell list \<Rightarrow> cell list \<Rightarrow> merge_result" where
  "proofMergeKeepLocalRow decode verifies cols updatedAtIdx localRow row =
     (case indexOf cols ''status'' of
        None \<Rightarrow> verdict True localRow row []
      | Some statusIdx \<Rightarrow>
          let localTS = str_of (localRow ! updatedAtIdx); incomingTS = str_of (row ! updatedAtIdx);
              localStatus = str_of (localRow ! statusIdx); incomingStatus = str_of (row ! statusIdx) in
          if proofRank localStatus = 2 \<and> proofRank incomingStatus = 2 \<and> localStatus \<noteq> incomingStatus
          then verdict True localRow row [Unresolved ''runtime_owned'']
          else
            let keepLocal =
              (if localStatus = incomingStatus \<and> lwwOrder localTS incomingTS = 0 \<and> proofBindingCellsEqual cols localRow row
               then proofRowEncoding localRow \<ge> proofRowEncoding row
               else proofMergeKeepLocal localStatus localTS incomingStatus incomingTS) in
            fold_cell (indexOf cols ''claim_certificate'') (betterClaimCertificate decode verifies)
              (fold_cell (indexOf cols ''step_state'') unionSteps (verdict keepLocal localRow row [])))"

section \<open>Voter configurations\<close>

text \<open>\<open>adopted\<close> is the highest generation this node has adopted, 0 for none.\<close>

definition voterConfigMergeKeepLocalRow ::
  "int \<Rightarrow> string list \<Rightarrow> nat option \<Rightarrow> cell list \<Rightarrow> cell list \<Rightarrow> merge_result" where
  "voterConfigMergeKeepLocalRow adopted cols updatedAtIdx localRow row =
     (let delIdx = indexOf cols ''deleted_at''; certIdx = indexOf cols ''certificate'' in
      if rowFactsEqual cols localRow row [updatedAtIdx, delIdx, certIdx] then
        (case certIdx of
           None \<Rightarrow> verdict True localRow row []
         | Some k \<Rightarrow>
             let lc = sprint (localRow ! k); ic = sprint (row ! k) in
             if lc \<noteq> ic then verdict (lc > ic) localRow row []
             else
               (case updatedAtIdx of
                  None \<Rightarrow> verdict True localRow row []
                | Some u \<Rightarrow> verdict (sprint (localRow ! u) \<ge> sprint (row ! u)) localRow row []))
      else
        let flagged = verdict True localRow row [Unresolved ''immutable_ledger_conflict''] in
        (case indexOf cols ''change'' of
           None \<Rightarrow> flagged
         | Some ci \<Rightarrow>
             let lf = IsForcedChange (sprint (localRow ! ci)); incomingForced = IsForcedChange (sprint (row ! ci)) in
             if lf = incomingForced then flagged
             else if incomingForced then
               let gen = (case indexOf cols ''generation'' of
                 None \<Rightarrow> 0
               | Some gi \<Rightarrow> (case ParseInt (sprint (row ! gi)) of None \<Rightarrow> 0 | Some g \<Rightarrow> g)) in
               if gen > 0 \<and> adopted \<ge> gen
               then verdict True localRow row [RefusedForced gen, Unresolved ''immutable_ledger_conflict'']
               else verdict lf localRow row []
             else verdict lf localRow row []))"

section \<open>Dispatch\<close>

text \<open>\<open>mergeChunk\<close> on a custom-merge table: no local row takes the incoming one.\<close>

definition custom_merge ::
  "(string \<Rightarrow> ClaimCertificate option) \<Rightarrow> (string \<Rightarrow> bool) \<Rightarrow> int \<Rightarrow> string \<Rightarrow> string list \<Rightarrow> nat \<Rightarrow> cell list option \<Rightarrow> cell list \<Rightarrow>
     merge_result option" where
  "custom_merge decode verifies adopted table cols upd localRow row =
     (if table \<notin> set customMergeTables then None
      else
        (case localRow of
           None \<Rightarrow> Some (verdict False [] row [])
         | Some l \<Rightarrow>
             Some (if table = ''runtime_action_proofs'' then proofMergeKeepLocalRow decode verifies cols upd l row
               else if table = ''project_authority_epochs'' then authorityMergeRow cols l row
               else if table = ''voter_configs'' then voterConfigMergeKeepLocalRow adopted cols (Some upd) l row
               else immutableMergeKeepLocalRow table cols (Some upd) l row)))"

section \<open>The union of steps\<close>

lemma seqs_no_space: "p \<in> set space_seqs \<Longrightarrow> p = [CHR 0x20] \<or> CHR 0x20 \<notin> set p"
  by (auto simp: space_seqs_def)

lemma prefix_before_space:
  assumes "p \<in> set space_seqs"
  shows "prefix p (c # s @ CHR 0x20 # t) \<longleftrightarrow> prefix p (c # s)"
proof
  assume p: "prefix p (c # s @ CHR 0x20 # t)"
  show "prefix p (c # s)"
  proof (cases "p = [CHR 0x20]")
    case False
    then have no: "CHR 0x20 \<notin> set p" using assms seqs_no_space by blast
    from p have "prefix p ((c # s) @ CHR 0x20 # t)" by simp
    then have "prefix p (c # s) \<or> (\<exists>us. p = (c # s) @ us \<and> prefix us (CHR 0x20 # t))"
      by (simp only: prefix_append)
    with no show ?thesis by (auto simp: prefix_Cons)
  qed (use p in simp)
qed (use prefix_prefix [of p "c # s" "CHR 0x20 # t"] in simp)

lemma find_space: "find (\<lambda>p. prefix p (CHR 0x20 # t)) space_seqs = Some [CHR 0x20]"
  by (simp add: space_seqs_def)

lemma fields_append: "fields w (s @ CHR 0x20 # t) = fields w s @ fields [] t"
proof (induction w s rule: fields.induct)
  case (1 w)
  show ?case by (simp add: find_space)
next
  case (2 w c s)
  have "find (\<lambda>p. prefix p (c # s @ CHR 0x20 # t)) space_seqs = find (\<lambda>p. prefix p (c # s)) space_seqs"
    by (rule find_cong) (simp_all only: prefix_before_space)
  moreover have "length p - 1 \<le> length s" if "find (\<lambda>p. prefix p (c # s)) space_seqs = Some p" for p
    using that prefix_length_le [of p "c # s"] by (auto simp: find_Some_iff)
  ultimately show ?case
    using 2 by (auto split: option.splits)
qed

definition spaceless :: "string \<Rightarrow> bool" where
  "spaceless w \<longleftrightarrow> (\<forall>u v. w = u @ v \<longrightarrow> v \<noteq> [] \<longrightarrow> find (\<lambda>p. prefix p v) space_seqs = None)"

lemma fields_spaceless: "spaceless s \<Longrightarrow> fields w s = (if rev w @ s = [] then [] else [rev w @ s])"
proof (induction s arbitrary: w)
  case (Cons c s)
  have "find (\<lambda>p. prefix p (c # s)) space_seqs = None" using Cons.prems by (simp add: spaceless_def)
  moreover have "spaceless s" using Cons.prems unfolding spaceless_def by (metis append_Cons)
  ultimately show ?case using Cons.IH [of "c # w"] by simp
qed simp

lemma fields_words:
  "(\<forall>u v. rev w = u @ v \<longrightarrow> v \<noteq> [] \<longrightarrow> find (\<lambda>p. prefix p (v @ s)) space_seqs = None) \<Longrightarrow>
   x \<in> set (fields w s) \<Longrightarrow> x \<noteq> [] \<and> spaceless x"
proof (induction w s rule: fields.induct)
  case (1 w)
  then show ?case by (auto simp: spaceless_def split: if_splits)
next
  case (2 w c s)
  have word: "spaceless (rev w)"
    unfolding spaceless_def using 2(3) by (simp add: find_None_iff) (metis prefix_prefix)
  show ?case
  proof (cases "find (\<lambda>p. prefix p (c # s)) space_seqs")
    case None
    have "find (\<lambda>p. prefix p (v @ s)) space_seqs = None" if uv: "rev (c # w) = u @ v" "v \<noteq> []" for u v
    proof -
      obtain v' where v': "v = v' @ [c]" "rev w = u @ v'" using uv by (cases v rule: rev_cases) auto
      show ?thesis using None 2(3) v' by (cases "v' = []") auto
    qed
    with 2(1) [OF None] 2(4) None show ?thesis by auto
  next
    case (Some p)
    then show ?thesis using 2(2) [OF Some] 2(4) word by (auto split: if_splits)
  qed
qed

lemma fields_join: "\<forall>x \<in> set ws. x \<noteq> [] \<and> spaceless x \<Longrightarrow> fields [] (join_space ws) = ws"
proof (induction ws rule: join_space.induct)
  case (3 s t ts)
  then show ?case using fields_append [of "[]" s "join_space (t # ts)"] by (simp add: fields_spaceless)
qed (simp_all add: fields_spaceless)

lemma set_keep_first: "set (keep_first seen xs) = set xs - set seen"
  by (induction seen xs rule: keep_first.induct) auto

lemma unionSteps_fields: "set (fields [] (unionSteps a b)) = set (fields [] a) \<union> set (fields [] b)"
proof -
  let ?ws = "keep_first [] (fields [] (a @ '' '' @ b))"

  have "\<forall>x \<in> set ?ws. x \<noteq> [] \<and> spaceless x"
    using fields_words [of "[]" "a @ '' '' @ b"] by (auto simp: set_keep_first)
  then have "fields [] (unionSteps a b) = ?ws" by (simp only: unionSteps_def fields_join)
  then show ?thesis by (simp add: set_keep_first fields_append)
qed

section \<open>Merging proofs\<close>

lemma indexOf_Some: "indexOf cols c = Some i \<Longrightarrow> i < length cols \<and> cols ! i = c"
  by (induction cols arbitrary: i) (auto split: if_splits)

lemma indexOf_None: "indexOf cols c = None \<longleftrightarrow> c \<notin> set cols"
  by (induction cols) auto

lemma fold_cell_fields [simp]:
  "mg_keep (fold_cell idx pick r) = mg_keep r" "mg_effects (fold_cell idx pick r) = mg_effects r"
  "length (mg_local (fold_cell idx pick r)) = length (mg_local r)"
  "length (mg_incoming (fold_cell idx pick r)) = length (mg_incoming r)"
  by (simp_all add: fold_cell_def Let_def split: option.splits)

lemma fold_cell_other:
  "idx \<noteq> Some j \<Longrightarrow> mg_local (fold_cell idx pick r) ! j = mg_local r ! j \<and> mg_incoming (fold_cell idx pick r) ! j = mg_incoming r ! j"
  by (cases idx) (auto simp: fold_cell_def Let_def nth_list_update_neq)

lemma merged_fold_other: "idx \<noteq> Some j \<Longrightarrow> merged (fold_cell idx pick r) ! j = merged r ! j"
  by (simp add: merged_def survivor_def fold_cell_other)

lemma merged_fold_at:
  "i < length (mg_local r) \<Longrightarrow> i < length (mg_incoming r) \<Longrightarrow>
   str_of (merged (fold_cell (Some i) pick r) ! i) = pick (str_of (mg_local r ! i)) (str_of (mg_incoming r ! i))"
  by (auto simp: merged_def survivor_def fold_cell_def Let_def str_of_def)

lemma certificate_asymmetric:
  "ClaimCertificateReplaces decode verifies a b \<Longrightarrow> \<not> ClaimCertificateReplaces decode verifies b a"
  by (auto simp: ClaimCertificateReplaces_def Let_def split: option.splits if_splits)

lemma betterClaimCertificate_commute:
  "betterClaimCertificate decode verifies a b = betterClaimCertificate decode verifies b a"
  using certificate_asymmetric [of decode verifies a b] by (auto simp: betterClaimCertificate_def)

text \<open>The text of a named column.\<close>

definition text_at :: "string list \<Rightarrow> cell list \<Rightarrow> string \<Rightarrow> string" where
  "text_at cols row c = (case indexOf cols c of None \<Rightarrow> '''' | Some i \<Rightarrow> str_of (row ! i))"

text \<open>The decision of the merge before the folds, \<open>None\<close> where it stops at a split outcome.\<close>

definition proof_keep :: "string list \<Rightarrow> nat \<Rightarrow> cell list \<Rightarrow> cell list \<Rightarrow> bool" where
  "proof_keep cols upd l i =
     (if text_at cols l ''status'' = text_at cols i ''status'' \<and> lwwOrder (str_of (l ! upd)) (str_of (i ! upd)) = 0 \<and>
        proofBindingCellsEqual cols l i
      then proofRowEncoding l \<ge> proofRowEncoding i
      else proofMergeKeepLocal (text_at cols l ''status'') (str_of (l ! upd)) (text_at cols i ''status'') (str_of (i ! upd)))"

definition split_outcome :: "string list \<Rightarrow> cell list \<Rightarrow> cell list \<Rightarrow> bool" where
  "split_outcome cols l i \<longleftrightarrow> proofRank (text_at cols l ''status'') = 2 \<and> proofRank (text_at cols i ''status'') = 2 \<and>
     text_at cols l ''status'' \<noteq> text_at cols i ''status''"

lemma proofMerge_cases:
  assumes "''status'' \<in> set cols"
  shows "proofMergeKeepLocalRow decode verifies cols upd l i =
    (if split_outcome cols l i then verdict True l i [Unresolved ''runtime_owned'']
     else fold_cell (indexOf cols ''claim_certificate'') (betterClaimCertificate decode verifies)
       (fold_cell (indexOf cols ''step_state'') unionSteps (verdict (proof_keep cols upd l i) l i [])))"
proof -
  have "indexOf cols ''status'' \<noteq> None" using assms by (simp add: indexOf_None)
  then show ?thesis
    by (auto simp: proofMergeKeepLocalRow_def split_outcome_def proof_keep_def text_at_def Let_def)
qed

lemma proof_keep_rank:
  "\<not> split_outcome cols l i \<Longrightarrow>
   (proof_keep cols upd l i \<longrightarrow> proofRank (text_at cols i ''status'') \<le> proofRank (text_at cols l ''status'')) \<and>
   (\<not> proof_keep cols upd l i \<longrightarrow> proofRank (text_at cols l ''status'') \<le> proofRank (text_at cols i ''status''))"
  by (auto simp: proof_keep_def proofMergeKeepLocal_def split_outcome_def Let_def split: if_splits)

lemma merged_verdict [simp]: "merged (verdict k l i effs) = (if k then l else i)"
  by (simp add: merged_def verdict_def survivor_def)

lemma text_at_fold_other:
  assumes "idx = indexOf cols c" "c \<noteq> c'"
  shows "text_at cols (merged (fold_cell idx pick r)) c' = text_at cols (merged r) c'"
proof (cases "indexOf cols c'")
  case (Some j)
  then have "idx \<noteq> Some j" using assms indexOf_Some by metis
  with Some show ?thesis by (simp add: text_at_def merged_fold_other)
qed (simp add: text_at_def)

lemma text_at_fold:
  assumes "c \<in> set cols" "length (mg_local r) = length cols" "length (mg_incoming r) = length cols"
  shows "text_at cols (merged (fold_cell (indexOf cols c) pick r)) c =
    pick (text_at cols (mg_local r) c) (text_at cols (mg_incoming r) c)"
proof -
  obtain j where "indexOf cols c = Some j" using assms(1) indexOf_None [of cols c] by auto
  then show ?thesis using assms indexOf_Some [of cols c j] by (simp add: text_at_def merged_fold_at)
qed

section \<open>Properties\<close>


lemma proofBindingCellsEqual_commute: "proofBindingCellsEqual cols a b = proofBindingCellsEqual cols b a"
  by (auto simp: proofBindingCellsEqual_def list_all_iff split: option.splits)

text \<open>Two copies of a proof the merge can order: by rank, by time, or as two copies of one proof.\<close>

definition proofs_ordered :: "string list \<Rightarrow> nat \<Rightarrow> cell list \<Rightarrow> cell list \<Rightarrow> bool" where
  "proofs_ordered cols upd l i \<longleftrightarrow>
     proofRank (text_at cols l ''status'') \<noteq> proofRank (text_at cols i ''status'') \<or>
     text_at cols l ''status'' = text_at cols i ''status'' \<and>
       (lwwOrder (str_of (l ! upd)) (str_of (i ! upd)) \<noteq> 0 \<or>
        proofBindingCellsEqual cols l i \<and> proofRowEncoding l \<noteq> proofRowEncoding i)"

lemma proof_keep_opposite:
  assumes "proofs_ordered cols upd l i"
  shows "proof_keep cols upd i l = (\<not> proof_keep cols upd l i)"
proof -
  have b: "proofBindingCellsEqual cols i l = proofBindingCellsEqual cols l i" by (rule proofBindingCellsEqual_commute)
  have y: "lwwOrder (str_of (i ! upd)) (str_of (l ! upd)) = - lwwOrder (str_of (l ! upd)) (str_of (i ! upd))"
    by (rule lwwOrder_antisymmetric)
  define x where "x = lwwOrder (str_of (l ! upd)) (str_of (i ! upd))"
  have r: "text_at cols l ''status'' = text_at cols i ''status'' \<Longrightarrow>
      proofRank (text_at cols l ''status'') = proofRank (text_at cols i ''status'')" by simp
  show ?thesis
    using assms r unfolding proofs_ordered_def proof_keep_def proofMergeKeepLocal_def localWinsLWW_def Let_def b y x_def [symmetric]
    by (cases "x = 0"; cases "proofBindingCellsEqual cols l i"; cases "text_at cols l ''status'' = text_at cols i ''status''") auto
qed


definition demo_proof_cols :: "string list" where
  "demo_proof_cols = ''id'' # proofBindingColumns @ [''status'', ''step_state'', ''updated_at'', ''claim_certificate'']"

definition demo_proof :: "string \<Rightarrow> string \<Rightarrow> string \<Rightarrow> cell list" where
  "demo_proof status steps cert =
     map CStr [''p1'', ''promote'', ''vm'', ''web'', ''n2'', ''n1'', '''', '''', ''4''] @
     [CFloat (float_of_int 3), CStr ''failover'', CStr status, CStr steps, CStr ''2026-01-01T00:00:00Z'', CStr cert]"

definition demo_merge :: "cell list \<Rightarrow> cell list \<Rightarrow> merge_result" where
  "demo_merge l i = proofMergeKeepLocalRow (\<lambda>_. None) (\<lambda>_. False) demo_proof_cols 13 l i"



text \<open>the order of checkpoints never settles. Two replicas that recorded different checkpoints
  of one proof exchange their rows; each then has both checkpoints, its own first, and from then on
  every exchange leaves both rows as they are, different, with nothing flagged.\<close>

theorem step_order_never_settles:
  "\<exists>a b. merged (demo_merge (demo_proof ''in_progress'' ''define'' '''') (demo_proof ''in_progress'' ''started'' '''')) = a \<and>
    merged (demo_merge (demo_proof ''in_progress'' ''started'' '''') (demo_proof ''in_progress'' ''define'' '''')) = b \<and>
    a \<noteq> b \<and> merged (demo_merge a b) = a \<and> merged (demo_merge b a) = b \<and>
    mg_effects (demo_merge a b) = [] \<and> mg_effects (demo_merge b a) = []"
proof -
  let ?a = "demo_proof ''in_progress'' ''define started'' ''''" let ?b = "demo_proof ''in_progress'' ''started define'' ''''"
  have "merged (demo_merge (demo_proof ''in_progress'' ''define'' '''') (demo_proof ''in_progress'' ''started'' '''')) = ?a"
    "merged (demo_merge (demo_proof ''in_progress'' ''started'' '''') (demo_proof ''in_progress'' ''define'' '''')) = ?b"
    "?a \<noteq> ?b" "merged (demo_merge ?a ?b) = ?a" "merged (demo_merge ?b ?a) = ?b"
    "mg_effects (demo_merge ?a ?b) = []" "mg_effects (demo_merge ?b ?a) = []" by code_simp+
  then show ?thesis by blast
qed

section \<open>Merging project authority\<close>

text \<open>One row on two nodes: the same cells under the same columns, maybe in another order.\<close>

definition same_image :: "string list \<Rightarrow> cell list \<Rightarrow> string list \<Rightarrow> cell list \<Rightarrow> bool" where
  "same_image cols l cols' l' \<longleftrightarrow>
     length l = length cols \<and> length l' = length cols' \<and> distinct cols \<and> distinct cols' \<and>
     set cols = set cols' \<and> map_of (zip cols l) = map_of (zip cols' l')"

lemma same_image_encode: "same_image cols l cols' l' \<Longrightarrow> encodeRowCellsV2 cols l = encodeRowCellsV2 cols' l'"
  by (rule same_row_encode) (simp add: same_image_def same_row_def same_reading_def list_all_iff)

lemma map_of_zip_indexOf: "length l = length cols \<Longrightarrow> map_of (zip cols l) c = map_option (nth l) (indexOf cols c)"
proof (induction cols arbitrary: l)
  case (Cons a cols)
  then obtain v vs where l: "l = v # vs" by (cases l) auto
  with Cons show ?case by (cases "indexOf cols c") auto
qed simp

lemma same_image_deleted:
  "same_image cols l cols' l' \<Longrightarrow> deleted_at (indexOf cols c) l = deleted_at (indexOf cols' c) l'"
  using map_of_zip_indexOf [of l cols c] map_of_zip_indexOf [of l' cols' c]
  by (cases "indexOf cols c"; cases "indexOf cols' c") (auto simp: same_image_def deleted_at_def)

definition cell_text :: "cell \<Rightarrow> string option" where
  "cell_text v = (if v = CNull then None else Some (coerceString v))"

definition text_token :: "string option \<Rightarrow> string" where
  "text_token c = (case c of None \<Rightarrow> ''N;'' | Some s \<Rightarrow> dec (length s) @ CHR '':'' # s)"

lemma encodeRowCells_tokens: "encodeRowCells vals = concat (map (text_token \<circ> cell_text) vals)"
  by (simp add: encodeRowCells_def cell_text_def text_token_def FormatInt_def dec_int_dec Let_def if_distrib comp_def cong: if_cong)

lemma text_token_split: "text_token c @ r = text_token d @ r' \<Longrightarrow> c = d \<and> r = r'"
proof (cases c; cases d)
  fix s assume "text_token c @ r = text_token d @ r'" "c = None" "d = Some s"
  then have "hd (dec (length s) @ CHR '':'' # s @ r') = CHR ''N''" by (simp add: text_token_def) (metis list.sel(1))
  then show ?thesis using hd_dec [of "length s"] by (simp add: hd_append is_digit_def)
next
  fix s assume "text_token c @ r = text_token d @ r'" "c = Some s" "d = None"
  then have "hd (dec (length s) @ CHR '':'' # s @ r) = CHR ''N''" by (simp add: text_token_def)
  then show ?thesis using hd_dec [of "length s"] by (simp add: hd_append is_digit_def)
qed (auto simp: text_token_def dest: length_prefix)

lemma encodeRowCells_eq:
  "length a = length b \<Longrightarrow> encodeRowCells a = encodeRowCells b \<longleftrightarrow> map cell_text a = map cell_text b"
proof (induction a b rule: list_induct2)
  case (Cons x a y b)
  then show ?case using text_token_split [of "cell_text x" _ "cell_text y"] by (auto simp: encodeRowCells_tokens)
qed simp

lemma same_image_texts:
  assumes "same_image cols l cols' l'" "same_image cols i cols' i'"
  shows "map cell_text l = map cell_text i \<longleftrightarrow> map cell_text l' = map cell_text i'"
proof -
  have iff: "map cell_text l = map cell_text i \<longleftrightarrow>
      (\<forall>c \<in> set cols. map_option cell_text (map_of (zip cols l) c) = map_option cell_text (map_of (zip cols i) c))"
    if len: "length l = length cols" "length i = length cols" and d: "distinct cols" for l i and cols :: "string list"
  proof -
    have "map_of (zip cols v) (cols ! j) = Some (v ! j)" if "length v = length cols" "j < length cols" for v :: "cell list" and j
      using d that by (simp add: map_of_zip_nth)
    then have "(\<forall>c \<in> set cols. map_option cell_text (map_of (zip cols l) c) = map_option cell_text (map_of (zip cols i) c)) \<longleftrightarrow>
        (\<forall>j < length cols. cell_text (l ! j) = cell_text (i ! j))"
      using len by (simp add: all_set_conv_all_nth)
    moreover have "map cell_text l = map cell_text i \<longleftrightarrow> (\<forall>j < length cols. cell_text (l ! j) = cell_text (i ! j))"
      using len by (auto simp: list_eq_iff_nth_eq)
    ultimately show ?thesis by simp
  qed
  show ?thesis
    using assms iff [of l cols i] iff [of l' cols' i'] by (simp add: same_image_def)
qed

text \<open>C31: conflicting project authorities converge. One node holds a claim as local and gets the
  other's as incoming, the other node the reverse, its columns maybe in another order. After the two
  merges the row that stands is the same on both, unless the two claims already read the same cell by
  cell; and a tombstone on either side stands on both.\<close>

theorem authority_merge_converges:
  assumes l: "same_image cols l cols' l'" and i: "same_image cols i cols' i'"
    and enc: "encodeRowCellsV2 cols l = Inr s" "encodeRowCellsV2 cols i = Inr t"
    and A: "rA = authorityMergeRow cols l i" and B: "rB = authorityMergeRow cols' i' l'"
  shows "(encodeRowCellsV2 cols (merged rA) = encodeRowCellsV2 cols' (merged rB) \<or> map cell_text l = map cell_text i) \<and>
    deleted_at (indexOf cols ''deleted_at'') (merged rA) = (deleted_at (indexOf cols ''deleted_at'') l \<or> deleted_at (indexOf cols ''deleted_at'') i) \<and>
    deleted_at (indexOf cols' ''deleted_at'') (merged rB) = deleted_at (indexOf cols ''deleted_at'') (merged rA)"
proof -
  let ?d = "deleted_at (indexOf cols ''deleted_at'')" let ?d' = "deleted_at (indexOf cols' ''deleted_at'')"
  note same = same_image_encode [OF l] same_image_encode [OF i]
  have d: "?d' l' = ?d l" "?d' i' = ?d i"
    using same_image_deleted [OF l] same_image_deleted [OF i] by simp_all
  have v1: "encodeRowCells l = encodeRowCells i \<longleftrightarrow> map cell_text l = map cell_text i"
    "encodeRowCells i' = encodeRowCells l' \<longleftrightarrow> map cell_text l = map cell_text i"
    using l i same_image_texts [OF l i] by (auto simp: encodeRowCells_eq same_image_def)
  have A': "merged rA = (if ?d l \<noteq> ?d i then (if ?d l then l else i)
      else if map cell_text l = map cell_text i \<or> s < t then l else i)"
    using enc v1(1) unfolding A by (simp add: authorityMergeRow_def tombstoneDominates_def authorityJoinKeepLocal_def Let_def)
  have B': "merged rB = (if ?d l \<noteq> ?d i then (if ?d l then l' else i')
      else if map cell_text l = map cell_text i \<or> t < s then i' else l')"
    using enc same v1(2) d unfolding B
    by (auto simp: authorityMergeRow_def tombstoneDominates_def authorityJoinKeepLocal_def Let_def)
  show ?thesis using A' B' same enc d by (auto split: if_splits)
qed

definition demo_authority :: "string \<Rightarrow> cell list" where
  "demo_authority holder = [CStr ''acme'', CFloat (float_of_int 1), CStr holder, CStr ''t'', CNull]"

definition demo_authority' :: "string \<Rightarrow> cell list" where
  "demo_authority' holder = [CStr holder, CNull, CStr ''acme'', CFloat (float_of_int 1), CStr ''t'']"

theorem authority_merge_converges_witness:
  "encodeRowCellsV2 [''project'', ''authority_epoch'', ''holder'', ''updated_at'', ''deleted_at'']
     (merged (authorityMergeRow [''project'', ''authority_epoch'', ''holder'', ''updated_at'', ''deleted_at''] (demo_authority ''n1'') (demo_authority ''n2''))) =
   encodeRowCellsV2 [''holder'', ''deleted_at'', ''project'', ''authority_epoch'', ''updated_at'']
     (merged (authorityMergeRow [''holder'', ''deleted_at'', ''project'', ''authority_epoch'', ''updated_at''] (demo_authority' ''n2'') (demo_authority' ''n1'')))"
proof -
  let ?c = "[''project'', ''authority_epoch'', ''holder'', ''updated_at'', ''deleted_at'']"
  let ?c' = "[''holder'', ''deleted_at'', ''project'', ''authority_epoch'', ''updated_at'']"
  have im: "same_image ?c (demo_authority h) ?c' (demo_authority' h)" for h
    unfolding same_image_def demo_authority_def demo_authority'_def by (auto simp: fun_eq_iff)
  obtain s t where enc: "encodeRowCellsV2 ?c (demo_authority ''n1'') = Inr s" "encodeRowCellsV2 ?c (demo_authority ''n2'') = Inr t"
  proof -
    have "\<not> isl (encodeRowCellsV2 ?c (demo_authority ''n1''))" "\<not> isl (encodeRowCellsV2 ?c (demo_authority ''n2''))" by code_simp+
    then show thesis using that by (metis isl_def old.sum.exhaust)
  qed
  have "map cell_text (demo_authority ''n1'') \<noteq> map cell_text (demo_authority ''n2'')" by code_simp
  with authority_merge_converges [OF im im enc refl refl] show ?thesis by blast
qed

end
