(* ===== verification/Permissions.thy ===== *)
theory Permissions
  imports GoStrings
begin

text \<open>
  Path-based access control: \<^verbatim>\<open>src/internal/auth/permissions.go\<close> and the roles and
  role_bindings tables of \<^verbatim>\<open>src/internal/corrosion/auth.go\<close>.

  A path is compared after \<open>canonicalPath\<close>; a granted verb may carry a wildcard. The engine
  answers from a snapshot of both tables. The theory shows that the string tests of the engine
  are prefix tests on path components and on dotted verb components, that \<open>Allowed\<close> therefore
  implements a policy over sets of grants, and what the seeded roles can do.

  The JSON text of a role's verbs is kept as the list it encodes. A failing database access is
  an \<open>Inl\<close> handed to the operation that makes it.
\<close>

section \<open>Paths and verbs\<close>

text \<open>The loop that strips trailing slashes, on the reversed string; it leaves one character.\<close>

fun drop_slashes :: "string \<Rightarrow> string" where
  "drop_slashes (c # d # s) = (if c = CHR ''/'' then drop_slashes (d # s) else c # d # s)"
| "drop_slashes s = s"

definition canonicalPath :: "string \<Rightarrow> string" where
  "canonicalPath p =
     (if p = '''' then ''/''
      else let p = rev (drop_slashes (rev p)) in
        if hd p \<noteq> CHR ''/'' then CHR ''/'' # p else p)"

definition pathPrefixOf :: "string \<Rightarrow> string \<Rightarrow> bool" where
  "pathPrefixOf pre path =
     (let pre = canonicalPath pre; path = canonicalPath path in
      if pre = ''/'' then True
      else if \<not> prefix pre path then False
      else if length path = length pre then True
      else path ! length pre = CHR ''/'')"

fun verbMatches :: "string list \<Rightarrow> string \<Rightarrow> bool" where
  "verbMatches [] verb = False"
| "verbMatches (g # grants) verb =
     (if g = ''*'' then True
      else if g = verb then True
      else if suffix ''.*'' g \<and> \<not> prefix ''*'' g \<and> prefix (take (length g - 2) g @ ''.'') verb then True
      else if prefix ''*.'' g \<and> \<not> suffix ''.*'' g \<and> suffix (drop 1 g) verb then True
      else verbMatches grants verb)"

section \<open>The tables\<close>

record RoleRecord =
  r_Name :: string
  r_Verbs :: "string list"
  r_Description :: string
  r_BuiltIn :: bool
  r_UpdatedAt :: string

record RoleBindingRecord =
  b_ID :: string
  b_Path :: string
  b_Role :: string
  b_Principal :: string
  b_Propagate :: bool
  b_UpdatedAt :: string

text \<open>A stored row is its record with the \<open>deleted_at\<close> column.\<close>

type_synonym 'a row = "'a \<times> string option"

record auth_db =
  roles :: "RoleRecord row list"
  role_bindings :: "RoleBindingRecord row list"

definition live :: "'a row list \<Rightarrow> 'a list" where
  "live rows = map fst (filter (\<lambda>r. snd r = None) rows)"

definition InsertRole :: "string \<Rightarrow> RoleRecord \<Rightarrow> auth_db \<Rightarrow> auth_db" where
  "InsertRole now r db =
     (let r = r\<lparr>r_UpdatedAt := now\<rparr> in
      if r_Name r \<in> set (map (r_Name \<circ> fst) (roles db))
      then db\<lparr>roles := map (\<lambda>(q, del). if r_Name q = r_Name r then (r, del) else (q, del)) (roles db)\<rparr>
      else db\<lparr>roles := roles db @ [(r, None)]\<rparr>)"

definition GetRole :: "string \<Rightarrow> auth_db \<Rightarrow> RoleRecord option" where
  "GetRole name db =
     (case filter (\<lambda>r. r_Name r = name) (live (roles db)) of [] \<Rightarrow> None | r # _ \<Rightarrow> Some r)"

definition ListRoles :: "auth_db \<Rightarrow> RoleRecord list" where
  "ListRoles db = sort_key r_Name (live (roles db))"

datatype role_error = RoleNotFound string | RoleIsBuiltIn string

definition DeleteRole :: "string \<Rightarrow> string \<Rightarrow> string \<Rightarrow> auth_db \<Rightarrow> role_error + auth_db" where
  "DeleteRole now marker name db =
     (case GetRole name db of
        None \<Rightarrow> Inl (RoleNotFound name)
      | Some role \<Rightarrow>
          if r_BuiltIn role then Inl (RoleIsBuiltIn name)
          else Inr (db\<lparr>roles := map (\<lambda>(q, del).
            if r_Name q = name then (q\<lparr>r_UpdatedAt := now\<rparr>, Some marker) else (q, del)) (roles db)\<rparr>))"

text \<open>The insert has no conflict clause: an id that is present, live or not, is an error.\<close>

definition InsertRoleBinding :: "string \<Rightarrow> RoleBindingRecord \<Rightarrow> auth_db \<Rightarrow> auth_db option" where
  "InsertRoleBinding now b db =
     (if b_ID b \<in> set (map (b_ID \<circ> fst) (role_bindings db)) then None
      else Some (db\<lparr>role_bindings := role_bindings db @ [(b\<lparr>b_UpdatedAt := now\<rparr>, None)]\<rparr>))"

definition DeleteRoleBinding :: "string \<Rightarrow> string \<Rightarrow> string \<Rightarrow> auth_db \<Rightarrow> auth_db" where
  "DeleteRoleBinding now marker bid db =
     db\<lparr>role_bindings := map (\<lambda>(b, del).
       if b_ID b = bid then (b\<lparr>b_UpdatedAt := now\<rparr>, Some marker) else (b, del)) (role_bindings db)\<rparr>"

definition ListRoleBindings :: "auth_db \<Rightarrow> RoleBindingRecord list" where
  "ListRoleBindings db = live (role_bindings db)"

definition ListBindingsForPrincipal :: "string \<Rightarrow> auth_db \<Rightarrow> RoleBindingRecord list" where
  "ListBindingsForPrincipal who db = filter (\<lambda>b. b_Principal b = who) (live (role_bindings db))"

section \<open>The engine\<close>

record engineSnapshot =
  roleVerbs :: "string \<rightharpoonup> string list"
  bindings :: "RoleBindingRecord list"

record Engine =
  snap :: "engineSnapshot option"
  lastReload :: int

definition NewEngine :: Engine where
  "NewEngine = \<lparr>snap = Some \<lparr>roleVerbs = Map.empty, bindings = []\<rparr>, lastReload = 0\<rparr>"

definition role_map :: "RoleRecord list \<Rightarrow> string \<rightharpoonup> string list" where
  "role_map rs = fold (\<lambda>r rv. rv(r_Name r \<mapsto> r_Verbs r)) rs Map.empty"

text \<open>\<open>Reload\<close> on what its two reads return; \<open>now\<close> is the clock when it stores.\<close>

definition Reload ::
  "(string + RoleRecord list) \<Rightarrow> (string + RoleBindingRecord list) \<Rightarrow> int \<Rightarrow> Engine \<Rightarrow> string option \<times> Engine" where
  "Reload rs bs now e =
     (case rs of
        Inl err \<Rightarrow> (Some err, e)
      | Inr rs \<Rightarrow>
          (case bs of
             Inl err \<Rightarrow> (Some err, e)
           | Inr bs \<Rightarrow> (None, e\<lparr>snap := Some \<lparr>roleVerbs = role_map rs, bindings = bs\<rparr>, lastReload := now\<rparr>)))"

definition removeWhere :: "(RoleBindingRecord \<Rightarrow> bool) \<Rightarrow> Engine option \<Rightarrow> Engine option" where
  "removeWhere keep eng =
     (case eng of
        None \<Rightarrow> None
      | Some e \<Rightarrow>
          (case snap e of
             None \<Rightarrow> Some e
           | Some cur \<Rightarrow>
               let kept = filter keep (bindings cur); changed = list_ex (\<lambda>b. \<not> keep b) (bindings cur) in
               if \<not> changed then Some e
               else Some (e\<lparr>snap := Some \<lparr>roleVerbs = roleVerbs cur, bindings = kept\<rparr>\<rparr>)))"

definition RemoveBinding :: "string \<Rightarrow> Engine option \<Rightarrow> Engine option" where
  "RemoveBinding bid = removeWhere (\<lambda>b. b_ID b \<noteq> bid)"

definition RemovePrincipal :: "string \<Rightarrow> Engine option \<Rightarrow> Engine option" where
  "RemovePrincipal who = removeWhere (\<lambda>b. b_Principal b \<noteq> who)"

definition LastReloadUnix :: "Engine option \<Rightarrow> int" where
  "LastReloadUnix eng = (case eng of None \<Rightarrow> 0 | Some e \<Rightarrow> lastReload e)"

fun allowed_loop ::
  "(string \<rightharpoonup> string list) \<Rightarrow> RoleBindingRecord list \<Rightarrow> string list \<Rightarrow> string \<Rightarrow> string \<Rightarrow> bool" where
  "allowed_loop rv [] ids verb path = False"
| "allowed_loop rv (b # bs) ids verb path =
     (if b_Principal b \<notin> set ids then allowed_loop rv bs ids verb path
      else
        let bp = canonicalPath (b_Path b) in
        if (if b_Propagate b then \<not> pathPrefixOf bp path else bp \<noteq> path) then allowed_loop rv bs ids verb path
        else
          let grants = (case rv (b_Role b) of None \<Rightarrow> [] | Some gs \<Rightarrow> gs) in
          if length grants = 0 then allowed_loop rv bs ids verb path
          else if verbMatches grants verb then True
          else allowed_loop rv bs ids verb path)"

definition Allowed :: "Engine option \<Rightarrow> string list \<Rightarrow> string \<Rightarrow> string \<Rightarrow> bool" where
  "Allowed eng ids verb path =
     (case eng of
        None \<Rightarrow> False
      | Some e \<Rightarrow>
          (case snap e of
             None \<Rightarrow> False
           | Some s \<Rightarrow> allowed_loop (roleVerbs s) (bindings s) ids verb (canonicalPath path)))"

definition HasAnyBinding :: "Engine option \<Rightarrow> string list \<Rightarrow> bool" where
  "HasAnyBinding eng ids =
     (case eng of
        None \<Rightarrow> False
      | Some e \<Rightarrow>
          (case snap e of None \<Rightarrow> False | Some s \<Rightarrow> list_ex (\<lambda>b. b_Principal b \<in> set ids) (bindings s)))"

section \<open>The seeded roles\<close>

text \<open>The descriptions are operator texts and are left empty.\<close>

definition builtin :: "string \<Rightarrow> string list \<Rightarrow> RoleRecord" where
  "builtin name verbs = \<lparr>r_Name = name, r_Verbs = verbs, r_Description = '''', r_BuiltIn = True, r_UpdatedAt = ''''\<rparr>"

definition BuiltinRoles :: "RoleRecord list" where
  "BuiltinRoles =
    [builtin ''Admin'' [''*''],
     builtin ''Operator''
       [''vm.*'', ''ct.*'', ''network.read'', ''network.create'', ''network.delete'', ''lb.*'',
        ''image.read'', ''image.pull'', ''image.import'', ''image.push'', ''image.build'', ''backup.*'',
        ''snapshot.*'', ''sg.read'', ''audit.read'', ''host.read'', ''storage.pool.read'',
        ''storage.pool.write'', ''storage.content.read'', ''storage.content.write'',
        ''resourcemap.read'', ''resourcemap.write'', ''cluster.lww.acknowledge''],
     builtin ''VMOperator'' [''vm.start'', ''vm.stop'', ''vm.restart'', ''vm.console'', ''vm.read'', ''vm.exec''],
     builtin ''Auditor'' [''*.read'', ''audit.export''],
     builtin ''Viewer'' [''*.read''],
     builtin ''BackupOperator'' [''backup.*'', ''snapshot.*'', ''vm.read''],
     builtin ''NetworkAdmin'' [''network.*'', ''lb.*'', ''sg.*''],
     builtin ''NoAccess'' []]"

text \<open>One write per role, each with its own timestamp; the first that fails stops the seeding.\<close>

fun seed_roles :: "(nat \<Rightarrow> string option) \<Rightarrow> (nat \<Rightarrow> string) \<Rightarrow> nat \<Rightarrow> RoleRecord list \<Rightarrow> auth_db \<Rightarrow> string option \<times> auth_db" where
  "seed_roles fails now n [] db = (None, db)"
| "seed_roles fails now n (r # rs) db =
     (case fails n of
        Some err \<Rightarrow> (Some err, db)
      | None \<Rightarrow> seed_roles fails now (Suc n) rs (InsertRole (now n) r db))"

definition SeedBuiltinRoles :: "(nat \<Rightarrow> string option) \<Rightarrow> (nat \<Rightarrow> string) \<Rightarrow> auth_db \<Rightarrow> string option \<times> auth_db" where
  "SeedBuiltinRoles fails now = seed_roles fails now 0 BuiltinRoles"

section \<open>The policy the engine implements\<close>

text \<open>
  Paths and verbs as lists of components. A grant names a principal, the components of its
  path, whether it extends to descendants, and its verb patterns.
\<close>

definition parts :: "string \<Rightarrow> string list" where
  "parts p = (let p = canonicalPath p in if p = ''/'' then [] else split_on (CHR ''/'') (tl p))"

definition permits :: "string list \<Rightarrow> string list \<Rightarrow> bool" where
  "permits g v \<longleftrightarrow>
     g = [''*''] \<or> g = v \<or>
     (g \<noteq> [] \<and> butlast g \<noteq> [] \<and> last g = ''*'' \<and> \<not> prefix ''*'' (hd g) \<and> strict_prefix (butlast g) v) \<or>
     (g \<noteq> [] \<and> tl g \<noteq> [] \<and> hd g = ''*'' \<and> last g \<noteq> ''*'' \<and> strict_suffix (tl g) v)"

type_synonym policy = "(string \<times> string list \<times> bool \<times> string list set) set"

definition policy_of :: "engineSnapshot \<Rightarrow> policy" where
  "policy_of s = (\<lambda>b. (b_Principal b, parts (b_Path b), b_Propagate b,
     split_on (CHR ''.'') ` set (case roleVerbs s (b_Role b) of None \<Rightarrow> [] | Some gs \<Rightarrow> gs))) ` set (bindings s)"

definition policy_allows :: "policy \<Rightarrow> string set \<Rightarrow> string list \<Rightarrow> string list \<Rightarrow> bool" where
  "policy_allows P ids verb path \<longleftrightarrow>
     (\<exists>(who, at, below, grants) \<in> P. who \<in> ids \<and>
        (if below then prefix at path else at = path) \<and> (\<exists>g \<in> grants. permits g verb))"

section \<open>Canonical paths\<close>

lemma drop_slashes_shape:
  "s \<noteq> [] \<Longrightarrow> drop_slashes s \<noteq> [] \<and> (hd (drop_slashes s) = CHR ''/'' \<longrightarrow> drop_slashes s = ''/'')"
  by (induction s rule: drop_slashes.induct) auto

lemma canonicalPath_shape:
  "\<exists>t. canonicalPath p = CHR ''/'' # t \<and> (t = [] \<or> last t \<noteq> CHR ''/'')"
proof (cases "p = ''''")
  case False
  define q where "q = rev (drop_slashes (rev p))"
  have q: "q \<noteq> []" "last q = CHR ''/'' \<longrightarrow> q = ''/''"
    using drop_slashes_shape [of "rev p"] False unfolding q_def
    by (auto simp: last_rev)
  have "canonicalPath p = (if hd q \<noteq> CHR ''/'' then CHR ''/'' # q else q)"
    using False unfolding canonicalPath_def q_def [symmetric] Let_def by (simp only: if_False)
  moreover obtain a t where at: "q = a # t" using q(1) by (cases q) auto
  ultimately have c: "canonicalPath p = (if a \<noteq> CHR ''/'' then CHR ''/'' # a # t else a # t)" by simp
  have l: "t \<noteq> [] \<Longrightarrow> last t \<noteq> CHR ''/''" using q(2) at by auto
  show ?thesis
  proof (cases "a = CHR ''/''")
    case True
    with c l show ?thesis by auto
  next
    case False
    with c l have "canonicalPath p = CHR ''/'' # a # t" "last (a # t) \<noteq> CHR ''/''" by auto
    then show ?thesis by blast
  qed
qed (simp add: canonicalPath_def)

lemma drop_slashes_id: "hd s \<noteq> CHR ''/'' \<or> length s \<le> 1 \<Longrightarrow> drop_slashes s = s"
  by (cases s rule: drop_slashes.cases) auto

lemma canonicalPath_fixed: "t = [] \<or> last t \<noteq> CHR ''/'' \<Longrightarrow> canonicalPath (CHR ''/'' # t) = CHR ''/'' # t"
  using drop_slashes_id [of "rev t @ ''/''"]
  by (cases t rule: rev_cases) (auto simp: canonicalPath_def Let_def)

lemma canonicalPath_idem [simp]: "canonicalPath (canonicalPath p) = canonicalPath p"
  using canonicalPath_shape [of p] canonicalPath_fixed by auto

lemma parts_canonical [simp]: "parts (canonicalPath p) = parts p"
  by (simp add: parts_def)

lemma canonicalPath_parts: "canonicalPath p = canonicalPath q \<longleftrightarrow> parts p = parts q"
  using canonicalPath_shape [of p] canonicalPath_shape [of q] by (auto simp: parts_def Let_def)

lemma prefix_step: "prefix t u \<and> (length u = length t \<or> u ! length t = c) \<longleftrightarrow> t = u \<or> prefix (t @ [c]) u"
proof (cases "prefix t u")
  case True
  then obtain zs where "u = t @ zs" by (auto simp: prefix_def)
  then show ?thesis by (cases zs) auto
next
  case False
  then show ?thesis using append_prefixD by auto
qed

lemma pathPrefixOf_parts: "pathPrefixOf p q \<longleftrightarrow> prefix (parts p) (parts q)"
proof -
  obtain t u where c: "canonicalPath p = CHR ''/'' # t" "canonicalPath q = CHR ''/'' # u"
    using canonicalPath_shape by metis
  have "(prefix t u \<and> (length u = length t \<or> u ! length t = CHR ''/'')) \<longleftrightarrow> t = u \<or> prefix (t @ ''/'') u"
    by (rule prefix_step)
  then have "(prefix t u \<and> (length u = length t \<or> u ! length t = CHR ''/'')) \<longleftrightarrow>
      prefix (split_on (CHR ''/'') t) (split_on (CHR ''/'') u)"
    by (auto simp: prefix_sep strict_prefix_def)
  then show ?thesis
    using c by (auto simp: pathPrefixOf_def parts_def Let_def)
qed

text \<open>
  What a path test promises its clients: it is the prefix order of the components. A grant or a
  token scope that covers a path covers everything below it, and two that cover one path are
  nested.
\<close>

locale path_cover =
  fixes covers :: "string \<Rightarrow> string \<Rightarrow> bool" and comps :: "string \<Rightarrow> string list"
  assumes covers_iff: "covers p q \<longleftrightarrow> prefix (comps p) (comps q)"
begin

lemma covers_refl: "covers p p"
  by (simp add: covers_iff)

lemma covers_trans: "covers p q \<Longrightarrow> covers q r \<Longrightarrow> covers p r"
  by (auto simp: covers_iff)

lemma covers_nested: "covers p r \<Longrightarrow> covers q r \<Longrightarrow> covers p q \<or> covers q p"
  using prefix_same_cases by (auto simp: covers_iff)

lemma any_covers_below: "list_ex (\<lambda>s. covers s p) scopes \<Longrightarrow> covers p q \<Longrightarrow> list_ex (\<lambda>s. covers s q) scopes"
  using covers_trans by (auto simp: list_ex_iff)

lemma covers_root: "comps root = [] \<Longrightarrow> covers s root \<Longrightarrow> covers s q"
  by (simp add: covers_iff)

end

interpretation engine_paths: path_cover pathPrefixOf parts
  by unfold_locales (rule pathPrefixOf_parts)

section \<open>Verb patterns\<close>

lemma split_no_sep: "c \<notin> set s \<Longrightarrow> split_on c s = [s]"
  by (induction s) auto

lemma strict_suffix_single: "strict_suffix [x] ys \<longleftrightarrow> ys \<noteq> [] \<and> butlast ys \<noteq> [] \<and> last ys = x"
  by (cases ys rule: rev_cases) (auto simp: strict_suffix_def suffix_def)

lemma strict_prefix_single: "strict_prefix [x] ys \<longleftrightarrow> ys \<noteq> [] \<and> tl ys \<noteq> [] \<and> hd ys = x"
  by (cases ys) (auto simp: strict_prefix_def)

lemma prefix_hd_split: "x \<noteq> c \<Longrightarrow> prefix [x] s \<longleftrightarrow> prefix [x] (hd (split_on c s))"
  by (cases s) (auto split: list.splits)

lemma verbMatches_permits:
  "verbMatches grants verb \<longleftrightarrow> (\<exists>g \<in> set grants. permits (split_on (CHR ''.'') g) (split_on (CHR ''.'') verb))"
proof (induction grants)
  case (Cons g grants)
  let ?s = "split_on (CHR ''.'')"
  have star: "?s ''*'' = [''*'']" by (simp add: split_no_sep)
  have sfx: "suffix ''.*'' g \<longleftrightarrow> ?s g \<noteq> [] \<and> butlast (?s g) \<noteq> [] \<and> last (?s g) = ''*''"
    using suffix_sep [of "CHR ''.''" "''*''" g] unfolding star strict_suffix_single .
  have pfx: "prefix ''*.'' g \<longleftrightarrow> ?s g \<noteq> [] \<and> tl (?s g) \<noteq> [] \<and> hd (?s g) = ''*''"
    using prefix_sep [of "''*''" "CHR ''.''" g] unfolding star strict_prefix_single by simp
  have lead: "prefix ''*'' g \<longleftrightarrow> prefix ''*'' (hd (?s g))" by (rule prefix_hd_split) simp
  have one: "g = ''*'' \<longleftrightarrow> ?s g = [''*'']" using star by (metis join_split)
  have ns: "prefix (take (length g - 2) g @ ''.'') verb \<longleftrightarrow> strict_prefix (butlast (?s g)) (?s verb)"
    if "suffix ''.*'' g"
  proof -
    from \<open>suffix ''.*'' g\<close> obtain h where "g = h @ ''.*''" by (auto simp: suffix_def)
    then show ?thesis using split_append [of "CHR ''.''" h "''*''"] by (simp add: star prefix_sep butlast_append)
  qed
  have vb: "suffix (drop 1 g) verb \<longleftrightarrow> strict_suffix (tl (?s g)) (?s verb)" if "prefix ''*.'' g"
  proof -
    from \<open>prefix ''*.'' g\<close> obtain h where "g = ''*.'' @ h" by (auto simp: prefix_def)
    then show ?thesis using split_append [of "CHR ''.''" "''*''" h] by (simp add: star suffix_sep)
  qed
  have bt: "butlast (?s g) = [] \<longleftrightarrow> tl (?s g) = []" by (cases "?s g") auto
  have "verbMatches (g # grants) verb \<longleftrightarrow>
      g = ''*'' \<or> g = verb \<or>
      (suffix ''.*'' g \<and> \<not> prefix ''*'' g \<and> strict_prefix (butlast (?s g)) (?s verb)) \<or>
      (prefix ''*.'' g \<and> \<not> suffix ''.*'' g \<and> strict_suffix (tl (?s g)) (?s verb)) \<or> verbMatches grants verb"
    using ns vb by auto
  also have "\<dots> \<longleftrightarrow> permits (?s g) (?s verb) \<or> verbMatches grants verb"
    unfolding permits_def one sfx pfx lead by (auto simp: bt)
  finally show ?case using Cons by simp
qed simp

section \<open>The decision of the engine\<close>

definition grants_at :: "(string \<rightharpoonup> string list) \<Rightarrow> string list \<Rightarrow> string \<Rightarrow> string \<Rightarrow> RoleBindingRecord \<Rightarrow> bool" where
  "grants_at rv ids verb path b \<longleftrightarrow>
     b_Principal b \<in> set ids \<and>
     (if b_Propagate b then prefix (parts (b_Path b)) (parts path) else parts (b_Path b) = parts path) \<and>
     (\<exists>g \<in> set (case rv (b_Role b) of None \<Rightarrow> [] | Some gs \<Rightarrow> gs). permits (split_on (CHR ''.'') g) (split_on (CHR ''.'') verb))"

lemma allowed_loop_Cons:
  "allowed_loop rv (b # bs) ids verb (canonicalPath path) \<longleftrightarrow>
     grants_at rv ids verb path b \<or> allowed_loop rv bs ids verb (canonicalPath path)"
proof -
  define here where "here \<longleftrightarrow> (if b_Propagate b then prefix (parts (b_Path b)) (parts path) else parts (b_Path b) = parts path)"
  define gs where "gs = (case rv (b_Role b) of None \<Rightarrow> [] | Some gs \<Rightarrow> gs)"
  have h: "(if b_Propagate b then \<not> pathPrefixOf (canonicalPath (b_Path b)) (canonicalPath path)
      else canonicalPath (b_Path b) \<noteq> canonicalPath path) \<longleftrightarrow> \<not> here"
    by (simp add: here_def pathPrefixOf_parts canonicalPath_parts)
  have "grants_at rv ids verb path b \<longleftrightarrow> b_Principal b \<in> set ids \<and> here \<and> verbMatches gs verb"
    by (simp only: grants_at_def verbMatches_permits here_def gs_def)
  moreover have "gs = [] \<Longrightarrow> \<not> verbMatches gs verb" by simp
  ultimately show ?thesis
    unfolding allowed_loop.simps Let_def h gs_def [symmetric] by auto
qed

lemma allowed_loop_iff:
  "allowed_loop rv bs ids verb (canonicalPath path) \<longleftrightarrow> (\<exists>b \<in> set bs. grants_at rv ids verb path b)"
proof (induction bs)
  case (Cons b bs)
  then show ?case by (simp only: allowed_loop_Cons list.set bex_simps)
qed simp

lemma Allowed_iff:
  "Allowed (Some e) ids verb path \<longleftrightarrow>
     (\<exists>s. snap e = Some s \<and> (\<exists>b \<in> set (bindings s). grants_at (roleVerbs s) ids verb path b))"
  by (auto simp: Allowed_def allowed_loop_iff split: option.splits)

definition policy :: "Engine option \<Rightarrow> policy" where
  "policy eng =
     (case eng of None \<Rightarrow> {} | Some e \<Rightarrow> (case snap e of None \<Rightarrow> {} | Some s \<Rightarrow> policy_of s))"

text \<open>What the tables grant, read as relations: the live bindings joined with the live roles.\<close>

definition table_policy :: "auth_db \<Rightarrow> policy" where
  "table_policy db =
     {(b_Principal b, parts (b_Path b), b_Propagate b,
       {split_on (CHR ''.'') g | g r. (r, None) \<in> set (roles db) \<and> r_Name r = b_Role b \<and> g \<in> set (r_Verbs r)})
      | b. (b, None) \<in> set (role_bindings db)}"

lemma policy_allows_policy_of:
  "policy_allows (policy_of s) (set ids) (split_on (CHR ''.'') verb) (parts path) \<longleftrightarrow>
     (\<exists>b \<in> set (bindings s). grants_at (roleVerbs s) ids verb path b)"
  by (simp add: policy_allows_def policy_of_def grants_at_def)

lemma Allowed_policy:
  "Allowed eng ids verb path \<longleftrightarrow> policy_allows (policy eng) (set ids) (split_on (CHR ''.'') verb) (parts path)"
proof (cases "\<exists>e s. eng = Some e \<and> snap e = Some s")
  case True
  then show ?thesis by (auto simp: Allowed_iff policy_def policy_allows_policy_of)
next
  case False
  then show ?thesis by (auto simp: Allowed_def policy_def policy_allows_def split: option.splits)
qed

lemma policy_removeWhere:
  "(\<And>b. keep b \<longleftrightarrow> k (b_Principal b)) \<Longrightarrow>
   policy (removeWhere keep eng) = {g \<in> policy eng. k (fst g)}"
  by (auto simp: policy_def removeWhere_def policy_of_def Let_def list_ex_iff image_iff split: option.splits)

lemma set_live: "set (live rows) = {r. (r, None) \<in> set rows}"
  by (force simp: live_def)

lemma role_map_lookup:
  "distinct (map r_Name rs) \<Longrightarrow>
   role_map rs name = (case filter (\<lambda>r. r_Name r = name) rs of [] \<Rightarrow> None | r # _ \<Rightarrow> Some (r_Verbs r))"
proof -
  have "fold (\<lambda>r rv. rv(r_Name r \<mapsto> r_Verbs r)) rs m name =
      (case filter (\<lambda>r. r_Name r = name) rs of [] \<Rightarrow> m name | r # _ \<Rightarrow> Some (r_Verbs r))"
    if "distinct (map r_Name rs)" for m
    using that
  proof (induction rs arbitrary: m)
    case (Cons r rs)
    have "r_Name r = name \<Longrightarrow> filter (\<lambda>r. r_Name r = name) rs = []"
      using Cons.prems by (simp add: filter_empty_conv) (metis imageI)
    with Cons show ?case by (auto split: list.splits)
  qed simp
  then show "distinct (map r_Name rs) \<Longrightarrow> ?thesis" by (simp add: role_map_def)
qed

lemma distinct_live: "distinct (map (f \<circ> fst) rows) \<Longrightarrow> distinct (map f (live rows))"
  by (induction rows) (auto simp: live_def)

lemma distinct_ListRoles:
  assumes "distinct (map (r_Name \<circ> fst) (roles db))"
  shows "distinct (map r_Name (ListRoles db))"
  using distinct_live [OF assms] by (simp add: ListRoles_def distinct_map)

lemma role_map_verbs:
  assumes "distinct (map (r_Name \<circ> fst) (roles db))"
  shows "set (case role_map (ListRoles db) name of None \<Rightarrow> [] | Some gs \<Rightarrow> gs) =
    {g. \<exists>r. (r, None) \<in> set (roles db) \<and> r_Name r = name \<and> g \<in> set (r_Verbs r)}"
proof -
  let ?rs = "ListRoles db"
  have mem: "set ?rs = {r. (r, None) \<in> set (roles db)}" by (simp add: ListRoles_def set_live)
  have d: "distinct (map r_Name ?rs)" by (rule distinct_ListRoles [OF assms])
  show ?thesis
  proof (cases "filter (\<lambda>r. r_Name r = name) ?rs")
    case Nil
    then have "\<not> (\<exists>r. (r, None) \<in> set (roles db) \<and> r_Name r = name)"
      using mem by (auto simp: filter_empty_conv)
    with Nil d show ?thesis by (auto simp: role_map_lookup)
  next
    case (Cons r rest)
    then have r: "r \<in> set ?rs" "r_Name r = name"
      by (auto simp: filter_eq_Cons_iff)
    have "inj_on r_Name (set ?rs)" using d by (simp add: distinct_map)
    then have u: "r' = r" if "(r', None) \<in> set (roles db)" "r_Name r' = name" for r'
      using r that mem by (metis (mono_tags, lifting) inj_onD mem_Collect_eq)
    have m: "role_map ?rs name = Some (r_Verbs r)" using Cons d by (simp add: role_map_lookup)
    have "(r, None) \<in> set (roles db)" using r(1) unfolding mem by simp
    then have "g \<in> set (case role_map ?rs name of None \<Rightarrow> [] | Some gs \<Rightarrow> gs) \<longleftrightarrow>
        (\<exists>r. (r, None) \<in> set (roles db) \<and> r_Name r = name \<and> g \<in> set (r_Verbs r))" for g
      unfolding m option.case using r(2) u by metis
    then show ?thesis by blast
  qed
qed

lemma policy_Reload:
  assumes "distinct (map (r_Name \<circ> fst) (roles db))"
  shows "policy (Some (snd (Reload (Inr (ListRoles db)) (Inr (ListRoleBindings db)) now e))) = table_policy db"
proof -
  have "split_on (CHR ''.'') ` set (case role_map (ListRoles db) name of None \<Rightarrow> [] | Some gs \<Rightarrow> gs) =
      {split_on (CHR ''.'') g | g r. (r, None) \<in> set (roles db) \<and> r_Name r = name \<and> g \<in> set (r_Verbs r)}" for name
    unfolding role_map_verbs [OF assms] by blast
  then show ?thesis
    by (simp add: policy_def policy_of_def Reload_def ListRoleBindings_def table_policy_def set_live image_def)
      blast
qed

section \<open>Properties\<close>

text \<open>C10: the engine implements a policy over sets of grants. After a reload it answers, for any
  principals, verb and path, exactly what the live rows of the two tables grant when paths and
  verbs are read as lists of components; a failed reload keeps the answers it gave; and removing a
  principal takes away that principal's grants and no other.\<close>

theorem Allowed_refines_policy:
  assumes "distinct (map (r_Name \<circ> fst) (roles db))"
  shows "(Allowed (Some (snd (Reload (Inr (ListRoles db)) (Inr (ListRoleBindings db)) now e))) ids verb path \<longleftrightarrow>
      policy_allows (table_policy db) (set ids) (split_on (CHR ''.'') verb) (parts path)) \<and>
    (Allowed (Some (snd (Reload (Inl err) bs now e))) ids verb path = Allowed (Some e) ids verb path) \<and>
    (Allowed (Some (snd (Reload rs (Inl err) now e))) ids verb path = Allowed (Some e) ids verb path) \<and>
    (Allowed (RemovePrincipal who eng) ids verb path \<longleftrightarrow>
      policy_allows {g \<in> policy eng. fst g \<noteq> who} (set ids) (split_on (CHR ''.'') verb) (parts path))"
proof (intro conjI)
  show "Allowed (Some (snd (Reload (Inr (ListRoles db)) (Inr (ListRoleBindings db)) now e))) ids verb path \<longleftrightarrow>
      policy_allows (table_policy db) (set ids) (split_on (CHR ''.'') verb) (parts path)"
    by (simp add: Allowed_policy policy_Reload [OF assms])
  show "Allowed (Some (snd (Reload (Inl err) bs now e))) ids verb path = Allowed (Some e) ids verb path"
    "Allowed (Some (snd (Reload rs (Inl err) now e))) ids verb path = Allowed (Some e) ids verb path"
    by (auto simp: Reload_def split: sum.splits)
  show "Allowed (RemovePrincipal who eng) ids verb path \<longleftrightarrow>
      policy_allows {g \<in> policy eng. fst g \<noteq> who} (set ids) (split_on (CHR ''.'') verb) (parts path)"
    using policy_removeWhere [of "\<lambda>b. b_Principal b \<noteq> who" "\<lambda>p. p \<noteq> who" eng]
    by (simp add: Allowed_policy RemovePrincipal_def)
qed

definition demo_binding :: "string \<Rightarrow> string \<Rightarrow> string \<Rightarrow> string \<Rightarrow> bool \<Rightarrow> RoleBindingRecord" where
  "demo_binding bid path role who prop =
     \<lparr>b_ID = bid, b_Path = path, b_Role = role, b_Principal = who, b_Propagate = prop, b_UpdatedAt = ''''\<rparr>"

definition demo_db :: auth_db where
  "demo_db = \<lparr>roles = [(builtin ''Viewer'' [''*.read''], None)],
     role_bindings = [(demo_binding ''1'' ''/projects/acme/'' ''Viewer'' ''user:alice@local'' True, None)]\<rparr>"

theorem Allowed_refines_policy_witness:
  "policy_allows (table_policy demo_db) {''user:alice@local''} [''vm'', ''read''] [''projects'', ''acme'', ''vms'', ''web-1''] \<and>
   \<not> policy_allows (table_policy demo_db) {''user:alice@local''} [''vm'', ''read''] [''projects'', ''acmelabs'']"
proof -
  let ?e = "Some (snd (Reload (Inr (ListRoles demo_db)) (Inr (ListRoleBindings demo_db)) 0 NewEngine))"
  have d: "distinct (map (r_Name \<circ> fst) (roles demo_db))" by code_simp
  have a: "Allowed ?e [''user:alice@local''] ''vm.read'' ''projects/acme/vms/web-1''"
    "\<not> Allowed ?e [''user:alice@local''] ''vm.read'' ''/projects/acmelabs''" by code_simp+
  have s: "split_on (CHR ''.'') ''vm.read'' = [''vm'', ''read'']"
    "parts ''projects/acme/vms/web-1'' = [''projects'', ''acme'', ''vms'', ''web-1'']"
    "parts ''/projects/acmelabs'' = [''projects'', ''acmelabs'']" by code_simp+
  show ?thesis
    using Allowed_refines_policy [OF d, of 0 NewEngine "[''user:alice@local'']" "''vm.read''" "''projects/acme/vms/web-1''"]
      Allowed_refines_policy [OF d, of 0 NewEngine "[''user:alice@local'']" "''vm.read''" "''/projects/acmelabs''"] a
    unfolding s by simp
qed

lemma InsertRole_fields [simp]: "role_bindings (InsertRole now r db) = role_bindings db"
  by (simp add: InsertRole_def Let_def)

lemma InsertRole_rows:
  assumes "(q, del) \<in> set (roles (InsertRole now r db))"
  shows "r_Name q = r_Name r \<and> r_Verbs q = r_Verbs r \<or> r_Name q \<noteq> r_Name r \<and> (q, del) \<in> set (roles db)"
  using assms by (auto simp: InsertRole_def Let_def split: if_splits) (metis (no_types, lifting) fst_conv image_eqI)

lemma InsertRole_names:
  "map (r_Name \<circ> fst) (roles (InsertRole now r db)) =
     (if r_Name r \<in> set (map (r_Name \<circ> fst) (roles db)) then map (r_Name \<circ> fst) (roles db)
      else map (r_Name \<circ> fst) (roles db) @ [r_Name r])"
  by (auto simp: InsertRole_def Let_def)

lemma InsertRole_distinct:
  "distinct (map (r_Name \<circ> fst) (roles db)) \<Longrightarrow> distinct (map (r_Name \<circ> fst) (roles (InsertRole now r db)))"
  unfolding InsertRole_names by (simp del: map_map)

lemma seed_roles_bindings:
  "seed_roles fails now n rs db = (res, db') \<Longrightarrow> role_bindings db' = role_bindings db"
  by (induction rs arbitrary: n db) (auto split: option.splits)

lemma seed_roles_distinct:
  "seed_roles fails now n rs db = (res, db') \<Longrightarrow> distinct (map (r_Name \<circ> fst) (roles db)) \<Longrightarrow>
   distinct (map (r_Name \<circ> fst) (roles db'))"
proof (induction rs arbitrary: n db)
  case (Cons r rs)
  show ?case
  proof (cases "fails n")
    case None
    with Cons.prems(1) have "seed_roles fails now (Suc n) rs (InsertRole (now n) r db) = (res, db')" by simp
    from Cons.IH [OF this InsertRole_distinct [OF Cons.prems(2)]] show ?thesis .
  next
    case (Some err)
    with Cons.prems show ?thesis by simp
  qed
qed simp

lemma seed_roles_other:
  "seed_roles fails now n rs db = (res, db') \<Longrightarrow> (q, del) \<in> set (roles db') \<Longrightarrow>
   r_Name q \<notin> r_Name ` set rs \<Longrightarrow> (q, del) \<in> set (roles db)"
  by (induction rs arbitrary: n db) (auto split: option.splits dest: InsertRole_rows)

lemma seed_roles_verbs:
  "seed_roles fails now n rs db = (None, db') \<Longrightarrow> distinct (map r_Name rs) \<Longrightarrow> r \<in> set rs \<Longrightarrow>
   (q, del) \<in> set (roles db') \<Longrightarrow> r_Name q = r_Name r \<Longrightarrow> r_Verbs q = r_Verbs r"
proof (induction rs arbitrary: n db)
  case (Cons x rs)
  let ?db = "InsertRole (now n) x db"
  have run: "seed_roles fails now (Suc n) rs ?db = (None, db')"
    using Cons.prems(1) by (simp split: option.splits)
  show ?case
  proof (cases "r = x")
    case True
    then have "r_Name q \<notin> r_Name ` set rs" using Cons.prems(2,5) by simp
    from seed_roles_other [OF run Cons.prems(4) this] InsertRole_rows [of q del "now n" x db] True Cons.prems(5)
    show ?thesis by auto
  next
    case False
    with Cons run show ?thesis by auto
  qed
qed simp

lemma SeedBuiltinRoles_verbs:
  assumes "SeedBuiltinRoles fails now db = (None, db')" "r \<in> set BuiltinRoles"
    "(q, del) \<in> set (roles db')" "r_Name q = r_Name r"
  shows "r_Verbs q = r_Verbs r"
proof -
  have "distinct (map r_Name BuiltinRoles)" by code_simp
  then show ?thesis using seed_roles_verbs assms unfolding SeedBuiltinRoles_def by metis
qed

text \<open>The read-only roles read. Whatever the role table held before, once the built-in roles
  are seeded and the engine reloaded, a caller all of whose live bindings carry the roles Viewer or
  NoAccess is allowed only verbs that end in \<open>.read\<close>, and only through a Viewer binding.\<close>

theorem seeded_readers_only_read:
  assumes "distinct (map (r_Name \<circ> fst) (roles db))"
    and "SeedBuiltinRoles fails now db = (None, db')"
    and "\<forall>b. (b, None) \<in> set (role_bindings db) \<longrightarrow> b_Principal b \<in> set ids \<longrightarrow> b_Role b \<in> {''Viewer'', ''NoAccess''}"
    and "Allowed (Some (snd (Reload (Inr (ListRoles db')) (Inr (ListRoleBindings db')) t e))) ids verb path"
  shows "suffix ''.read'' verb \<and>
    (\<exists>b. (b, None) \<in> set (role_bindings db) \<and> b_Principal b \<in> set ids \<and> b_Role b = ''Viewer'' \<and> pathPrefixOf (b_Path b) path)"
proof -
  have d: "distinct (map (r_Name \<circ> fst) (roles db'))" and rb: "role_bindings db' = role_bindings db"
    using assms(1,2) seed_roles_distinct seed_roles_bindings unfolding SeedBuiltinRoles_def by metis+
  from assms(4) have "policy_allows (table_policy db') (set ids) (split_on (CHR ''.'') verb) (parts path)"
    unfolding Allowed_policy policy_Reload [OF d] .
  then obtain b g r where b: "(b, None) \<in> set (role_bindings db)" "b_Principal b \<in> set ids"
      "if b_Propagate b then prefix (parts (b_Path b)) (parts path) else parts (b_Path b) = parts path"
    and r: "(r, None) \<in> set (roles db')" "r_Name r = b_Role b" "g \<in> set (r_Verbs r)"
      "permits (split_on (CHR ''.'') g) (split_on (CHR ''.'') verb)"
    unfolding policy_allows_def table_policy_def rb by auto
  have role: "b_Role b \<in> {''Viewer'', ''NoAccess''}" using assms(3) b by blast
  have "builtin ''NoAccess'' [] \<in> set BuiltinRoles" "builtin ''Viewer'' [''*.read''] \<in> set BuiltinRoles"
    by (simp_all add: BuiltinRoles_def)
  then have v: "b_Role b = ''NoAccess'' \<Longrightarrow> r_Verbs r = []" "b_Role b = ''Viewer'' \<Longrightarrow> r_Verbs r = [''*.read'']"
    using SeedBuiltinRoles_verbs [OF assms(2) _ r(1)] r(2) by (fastforce simp: builtin_def)+
  then have viewer: "b_Role b = ''Viewer''" "g = ''*.read''" using role r(3) by auto
  have "verbMatches [''*.read''] verb" using r(4) viewer(2) by (simp only: verbMatches_permits) simp
  then have "suffix ''.read'' verb" by (auto split: if_splits simp: suffix_def)
  moreover have "pathPrefixOf (b_Path b) path" using b(3) by (simp add: pathPrefixOf_parts split: if_splits)
  ultimately show ?thesis using b viewer by blast
qed

theorem seeded_readers_only_read_witness:
  "\<exists>db'. SeedBuiltinRoles (\<lambda>_. None) (\<lambda>_. ''t'') demo_db = (None, db') \<and>
    Allowed (Some (snd (Reload (Inr (ListRoles db')) (Inr (ListRoleBindings db')) 0 NewEngine))) [''user:alice@local''] ''vm.read'' ''/projects/acme'' \<and>
    suffix ''.read'' ''vm.read''"
proof -
  let ?db = "snd (SeedBuiltinRoles (\<lambda>_. None) (\<lambda>_. ''t'') demo_db)"
  have d: "distinct (map (r_Name \<circ> fst) (roles demo_db))" by code_simp
  have "fst (SeedBuiltinRoles (\<lambda>_. None) (\<lambda>_. ''t'') demo_db) = None" by code_simp
  then have s: "SeedBuiltinRoles (\<lambda>_. None) (\<lambda>_. ''t'') demo_db = (None, ?db)" by (metis prod.collapse)
  have a: "Allowed (Some (snd (Reload (Inr (ListRoles ?db)) (Inr (ListRoleBindings ?db)) 0 NewEngine))) [''user:alice@local''] ''vm.read'' ''/projects/acme''"
    by code_simp
  have "\<forall>b. (b, None) \<in> set (role_bindings demo_db) \<longrightarrow> b_Principal b \<in> set [''user:alice@local''] \<longrightarrow> b_Role b \<in> {''Viewer'', ''NoAccess''}"
    by (simp add: demo_db_def demo_binding_def)
  from seeded_readers_only_read [OF d s this a] s a show ?thesis by blast
qed

end
