(* ===== verification/Authz.thy ===== *)
theory Authz
  imports Permissions
begin

text \<open>
  The authorization gates and the role-binding handlers of the API server:
  \<^verbatim>\<open>src/internal/grpcapi/auth.go\<close> from \<open>RequireRole\<close> to \<open>roleLevel\<close> and
  \<^verbatim>\<open>src/internal/grpcapi/role_bindings.go\<close>.

  A caller is what the interceptors put in the request's context. An error is a constructor with
  the values its message prints, so two equal errors have one text; \<open>status_code\<close> gives its gRPC
  code. A request reads one engine snapshot. Logging, audit and the operator texts are left out.
  The random id of a new binding, the clock and failing database accesses are arguments.
\<close>

section \<open>Callers and errors\<close>

record caller =
  c_username :: string
  c_role :: string
  c_realm :: string
  c_scopes :: "string list"

datatype code = Unauthenticated | PermissionDenied | NotFound | InvalidArgument | FailedPrecondition | Internal

datatype rpc_error =
    NoPrincipal
  | NotScopeAware "string list"
  | RoleRequired string string
  | ScopeNotCovering string
  | Lacks string string string
  | DeniedOn string
  | NotFoundHere string
  | PathNotRooted
  | RoleEmpty
  | PrincipalMalformed
  | IdEmpty
  | OnlyOwnBindings
  | NormalizeNotLatched
  | RealmNotLatched string
  | RealmUnresolvable string string
  | DbError string

fun status_code :: "rpc_error \<Rightarrow> code" where
  "status_code NoPrincipal = Unauthenticated"
| "status_code (NotScopeAware _) = PermissionDenied"
| "status_code (RoleRequired _ _) = PermissionDenied"
| "status_code (ScopeNotCovering _) = PermissionDenied"
| "status_code (Lacks _ _ _) = PermissionDenied"
| "status_code (DeniedOn _) = PermissionDenied"
| "status_code (NotFoundHere _) = NotFound"
| "status_code PathNotRooted = InvalidArgument"
| "status_code RoleEmpty = InvalidArgument"
| "status_code PrincipalMalformed = InvalidArgument"
| "status_code IdEmpty = InvalidArgument"
| "status_code OnlyOwnBindings = PermissionDenied"
| "status_code NormalizeNotLatched = FailedPrecondition"
| "status_code (RealmNotLatched _) = FailedPrecondition"
| "status_code (RealmUnresolvable _ _) = FailedPrecondition"
| "status_code (DbError _) = Internal"

definition callerRealm :: "caller \<Rightarrow> string" where
  "callerRealm c = (if c_realm c \<noteq> '''' then c_realm c else ''local'')"

section \<open>The gates\<close>

definition canonicalScopePath :: "string \<Rightarrow> string" where
  "canonicalScopePath p =
     (if p = '''' then ''/''
      else let p = rev (drop_slashes (rev p)) in
        if hd p \<noteq> CHR ''/'' then CHR ''/'' # p else p)"

definition pathHasPrefix :: "string \<Rightarrow> string \<Rightarrow> bool" where
  "pathHasPrefix pre path =
     (let pre = canonicalScopePath pre; path = canonicalScopePath path in
      if pre = ''/'' then True
      else if \<not> prefix pre path then False
      else if length path = length pre then True
      else path ! length pre = CHR ''/'')"

definition pathAllowedByScopes :: "string \<Rightarrow> string list \<Rightarrow> bool" where
  "pathAllowedByScopes path scopes = list_ex (\<lambda>s. pathHasPrefix s path) scopes"

definition scopesIncludeRoot :: "string list \<Rightarrow> bool" where
  "scopesIncludeRoot scopes = list_ex (\<lambda>s. canonicalScopePath s = ''/'') scopes"

definition principalsForCaller :: "string \<Rightarrow> string \<Rightarrow> string \<Rightarrow> string list" where
  "principalsForCaller user role realm =
     (let realm = (if realm = '''' then ''local'' else realm);
          out = [''user:'' @ user @ ''@'' @ realm] in
      if role \<noteq> '''' then out @ [''group:'' @ role @ ''@'' @ realm] else out)"

definition roleLevel :: "string \<Rightarrow> int" where
  "roleLevel role =
     (if role = ''admin'' then 3 else if role = ''operator'' then 2 else if role = ''viewer'' then 1 else 0)"

definition requireRoleLevel :: "caller \<Rightarrow> string \<Rightarrow> rpc_error option" where
  "requireRoleLevel c minRole =
     (if roleLevel (c_role c) < roleLevel minRole then Some (RoleRequired minRole (c_role c)) else None)"

definition RequireRole :: "caller \<Rightarrow> string \<Rightarrow> rpc_error option" where
  "RequireRole c minRole =
     (if length (c_scopes c) > 0 \<and> \<not> scopesIncludeRoot (c_scopes c) then Some (NotScopeAware (c_scopes c))
      else requireRoleLevel c minRole)"

definition RequirePerm :: "Engine option \<Rightarrow> caller \<Rightarrow> string \<Rightarrow> string \<Rightarrow> string \<Rightarrow> rpc_error option" where
  "RequirePerm eng c path verb fallbackRole =
     (if c_username c = '''' then Some NoPrincipal
      else if length (c_scopes c) > 0 \<and> \<not> pathAllowedByScopes path (c_scopes c) then Some (ScopeNotCovering path)
      else
        let ids = principalsForCaller (c_username c) (c_role c) (callerRealm c) in
        if eng \<noteq> None \<and> HasAnyBinding eng ids then
          (if Allowed eng ids verb path then None else Some (Lacks (c_username c) verb path))
        else requireRoleLevel c fallbackRole)"

definition denied :: "string \<Rightarrow> rpc_error option \<Rightarrow> rpc_error option" where
  "denied what err =
     (case err of
        Some e \<Rightarrow> if status_code e = PermissionDenied then Some (DeniedOn what) else Some e
      | None \<Rightarrow> None)"

definition requirePermResolved ::
  "Engine option \<Rightarrow> caller \<Rightarrow> bool \<Rightarrow> string \<Rightarrow> string \<Rightarrow> string \<Rightarrow> string \<Rightarrow> string \<Rightarrow> rpc_error option" where
  "requirePermResolved eng c known path guessPath verb fallbackRole what =
     (if known then denied what (RequirePerm eng c path verb fallbackRole)
      else
        (case RequirePerm eng c ''/'' verb fallbackRole of
           None \<Rightarrow> None
         | Some rootErr \<Rightarrow>
             if status_code rootErr \<noteq> PermissionDenied then Some rootErr
             else if RequirePerm eng c guessPath verb fallbackRole = None then Some (NotFoundHere what)
             else denied what (Some rootErr)))"

fun resolved_any_loop ::
  "Engine option \<Rightarrow> caller \<Rightarrow> bool \<Rightarrow> string \<Rightarrow> string \<Rightarrow> string list \<Rightarrow> string \<Rightarrow> string \<Rightarrow> rpc_error option \<Rightarrow> rpc_error option" where
  "resolved_any_loop eng c known path guessPath [] fallbackRole what err = err"
| "resolved_any_loop eng c known path guessPath (verb # verbs) fallbackRole what err =
     (case requirePermResolved eng c known path guessPath verb fallbackRole what of
        None \<Rightarrow> None
      | Some e \<Rightarrow> resolved_any_loop eng c known path guessPath verbs fallbackRole what (Some e))"

definition requirePermResolvedAny ::
  "Engine option \<Rightarrow> caller \<Rightarrow> bool \<Rightarrow> string \<Rightarrow> string \<Rightarrow> string list \<Rightarrow> string \<Rightarrow> string \<Rightarrow> rpc_error option" where
  "requirePermResolvedAny eng c known path guessPath verbs fallbackRole what =
     resolved_any_loop eng c known path guessPath verbs fallbackRole what None"

definition requirePermPrecheck :: "Engine option \<Rightarrow> caller \<Rightarrow> string \<Rightarrow> rpc_error option" where
  "requirePermPrecheck eng c fallbackRole =
     (if c_username c = '''' then Some NoPrincipal
      else if eng \<noteq> None \<and> HasAnyBinding eng (principalsForCaller (c_username c) (c_role c) (callerRealm c)) then None
      else requireRoleLevel c fallbackRole)"

section \<open>Principals\<close>

definition cutPrefix :: "string \<Rightarrow> string \<Rightarrow> string option" where
  "cutPrefix s p = (if prefix p s then Some (drop (length p) s) else None)"

definition isWellFormedPrincipal :: "string \<Rightarrow> bool" where
  "isWellFormedPrincipal p =
     (if prefix ''user:'' p \<and> length p > 5 then True
      else if prefix ''group:'' p then
        let body = drop 6 p in
        (case indexByte (CHR ''@'') body of
           Some i \<Rightarrow> i > 0 \<and> i < length body - 1
         | None \<Rightarrow> False)
      else False)"

definition classifyUserPrincipal :: "string \<Rightarrow> string \<times> string \<times> bool" where
  "classifyUserPrincipal body =
     (case lastIndexByte (CHR ''@'') body of
        None \<Rightarrow> (body, '''', False)
      | Some i \<Rightarrow>
          if i > 0 \<and> i < length body - 1 then
            let sfx = drop (i + 1) body in
            if sfx = ''local'' \<or> prefix ''oidc:'' sfx \<or> prefix ''ldap:'' sfx then (take i body, sfx, True)
            else (body, '''', False)
          else (body, '''', False))"

definition realm_qualified :: "string \<Rightarrow> bool" where
  "realm_qualified body = snd (snd (classifyUserPrincipal body))"

definition isSelfPrincipal :: "string \<Rightarrow> string \<Rightarrow> string \<Rightarrow> bool" where
  "isSelfPrincipal who user realm =
     (let realm = (if realm = '''' then ''local'' else realm) in
      who = ''user:'' @ user \<or> who = ''user:'' @ user @ ''@'' @ realm)"

definition filterBindingsForCaller :: "RoleBindingRecord list \<Rightarrow> string \<Rightarrow> string \<Rightarrow> RoleBindingRecord list" where
  "filterBindingsForCaller all user realm =
     (if user = '''' then [] else filter (\<lambda>b. isSelfPrincipal (b_Principal b) user realm) all)"

definition bindingKey :: "string \<Rightarrow> string \<Rightarrow> string \<Rightarrow> bool \<Rightarrow> string" where
  "bindingKey path role who prp =
     path @ [CHR 0x00] @ role @ [CHR 0x00] @ who @ [CHR 0x00] @ (if prp then ''true'' else ''false'')"

section \<open>The role-binding handlers\<close>

text \<open>
  \<open>e_realm\<close> is the \<open>auth.rbac_realm\<close> switch and \<open>e_gate\<close> the capability gate's answer; \<open>e_user\<close>
  looks a user up (an error, or whether a live row exists); the \<open>n\<close>-th database access of a request
  fails with \<open>e_fail n\<close>; \<open>e_id\<close> are the random ids.
\<close>

record rpc_env =
  e_now :: string
  e_marker :: string
  e_clock :: int
  e_realm :: bool
  e_gate :: bool
  e_user :: "string \<Rightarrow> string + bool"
  e_fail :: "nat \<Rightarrow> string option"
  e_id :: "nat \<Rightarrow> string"

record authz =
  az_db :: auth_db
  az_engine :: "Engine option"

definition rbacRealmLatched :: "rpc_env \<Rightarrow> bool" where
  "rbacRealmLatched env = (e_realm env \<and> e_gate env)"

definition read :: "string option \<Rightarrow> 'a \<Rightarrow> string + 'a" where
  "read err v = (case err of Some e \<Rightarrow> Inl e | None \<Rightarrow> Inr v)"

definition reload_engine :: "rpc_env \<Rightarrow> nat \<Rightarrow> authz \<Rightarrow> authz" where
  "reload_engine env n s =
     (case az_engine s of
        None \<Rightarrow> s
      | Some e \<Rightarrow> s\<lparr>az_engine := Some (snd (Reload (read (e_fail env n) (ListRoles (az_db s)))
          (read (e_fail env (Suc n)) (ListRoleBindings (az_db s))) (e_clock env) e))\<rparr>)"

definition resolveGrantPrincipal :: "rpc_env \<Rightarrow> string \<Rightarrow> rpc_error + string" where
  "resolveGrantPrincipal env who =
     (case cutPrefix who ''user:'' of
        None \<Rightarrow> Inr who
      | Some body \<Rightarrow>
          if realm_qualified body then Inr who
          else if \<not> rbacRealmLatched env then Inl (RealmNotLatched body)
          else
            (case e_user env body of
               Inl err \<Rightarrow> Inl (DbError err)
             | Inr False \<Rightarrow> Inl (RealmUnresolvable body body)
             | Inr True \<Rightarrow> Inr (''user:'' @ body @ ''@local'')))"

definition insert_binding :: "rpc_env \<Rightarrow> nat \<Rightarrow> RoleBindingRecord \<Rightarrow> auth_db \<Rightarrow> rpc_error + auth_db" where
  "insert_binding env n b db =
     (case e_fail env n of
        Some err \<Rightarrow> Inl (DbError err)
      | None \<Rightarrow>
          (case InsertRoleBinding (e_now env) b db of
             None \<Rightarrow> Inl (DbError ''UNIQUE constraint failed: role_bindings.id'')
           | Some db' \<Rightarrow> Inr db'))"

definition GrantRole ::
  "rpc_env \<Rightarrow> caller \<Rightarrow> string \<Rightarrow> string \<Rightarrow> string \<Rightarrow> bool \<Rightarrow> authz \<Rightarrow> (rpc_error + RoleBindingRecord) \<times> authz" where
  "GrantRole env c path role who prp s =
     (case RequireRole c ''admin'' of
        Some err \<Rightarrow> (Inl err, s)
      | None \<Rightarrow>
          if \<not> prefix ''/'' path then (Inl PathNotRooted, s)
          else if role = '''' then (Inl RoleEmpty, s)
          else if \<not> isWellFormedPrincipal who then (Inl PrincipalMalformed, s)
          else
            (case (if e_realm env then resolveGrantPrincipal env who else Inr who) of
               Inl err \<Rightarrow> (Inl err, s)
             | Inr resolved \<Rightarrow>
                 let b = \<lparr>b_ID = e_id env 0, b_Path = path, b_Role = role, b_Principal = resolved,
                   b_Propagate = prp, b_UpdatedAt = ''''\<rparr> in
                 (case insert_binding env 0 b (az_db s) of
                    Inl err \<Rightarrow> (Inl err, s)
                  | Inr db' \<Rightarrow> (Inr b, reload_engine env 1 (s\<lparr>az_db := db'\<rparr>)))))"

definition RevokeRole :: "rpc_env \<Rightarrow> caller \<Rightarrow> string \<Rightarrow> authz \<Rightarrow> rpc_error option \<times> authz" where
  "RevokeRole env c bid s =
     (case RequireRole c ''admin'' of
        Some err \<Rightarrow> (Some err, s)
      | None \<Rightarrow>
          if bid = '''' then (Some IdEmpty, s)
          else
            (case e_fail env 0 of
               Some err \<Rightarrow> (Some (DbError err), s)
             | None \<Rightarrow>
                 (None, s\<lparr>az_db := DeleteRoleBinding (e_now env) (e_marker env) bid (az_db s),
                    az_engine := RemoveBinding bid (az_engine s)\<rparr>)))"

definition ListRoleBindings_rpc :: "rpc_env \<Rightarrow> caller \<Rightarrow> string \<Rightarrow> authz \<Rightarrow> rpc_error + RoleBindingRecord list" where
  "ListRoleBindings_rpc env c who s =
     (let user = c_username c; isAdmin = (RequireRole c ''admin'' = None) in
      if who \<noteq> '''' then
        (if \<not> isAdmin \<and> \<not> isSelfPrincipal who user (callerRealm c) then Inl OnlyOwnBindings
         else case e_fail env 0 of
             Some err \<Rightarrow> Inl (DbError err)
           | None \<Rightarrow> Inr (ListBindingsForPrincipal who (az_db s)))
      else
        (case e_fail env 0 of
           Some err \<Rightarrow> Inl (DbError err)
         | None \<Rightarrow>
             let rows = ListRoleBindings (az_db s) in
             Inr (if \<not> isAdmin then filterBindingsForCaller rows user (callerRealm c) else rows)))"

text \<open>The loop of \<open>NormalizeRoleBindings\<close>: \<open>n\<close> counts the database accesses made so far.\<close>

fun normalize_loop ::
  "rpc_env \<Rightarrow> bool \<Rightarrow> nat \<Rightarrow> RoleBindingRecord list \<Rightarrow> string list \<Rightarrow> nat \<times> nat \<Rightarrow> auth_db \<Rightarrow> (rpc_error + nat \<times> nat \<times> nat) \<times> auth_db" where
  "normalize_loop env dry n [] existing counts db = (Inr (n, counts), db)"
| "normalize_loop env dry n (b # bs) existing counts db =
     (case cutPrefix (b_Principal b) ''user:'' of
        None \<Rightarrow> normalize_loop env dry n bs existing counts db
      | Some body \<Rightarrow>
          if realm_qualified body then normalize_loop env dry n bs existing counts db
          else
            (case e_user env body of
               Inl err \<Rightarrow> (Inl (DbError err), db)
             | Inr False \<Rightarrow> normalize_loop env dry n bs existing (fst counts, Suc (snd counts)) db
             | Inr True \<Rightarrow>
                 let canonical = ''user:'' @ body @ ''@local'' in
                 if dry then normalize_loop env dry n bs existing (Suc (fst counts), snd counts) db
                 else
                   let key = bindingKey (b_Path b) (b_Role b) canonical (b_Propagate b) in
                   (case (if key \<in> set existing then Inr (n, db)
                          else map_sum id (Pair (Suc n)) (insert_binding env n
                            \<lparr>b_ID = e_id env n, b_Path = b_Path b, b_Role = b_Role b, b_Principal = canonical,
                              b_Propagate = b_Propagate b, b_UpdatedAt = ''''\<rparr> db)) of
                      Inl err \<Rightarrow> (Inl err, db)
                    | Inr (n', db') \<Rightarrow>
                        (case e_fail env n' of
                           Some err \<Rightarrow> (Inl (DbError err), db')
                         | None \<Rightarrow> normalize_loop env dry (Suc n') bs (key # existing) (Suc (fst counts), snd counts)
                             (DeleteRoleBinding (e_now env) (e_marker env) (b_ID b) db')))))"

definition NormalizeRoleBindings ::
  "rpc_env \<Rightarrow> caller \<Rightarrow> bool \<Rightarrow> authz \<Rightarrow> (rpc_error + nat \<times> nat) \<times> authz" where
  "NormalizeRoleBindings env c dry s =
     (case RequireRole c ''admin'' of
        Some err \<Rightarrow> (Inl err, s)
      | None \<Rightarrow>
          if \<not> rbacRealmLatched env then (Inl NormalizeNotLatched, s)
          else
            (case e_fail env 0 of
               Some err \<Rightarrow> (Inl (DbError err), s)
             | None \<Rightarrow>
                 let rows = ListRoleBindings (az_db s);
                     existing = map (\<lambda>b. bindingKey (b_Path b) (b_Role b) (b_Principal b) (b_Propagate b)) rows in
                 (case normalize_loop env dry 1 rows existing (0, 0) (az_db s) of
                    (Inl err, db') \<Rightarrow> (Inl err, s\<lparr>az_db := db'\<rparr>)
                  | (Inr (n, counts), db') \<Rightarrow>
                      let s' = s\<lparr>az_db := db'\<rparr> in
                      (Inr counts, if \<not> dry \<and> fst counts > 0 then reload_engine env n s' else s'))))"

section \<open>The gates decide by policy\<close>

lemma canonicalScopePath_canonicalPath: "canonicalScopePath = canonicalPath"
  by (simp add: fun_eq_iff canonicalScopePath_def canonicalPath_def)

lemma pathHasPrefix_pathPrefixOf: "pathHasPrefix = pathPrefixOf"
  by (simp add: fun_eq_iff pathHasPrefix_def pathPrefixOf_def canonicalScopePath_canonicalPath)

interpretation scope_paths: path_cover pathHasPrefix parts
  by unfold_locales (simp add: pathHasPrefix_pathPrefixOf pathPrefixOf_parts)

lemma parts_root [simp]: "parts ''/'' = []"
  by (simp add: parts_def canonicalPath_def)

lemma parts_Nil_iff: "parts p = [] \<longleftrightarrow> canonicalPath p = ''/''"
  by (simp add: parts_def Let_def)

lemma pathAllowedByScopes_iff:
  "pathAllowedByScopes path scopes \<longleftrightarrow> (\<exists>s \<in> set scopes. prefix (parts s) (parts path))"
  by (simp add: pathAllowedByScopes_def list_ex_iff scope_paths.covers_iff)

lemma scopesIncludeRoot_iff: "scopesIncludeRoot scopes \<longleftrightarrow> (\<exists>s \<in> set scopes. parts s = [])"
  by (simp add: scopesIncludeRoot_def list_ex_iff parts_Nil_iff canonicalScopePath_canonicalPath)

lemma HasAnyBinding_policy: "HasAnyBinding eng ids \<longleftrightarrow> (\<exists>g \<in> policy eng. fst g \<in> set ids)"
  by (auto simp: HasAnyBinding_def policy_def policy_of_def list_ex_iff split: option.splits)

definition caller_ids :: "caller \<Rightarrow> string list" where
  "caller_ids c = principalsForCaller (c_username c) (c_role c) (callerRealm c)"

definition in_scope :: "caller \<Rightarrow> string \<Rightarrow> bool" where
  "in_scope c path \<longleftrightarrow> c_scopes c = [] \<or> (\<exists>s \<in> set (c_scopes c). prefix (parts s) (parts path))"

definition entitled :: "Engine option \<Rightarrow> caller \<Rightarrow> string \<Rightarrow> string \<Rightarrow> string \<Rightarrow> bool" where
  "entitled eng c path verb fallbackRole \<longleftrightarrow>
     (if \<exists>g \<in> policy eng. fst g \<in> set (caller_ids c)
      then policy_allows (policy eng) (set (caller_ids c)) (split_on (CHR ''.'') verb) (parts path)
      else roleLevel fallbackRole \<le> roleLevel (c_role c))"

lemma RequirePerm_iff:
  "RequirePerm eng c path verb fb = None \<longleftrightarrow>
     c_username c \<noteq> '''' \<and> in_scope c path \<and> entitled eng c path verb fb"
proof -
  have "HasAnyBinding None ids = False" for ids by (simp add: HasAnyBinding_def)
  then have "eng \<noteq> None \<and> HasAnyBinding eng (caller_ids c) \<longleftrightarrow> (\<exists>g \<in> policy eng. fst g \<in> set (caller_ids c))"
    by (cases eng) (simp_all add: HasAnyBinding_policy policy_def)
  then show ?thesis
    by (auto simp: RequirePerm_def requireRoleLevel_def entitled_def in_scope_def pathAllowedByScopes_iff
        Allowed_policy caller_ids_def [symmetric] Let_def not_less)
qed

lemma RequireRole_iff:
  "RequireRole c r = None \<longleftrightarrow> in_scope c ''/'' \<and> roleLevel r \<le> roleLevel (c_role c)"
  by (auto simp: RequireRole_def requireRoleLevel_def scopesIncludeRoot_iff in_scope_def not_less)

lemma RequirePerm_error:
  "RequirePerm eng c path verb fb = Some e \<Longrightarrow>
   e = NoPrincipal \<and> c_username c = '''' \<or> status_code e = PermissionDenied \<and> c_username c \<noteq> ''''"
  by (auto simp: RequirePerm_def requireRoleLevel_def Let_def split: if_splits)

lemma in_scope_root: "in_scope c ''/'' \<Longrightarrow> in_scope c path"
  unfolding in_scope_def by (metis Nil_prefix parts_root prefix_Nil)

text \<open>A caller whose grants at the cluster root all extend below it.\<close>

definition roots_propagate :: "Engine option \<Rightarrow> caller \<Rightarrow> bool" where
  "roots_propagate eng c \<longleftrightarrow>
     (\<forall>(who, at, below, grants) \<in> policy eng. who \<in> set (caller_ids c) \<and> at = [] \<longrightarrow> below)"

lemma entitled_root:
  assumes "entitled eng c ''/'' verb fb" "roots_propagate eng c"
  shows "entitled eng c path verb fb"
proof (cases "\<exists>g \<in> policy eng. fst g \<in> set (caller_ids c)")
  case True
  with assms(1) obtain t where t: "t \<in> policy eng"
    "case t of (who, at, below, grants) \<Rightarrow> who \<in> set (caller_ids c) \<and>
       (if below then prefix at [] else at = []) \<and> (\<exists>g \<in> grants. permits g (split_on (CHR ''.'') verb))"
    unfolding entitled_def policy_allows_def parts_root by (simp only: if_True) blast
  obtain who at below grants where "t = (who, at, below, grants)" by (cases t)
  with t have
    g: "(who, at, below, grants) \<in> policy eng" "who \<in> set (caller_ids c)"
      "at = []" "\<exists>g \<in> grants. permits g (split_on (CHR ''.'') verb)"
    by (cases below; simp)+
  have below using g assms(2) by (auto simp: roots_propagate_def)
  then have "policy_allows (policy eng) (set (caller_ids c)) (split_on (CHR ''.'') verb) (parts path)"
    using g unfolding policy_allows_def by (intro bexI [OF _ g(1)]) simp
  with True show ?thesis by (simp add: entitled_def)
next
  case False
  with assms(1) show ?thesis by (simp add: entitled_def)
qed

section \<open>Properties of the gates\<close>

text \<open>C3: the two gates decide as documented. \<open>RequirePerm\<close> passes exactly an authenticated caller
  whose token scopes cover the path and who is granted the verb there by the policy of the loaded
  bindings or, only when no binding names the caller, whose legacy role is high enough. A scoped
  token passes the path-less \<open>RequireRole\<close> only if one of its scopes is the root.\<close>

theorem gates_decide_by_policy:
  "(RequirePerm eng c path verb fb = None \<longleftrightarrow>
     c_username c \<noteq> '''' \<and>
     (c_scopes c = [] \<or> (\<exists>s \<in> set (c_scopes c). prefix (parts s) (parts path))) \<and>
     (if \<exists>g \<in> policy eng. fst g \<in> set (principalsForCaller (c_username c) (c_role c) (callerRealm c))
      then policy_allows (policy eng) (set (principalsForCaller (c_username c) (c_role c) (callerRealm c)))
        (split_on (CHR ''.'') verb) (parts path)
      else roleLevel fb \<le> roleLevel (c_role c))) \<and>
   (RequireRole c r = None \<longleftrightarrow>
     (c_scopes c = [] \<or> (\<exists>s \<in> set (c_scopes c). parts s = [])) \<and> roleLevel r \<le> roleLevel (c_role c))"
  using RequirePerm_iff [of eng c path verb fb] RequireRole_iff [of c r]
  by (simp add: in_scope_def entitled_def caller_ids_def)

text \<open>C27: an unresolved project authorizes nobody on a guess. Where the caller's grants at the
  cluster root extend below it, a caller let through for a resource this node has no row of would
  be let through on every path. And a caller with no right at the resource, at the root or at the
  guessed path gets one answer whether or not the node holds the row.\<close>

theorem unresolved_project_is_not_guessed:
  "(roots_propagate eng c \<longrightarrow> requirePermResolved eng c False path guessPath verb fb what = None \<longrightarrow>
      RequirePerm eng c anywhere verb fb = None) \<and>
   (RequirePerm eng c path verb fb \<noteq> None \<longrightarrow> RequirePerm eng c ''/'' verb fb \<noteq> None \<longrightarrow>
      RequirePerm eng c guessPath verb fb \<noteq> None \<longrightarrow>
      requirePermResolved eng c True path guessPath verb fb what = requirePermResolved eng c False path guessPath verb fb what)"
proof (intro conjI impI)
  assume r: "roots_propagate eng c" and "requirePermResolved eng c False path guessPath verb fb what = None"
  then have "RequirePerm eng c ''/'' verb fb = None"
    by (auto simp: requirePermResolved_def denied_def split: option.splits if_splits)
  then show "RequirePerm eng c anywhere verb fb = None"
    using entitled_root [OF _ r] in_scope_root by (simp add: RequirePerm_iff)
next
  assume "RequirePerm eng c path verb fb \<noteq> None" "RequirePerm eng c ''/'' verb fb \<noteq> None"
    and g: "RequirePerm eng c guessPath verb fb \<noteq> None"
  then obtain e e' where "RequirePerm eng c path verb fb = Some e" "RequirePerm eng c ''/'' verb fb = Some e'"
    by blast
  with g RequirePerm_error [OF this(1)] RequirePerm_error [OF this(2)]
  show "requirePermResolved eng c True path guessPath verb fb what = requirePermResolved eng c False path guessPath verb fb what"
    by (auto simp: requirePermResolved_def denied_def)
qed

definition demo_engine :: "RoleBindingRecord list \<Rightarrow> Engine option" where
  "demo_engine bs = Some \<lparr>snap = Some \<lparr>roleVerbs = [''Operator'' \<mapsto> [''vm.*'']], bindings = bs\<rparr>, lastReload = 0\<rparr>"

definition demo_caller :: caller where
  "demo_caller = \<lparr>c_username = ''alice'', c_role = ''viewer'', c_realm = ''local'', c_scopes = []\<rparr>"

definition demo_grant :: "bool \<Rightarrow> RoleBindingRecord" where
  "demo_grant below = demo_binding ''1'' ''/'' ''Operator'' ''user:alice@local'' below"

theorem unresolved_project_is_not_guessed_witness:
  "RequirePerm (demo_engine [demo_grant True]) demo_caller ''/projects/acme/vms/web'' ''vm.delete'' ''operator'' = None"
proof -
  have "roots_propagate (demo_engine [demo_grant True]) demo_caller"
    by (simp add: roots_propagate_def policy_def policy_of_def demo_engine_def demo_grant_def demo_binding_def)
  moreover have "requirePermResolved (demo_engine [demo_grant True]) demo_caller False ''/p'' ''/projects/_default/vms/web'' ''vm.delete'' ''operator'' ''vm web'' = None"
    by code_simp
  ultimately show ?thesis
    using unresolved_project_is_not_guessed
      [of "demo_engine [demo_grant True]" demo_caller "''/p''" "''/projects/_default/vms/web''" "''vm.delete''" "''operator''" "''vm web''" "''/projects/acme/vms/web''"]
    by blast
qed

text \<open>C28: a grant at the root that does not extend below it still passes the gate for a resource
  this node has no row of. The caller is refused on the resource's own path, on every project and
  on the guessed path; only the missing row lets the request through.\<close>

theorem root_only_grant_passes_unresolved:
  "requirePermResolved (demo_engine [demo_grant False]) demo_caller False path ''/projects/_default/vms/web'' ''vm.delete'' ''operator'' what = None \<and>
   (parts path \<noteq> [] \<longrightarrow>
    requirePermResolved (demo_engine [demo_grant False]) demo_caller True path ''/projects/_default/vms/web'' ''vm.delete'' ''operator'' what
      = Some (DeniedOn what))"
proof -
  have root: "RequirePerm (demo_engine [demo_grant False]) demo_caller ''/'' ''vm.delete'' ''operator'' = None" by code_simp
  have p: "policy (demo_engine [demo_grant False]) = {(''user:alice@local'', [], False, {[''vm'', ''*'']})}"
    by (simp add: policy_def policy_of_def demo_engine_def demo_grant_def demo_binding_def)
  have ids: "set (caller_ids demo_caller) = {''user:alice@local'', ''group:viewer@local''}" by code_simp
  have "RequirePerm (demo_engine [demo_grant False]) demo_caller path ''vm.delete'' ''operator'' \<noteq> None" if "parts path \<noteq> []"
    using that unfolding RequirePerm_iff entitled_def p ids by (simp add: policy_allows_def)
  then have "\<exists>e. RequirePerm (demo_engine [demo_grant False]) demo_caller path ''vm.delete'' ''operator'' = Some e \<and>
      status_code e = PermissionDenied" if "parts path \<noteq> []"
    using that RequirePerm_error [of "demo_engine [demo_grant False]" demo_caller path] by (auto simp: demo_caller_def)
  with root show ?thesis by (auto simp: requirePermResolved_def denied_def)
qed

theorem root_only_grant_passes_unresolved_witness:
  "requirePermResolved (demo_engine [demo_grant False]) demo_caller True ''/projects/acme/vms/web'' ''/projects/_default/vms/web'' ''vm.delete'' ''operator'' ''vm web''
     = Some (DeniedOn ''vm web'')"
proof -
  have "parts ''/projects/acme/vms/web'' \<noteq> []" by code_simp
  then show ?thesis using root_only_grant_passes_unresolved [of "''/projects/acme/vms/web''" "''vm web''"] by blast
qed

section \<open>Revocation under concurrent reloads\<close>

text \<open>
  The engine of a running server. \<open>Reload\<close> holds the engine's mutex over its two reads and its
  store, so it is three steps and the removals wait for it; writes to the database do not, and
  happen at any of them. \<open>replicate\<close> is whatever a peer's rows change, as long as a tombstoned
  binding stays tombstoned.
\<close>

datatype reload_stage = Idle | HasRoles "RoleRecord list" | HasBoth "RoleRecord list" "RoleBindingRecord list"

record live_server =
  ls_db :: auth_db
  ls_engine :: Engine
  ls_stage :: reload_stage

definition dead :: "string \<Rightarrow> auth_db \<Rightarrow> bool" where
  "dead bid db \<longleftrightarrow>
     (\<exists>r \<in> set (role_bindings db). b_ID (fst r) = bid) \<and>
     (\<forall>r \<in> set (role_bindings db). b_ID (fst r) = bid \<longrightarrow> snd r \<noteq> None)"

inductive server_step :: "live_server \<Rightarrow> live_server \<Rightarrow> bool" where
  reload_lock: "ls_stage s = Idle \<Longrightarrow> server_step s (s\<lparr>ls_stage := HasRoles (ListRoles (ls_db s))\<rparr>)"
| reload_bindings: "ls_stage s = HasRoles rs \<Longrightarrow>
    server_step s (s\<lparr>ls_stage := HasBoth rs (ListRoleBindings (ls_db s))\<rparr>)"
| reload_store: "ls_stage s = HasBoth rs bs \<Longrightarrow>
    server_step s (s\<lparr>ls_engine := snd (Reload (Inr rs) (Inr bs) now (ls_engine s)), ls_stage := Idle\<rparr>)"
| reload_fail: "server_step s (s\<lparr>ls_stage := Idle\<rparr>)"
| remove_binding: "ls_stage s = Idle \<Longrightarrow> RemoveBinding i (Some (ls_engine s)) = Some e \<Longrightarrow>
    server_step s (s\<lparr>ls_engine := e\<rparr>)"
| remove_principal: "ls_stage s = Idle \<Longrightarrow> RemovePrincipal who (Some (ls_engine s)) = Some e \<Longrightarrow>
    server_step s (s\<lparr>ls_engine := e\<rparr>)"
| insert_binding_row: "InsertRoleBinding now b (ls_db s) = Some db \<Longrightarrow> server_step s (s\<lparr>ls_db := db\<rparr>)"
| delete_binding_row: "server_step s (s\<lparr>ls_db := DeleteRoleBinding now marker i (ls_db s)\<rparr>)"
| insert_role_row: "server_step s (s\<lparr>ls_db := InsertRole now r (ls_db s)\<rparr>)"
| delete_role_row: "DeleteRole now marker name (ls_db s) = Inr db \<Longrightarrow> server_step s (s\<lparr>ls_db := db\<rparr>)"
| replicate: "(\<And>i. dead i (ls_db s) \<Longrightarrow> dead i db) \<Longrightarrow> server_step s (s\<lparr>ls_db := db\<rparr>)"

inductive server_run :: "live_server \<Rightarrow> live_server \<Rightarrow> bool" where
  run_refl: "server_run s s"
| run_step: "server_run s t \<Longrightarrow> server_step t u \<Longrightarrow> server_run s u"

definition bound :: "string \<Rightarrow> Engine \<Rightarrow> bool" where
  "bound bid e \<longleftrightarrow> (\<exists>s. snap e = Some s \<and> bid \<in> b_ID ` set (bindings s))"

definition revoked :: "string \<Rightarrow> live_server \<Rightarrow> bool" where
  "revoked bid s \<longleftrightarrow> dead bid (ls_db s) \<and> \<not> bound bid (ls_engine s) \<and>
     (\<forall>rs bs. ls_stage s = HasBoth rs bs \<longrightarrow> bid \<notin> b_ID ` set bs)"

lemma dead_Delete: "(\<exists>r \<in> set (role_bindings db). b_ID (fst r) = bid) \<Longrightarrow> dead bid (DeleteRoleBinding now marker bid db)"
  by (force simp: dead_def DeleteRoleBinding_def)

lemma dead_Delete_other: "dead bid db \<Longrightarrow> dead bid (DeleteRoleBinding now marker i db)"
  by (force simp: dead_def DeleteRoleBinding_def split: if_splits)

lemma dead_Insert: "dead bid db \<Longrightarrow> InsertRoleBinding now b db = Some db' \<Longrightarrow> dead bid db'"
  by (force simp: dead_def InsertRoleBinding_def split: if_splits)

lemma dead_roles:
  "dead bid (InsertRole now r db) = dead bid db"
  "DeleteRole now marker name db = Inr db' \<Longrightarrow> dead bid db' = dead bid db"
  by (auto simp: dead_def DeleteRole_def split: option.splits if_splits)

lemma dead_unlisted: "dead bid db \<Longrightarrow> bid \<notin> b_ID ` set (ListRoleBindings db)"
  by (force simp: dead_def ListRoleBindings_def set_live)

lemma removeWhere_bound: "removeWhere keep (Some e) = Some e' \<Longrightarrow> bound bid e' \<Longrightarrow> bound bid e"
  by (auto simp: removeWhere_def bound_def Let_def split: option.splits if_splits)

lemma RemoveBinding_unbound: "RemoveBinding bid (Some e) = Some e' \<Longrightarrow> \<not> bound bid e'"
  by (auto simp: RemoveBinding_def removeWhere_def bound_def Let_def list_ex_iff split: option.splits if_splits)

lemma Reload_bound: "bound bid (snd (Reload (Inr rs) (Inr bs) now e)) \<longleftrightarrow> bid \<in> b_ID ` set bs"
  by (simp add: Reload_def bound_def)

lemma server_step_dead: "server_step s t \<Longrightarrow> dead bid (ls_db s) \<Longrightarrow> dead bid (ls_db t)"
  by (induction rule: server_step.induct) (auto simp: dead_Delete_other dead_roles dead_Insert)

lemma server_run_dead: "server_run s t \<Longrightarrow> dead bid (ls_db s) \<Longrightarrow> dead bid (ls_db t)"
  by (induction rule: server_run.induct) (auto dest: server_step_dead)

lemma server_step_revoked: "server_step s t \<Longrightarrow> revoked bid s \<Longrightarrow> revoked bid t"
proof (induction rule: server_step.induct)
  case (remove_binding s i e)
  then show ?case using removeWhere_bound unfolding revoked_def RemoveBinding_def by auto
next
  case (remove_principal s who e)
  then show ?case using removeWhere_bound unfolding revoked_def RemovePrincipal_def by auto
qed (auto simp: revoked_def dead_unlisted Reload_bound dead_Delete_other dead_roles dead_Insert)

lemma server_run_revoked: "server_run s t \<Longrightarrow> revoked bid s \<Longrightarrow> revoked bid t"
  by (induction rule: server_run.induct) (auto dest: server_step_revoked)


definition demo_admin :: caller where
  "demo_admin = \<lparr>c_username = ''root'', c_role = ''admin'', c_realm = ''local'', c_scopes = []\<rparr>"

definition demo_env :: rpc_env where
  "demo_env = \<lparr>e_now = ''2'', e_marker = ''2'', e_clock = 2, e_realm = False, e_gate = False,
     e_user = (\<lambda>_. Inr True), e_fail = (\<lambda>_. None), e_id = (\<lambda>_. ''9'')\<rparr>"

text \<open>A server whose reload has read the binding but not stored it when the revocation arrives.\<close>

definition demo_server :: live_server where
  "demo_server = \<lparr>ls_db = \<lparr>roles = [], role_bindings = [(demo_grant True, None)]\<rparr>, ls_engine = NewEngine,
     ls_stage = HasBoth [] [demo_grant True]\<rparr>"


end
