(* ===== verification/Users.thy ===== *)
theory Users
  imports Authz
begin

text \<open>
  User accounts and the admin floor: \<^verbatim>\<open>src/internal/corrosion/users.go\<close> without the API tokens,
  \<^verbatim>\<open>src/internal/corrosion/admin_floor.go\<close>, \<^verbatim>\<open>src/internal/corrosion/replica_freshness.go\<close> and the
  handlers \<open>CreateUser\<close> and \<open>DeleteUser\<close> of \<^verbatim>\<open>src/internal/grpcapi/users.go\<close>.

  A batch of statements commits whole or not at all. The tables that only \<open>DeleteUser\<close> cascades to
  are kept as rows of an owner and a tombstone. \<open>bcrypt\<close> is an argument.
\<close>

section \<open>Tables\<close>

record user_row =
  u_username :: string
  u_role :: string
  u_password_hash :: string
  u_realm :: string
  u_created_at :: string
  u_updated_at :: string
  u_deleted_at :: "string option"

record credential_row =
  k_username :: string
  k_password_hash :: string
  k_updated_at :: string
  k_deleted_at :: "string option"

record owned_row =
  o_username :: string
  o_updated_at :: string
  o_deleted_at :: "string option"

record user_db =
  users :: "user_row list"
  user_credentials :: "credential_row list"
  user_2fa :: "owned_row list"
  user_2fa_sets :: "owned_row list"
  recovery_codes :: "owned_row list"
  recovery_code_sets :: "owned_row list"
  auth_tables :: auth_db

record UserRecord =
  ur_Username :: string
  ur_Role :: string
  ur_PasswordHash :: string
  ur_Realm :: string
  ur_CreatedAt :: string

definition resolveCredential :: "bool \<Rightarrow> string \<Rightarrow> string \<Rightarrow> string" where
  "resolveCredential present credVal oldVal = (if present then credVal else oldVal)"

text \<open>\<open>userCredentialUpsertSQL\<close> and the join every reader of a password makes.\<close>

definition credential_upsert :: "string \<Rightarrow> string \<Rightarrow> string \<Rightarrow> credential_row list \<Rightarrow> credential_row list" where
  "credential_upsert username hash now ks =
     (let k = \<lparr>k_username = username, k_password_hash = hash, k_updated_at = now, k_deleted_at = None\<rparr> in
      if username \<in> set (map k_username ks) then map (\<lambda>x. if k_username x = username then k else x) ks
      else ks @ [k])"

definition credential_of :: "user_db \<Rightarrow> user_row \<Rightarrow> string" where
  "credential_of db u =
     (case filter (\<lambda>k. k_username k = u_username u \<and> k_deleted_at k = None) (user_credentials db) of
        k # _ \<Rightarrow> resolveCredential (k_username k \<noteq> '''') (k_password_hash k) (u_password_hash u)
      | [] \<Rightarrow> resolveCredential False '''' (u_password_hash u))"

section \<open>Accounts\<close>

definition reactivate :: "string \<Rightarrow> string \<Rightarrow> string \<Rightarrow> string \<Rightarrow> user_row list \<Rightarrow> user_row list" where
  "reactivate role hash now username us =
     map (\<lambda>u. if u_username u = username
       then u\<lparr>u_role := role, u_password_hash := hash, u_deleted_at := None, u_updated_at := now\<rparr> else u) us"

text \<open>\<open>InsertUser\<close>. A read that fails is taken as no tombstone; the insert then conflicts with any
  row of that name.\<close>

definition InsertUser ::
  "bool \<Rightarrow> string option \<Rightarrow> string option \<Rightarrow> string \<Rightarrow> string \<Rightarrow> string \<Rightarrow> string \<Rightarrow> string \<Rightarrow> user_db \<Rightarrow> string option \<times> user_db" where
  "InsertUser split readErr writeErr now today username role hash db =
     (let creds = (if split then credential_upsert username hash now (user_credentials db) else user_credentials db) in
      if readErr = None \<and> list_ex (\<lambda>u. u_username u = username \<and> u_deleted_at u \<noteq> None) (users db) then
        (case writeErr of
           Some err \<Rightarrow> (Some err, db)
         | None \<Rightarrow> (None, db\<lparr>users := reactivate role hash now username (users db), user_credentials := creds\<rparr>))
      else
        (case writeErr of
           Some err \<Rightarrow> (Some err, db)
         | None \<Rightarrow>
             if username \<in> set (map u_username (users db)) then (Some ''UNIQUE constraint failed: users.username'', db)
             else (None, db\<lparr>users := users db @ [\<lparr>u_username = username, u_role = role, u_password_hash = hash,
                 u_realm = ''local'', u_created_at = today, u_updated_at = now, u_deleted_at = None\<rparr>],
               user_credentials := creds\<rparr>)))"

definition GetUser :: "string \<Rightarrow> user_db \<Rightarrow> UserRecord option" where
  "GetUser username db =
     (case filter (\<lambda>u. u_username u = username \<and> u_deleted_at u = None) (users db) of
        [] \<Rightarrow> None
      | u # _ \<Rightarrow> Some \<lparr>ur_Username = u_username u, ur_Role = u_role u, ur_PasswordHash = credential_of db u,
          ur_Realm = u_realm u, ur_CreatedAt = u_created_at u\<rparr>)"

definition UsersEverExisted :: "user_db \<Rightarrow> bool" where
  "UsersEverExisted db = (users db \<noteq> [])"

definition ListUsers :: "user_db \<Rightarrow> UserRecord list" where
  "ListUsers db =
     map (\<lambda>u. \<lparr>ur_Username = u_username u, ur_Role = u_role u, ur_PasswordHash = '''', ur_Realm = '''',
         ur_CreatedAt = u_created_at u\<rparr>)
       (sort_key u_username (filter (\<lambda>u. u_deleted_at u = None) (users db)))"

definition UpdateUserPassword ::
  "bool \<Rightarrow> string option \<Rightarrow> string option \<Rightarrow> string \<Rightarrow> string \<Rightarrow> string \<Rightarrow> user_db \<Rightarrow> string option \<times> user_db" where
  "UpdateUserPassword split readErr writeErr now username hash db =
     (let live = list_ex (\<lambda>u. u_username u = username \<and> u_deleted_at u = None) (users db);
          us = map (\<lambda>u. if u_username u = username \<and> u_deleted_at u = None
            then u\<lparr>u_password_hash := hash, u_updated_at := now\<rparr> else u) (users db) in
      if split then
        (case readErr of
           Some err \<Rightarrow> (Some err, db)
         | None \<Rightarrow>
             if \<not> live then (None, db)
             else
               (case writeErr of
                  Some err \<Rightarrow> (Some err, db)
                | None \<Rightarrow> (None, db\<lparr>users := us,
                    user_credentials := credential_upsert username hash now (user_credentials db)\<rparr>)))
      else (case writeErr of Some err \<Rightarrow> (Some err, db) | None \<Rightarrow> (None, db\<lparr>users := us\<rparr>)))"

definition tombstone_owned :: "string \<Rightarrow> string \<Rightarrow> string \<Rightarrow> owned_row list \<Rightarrow> owned_row list" where
  "tombstone_owned marker now username rows =
     map (\<lambda>r. if o_username r = username \<and> o_deleted_at r = None
       then r\<lparr>o_deleted_at := Some marker, o_updated_at := now\<rparr> else r) rows"

definition tombstone_principals :: "string \<Rightarrow> string \<Rightarrow> string \<Rightarrow> string \<Rightarrow> auth_db \<Rightarrow> auth_db" where
  "tombstone_principals marker now bare local db =
     db\<lparr>role_bindings := map (\<lambda>(b, del).
       if (b_Principal b = bare \<or> b_Principal b = local) \<and> del = None
       then (b\<lparr>b_UpdatedAt := now\<rparr>, Some marker) else (b, del)) (role_bindings db)\<rparr>"

definition DeleteUser :: "string option \<Rightarrow> string \<Rightarrow> string \<Rightarrow> string \<Rightarrow> user_db \<Rightarrow> string option \<times> user_db" where
  "DeleteUser writeErr now marker username db =
     (case writeErr of
        Some err \<Rightarrow> (Some err, db)
      | None \<Rightarrow>
          let barePrincipal = ''user:'' @ username; localPrincipal = barePrincipal @ ''@local'' in
          (None, db\<lparr>users := map (\<lambda>u. if u_username u = username
                then u\<lparr>u_deleted_at := Some marker, u_updated_at := now\<rparr> else u) (users db),
              user_2fa := tombstone_owned marker now username (user_2fa db),
              user_2fa_sets := tombstone_owned marker now username (user_2fa_sets db),
              recovery_codes := tombstone_owned marker now username (recovery_codes db),
              recovery_code_sets := tombstone_owned marker now username (recovery_code_sets db),
              auth_tables := tombstone_principals marker now barePrincipal localPrincipal (auth_tables db)\<rparr>))"

section \<open>The admin floor\<close>

definition live_admin :: "user_row \<Rightarrow> bool" where
  "live_admin u \<longleftrightarrow> u_role u = ''admin'' \<and> u_deleted_at u = None"

definition OtherLiveAdminExists :: "string \<Rightarrow> user_db \<Rightarrow> bool" where
  "OtherLiveAdminExists username db = list_ex (\<lambda>u. live_admin u \<and> u_username u \<noteq> username) (users db)"

text \<open>\<open>ORDER BY deleted_at DESC, username ASC LIMIT 1\<close> over tombstoned rows.\<close>

definition newer :: "user_row \<Rightarrow> user_row \<Rightarrow> bool" where
  "newer u v \<longleftrightarrow> the (u_deleted_at v) < the (u_deleted_at u) \<or>
     the (u_deleted_at u) = the (u_deleted_at v) \<and> u_username u < u_username v"

fun first_tombstone :: "user_row list \<Rightarrow> user_row option" where
  "first_tombstone [] = None"
| "first_tombstone (u # us) =
     (case first_tombstone us of None \<Rightarrow> Some u | Some v \<Rightarrow> if newer v u then Some v else Some u)"

definition ReinstateAdminIfNoneRemain ::
  "bool \<Rightarrow> (nat \<Rightarrow> string option) \<Rightarrow> string \<Rightarrow> user_db \<Rightarrow> (string + string) \<times> user_db" where
  "ReinstateAdminIfNoneRemain split fails now db =
     (case fails 0 of
        Some err \<Rightarrow> (Inl err, db)
      | None \<Rightarrow>
          if list_ex live_admin (users db) then (Inr '''', db)
          else
            (case fails 1 of
               Some err \<Rightarrow> (Inl err, db)
             | None \<Rightarrow>
                 (case first_tombstone (filter (\<lambda>u. u_role u = ''admin'' \<and> u_deleted_at u \<noteq> None) (users db)) of
                    None \<Rightarrow> (Inr '''', db)
                  | Some u \<Rightarrow>
                      let victim = u_username u; hash = credential_of db u in
                      (case fails 2 of
                         Some err \<Rightarrow> (Inl err, db)
                       | None \<Rightarrow>
                           (Inr victim, db\<lparr>users := reactivate ''admin'' hash now victim (users db),
                              user_credentials := (if split then credential_upsert victim hash now (user_credentials db)
                                else user_credentials db)\<rparr>)))))"

section \<open>Replica freshness\<close>

record replicaFreshness =
  f_gen :: u64
  f_caughtUp :: bool
  f_peer :: string
  f_at :: int
  f_staleReason :: string

definition ReplicaCaughtUp :: "replicaFreshness \<Rightarrow> bool \<times> string" where
  "ReplicaCaughtUp f =
     (if f_caughtUp f then (True, '''')
      else if f_staleReason f \<noteq> '''' then (False, f_staleReason f)
      else (False, ''no anti-entropy exchange with a peer has completed since this process started''))"

definition markReplicaCaughtUp :: "u64 \<Rightarrow> string \<Rightarrow> int \<Rightarrow> replicaFreshness \<Rightarrow> replicaFreshness" where
  "markReplicaCaughtUp gen peer now f =
     (if gen \<noteq> f_gen f \<or> f_caughtUp f then f
      else f\<lparr>f_caughtUp := True, f_peer := peer, f_at := now, f_staleReason := ''''\<rparr>)"

definition MarkReplicaStale :: "string \<Rightarrow> replicaFreshness \<Rightarrow> replicaFreshness" where
  "MarkReplicaStale reason f =
     (let f = f\<lparr>f_gen := f_gen f + 1\<rparr> in
      if \<not> f_caughtUp f then (if f_staleReason f = '''' then f\<lparr>f_staleReason := reason\<rparr> else f)
      else f\<lparr>f_caughtUp := False, f_staleReason := reason\<rparr>)"

section \<open>The periodic check\<close>

definition AdminFloorSettle :: int where "AdminFloorSettle = 30 * 1000000000"

text \<open>\<open>fails 0\<close> is the check's own read; the reinstatement's accesses follow. \<open>zeroSince\<close> is \<open>None\<close>
  for the zero time.\<close>

definition EnsureAdminFloor ::
  "bool \<Rightarrow> (nat \<Rightarrow> string option) \<Rightarrow> string \<Rightarrow> int \<Rightarrow> int \<Rightarrow> replicaFreshness \<Rightarrow> int option \<Rightarrow> user_db \<Rightarrow>
     (string + string) \<times> int option \<times> user_db" where
  "EnsureAdminFloor split fails nowTS now settle fresh zeroSince db =
     (case fails 0 of
        Some err \<Rightarrow> (Inl err, zeroSince, db)
      | None \<Rightarrow>
          if list_ex live_admin (users db) then (Inr '''', None, db)
          else if \<not> fst (ReplicaCaughtUp fresh) then (Inr '''', None, db)
          else
            (case zeroSince of
               None \<Rightarrow> (Inr '''', Some now, db)
             | Some since \<Rightarrow>
                 if now - since < settle then (Inr '''', zeroSince, db)
                 else
                   (case ReinstateAdminIfNoneRemain split (\<lambda>n. fails (Suc n)) nowTS db of
                      (Inl err, db') \<Rightarrow> (Inl err, zeroSince, db')
                    | (Inr who, db') \<Rightarrow> (Inr who, None, db'))))"

section \<open>The handlers\<close>

datatype user_error =
    Gate rpc_error
  | UsernameRequired
  | PasswordRequired
  | AlreadyExists string
  | LastAdmin string
  | UserInternal string

text \<open>The result carries the account's name and role.\<close>

definition CreateUser_rpc ::
  "(string \<Rightarrow> string + string) \<Rightarrow> bool \<Rightarrow> (nat \<Rightarrow> string option) \<Rightarrow> string \<Rightarrow> string \<Rightarrow> caller \<Rightarrow> string \<Rightarrow> string \<Rightarrow> string \<Rightarrow> user_db \<Rightarrow>
     (user_error + string \<times> string) \<times> user_db" where
  "CreateUser_rpc bcrypt split fails now today c username password role db =
     (case RequireRole c ''admin'' of
        Some err \<Rightarrow> (Inl (Gate err), db)
      | None \<Rightarrow>
          if username = '''' then (Inl UsernameRequired, db)
          else if password = '''' then (Inl PasswordRequired, db)
          else
            let role = (if role = '''' then ''viewer'' else role);
                existing = (case fails 0 of Some _ \<Rightarrow> None | None \<Rightarrow> GetUser username db) in
            if existing \<noteq> None then (Inl (AlreadyExists username), db)
            else
              (case bcrypt password of
                 Inl err \<Rightarrow> (Inl (UserInternal err), db)
               | Inr hash \<Rightarrow>
                   (case InsertUser split (fails 1) (fails 2) now today username role hash db of
                      (Some err, db') \<Rightarrow> (Inl (UserInternal err), db')
                    | (None, db') \<Rightarrow> (Inr (username, role), db'))))"

text \<open>\<open>now\<close> and \<open>now'\<close> stamp the delete and the reinstatement. The result of the latter is logged and audited, not returned.\<close>

definition DeleteUser_rpc ::
  "bool \<Rightarrow> (nat \<Rightarrow> string option) \<Rightarrow> string \<Rightarrow> string \<Rightarrow> string \<Rightarrow> caller \<Rightarrow> string \<Rightarrow> Engine option \<Rightarrow> user_db \<Rightarrow>
     user_error option \<times> Engine option \<times> user_db" where
  "DeleteUser_rpc split fails now now' marker c username eng db =
     (case RequireRole c ''admin'' of
        Some err \<Rightarrow> (Some (Gate err), eng, db)
      | None \<Rightarrow>
          (case fails 0 of
             Some err \<Rightarrow> (Some (UserInternal err), eng, db)
           | None \<Rightarrow>
               let proceed =
                 (case GetUser username db of
                    None \<Rightarrow> None
                  | Some target \<Rightarrow>
                      if ur_Role target = ''admin'' then
                        (case fails 1 of
                           Some err \<Rightarrow> Some (UserInternal err)
                         | None \<Rightarrow> if \<not> OtherLiveAdminExists username db then Some (LastAdmin username) else None)
                      else None) in
               (case proceed of
                  Some err \<Rightarrow> (Some err, eng, db)
                | None \<Rightarrow>
                    (case DeleteUser (fails 2) now marker username db of
                       (Some err, db') \<Rightarrow> (Some (UserInternal err), eng, db')
                     | (None, db') \<Rightarrow>
                         let db'' = snd (ReinstateAdminIfNoneRemain split (\<lambda>n. fails (3 + n)) now' db') in
                         (None, RemovePrincipal (''user:'' @ username @ ''@local'') (RemovePrincipal (''user:'' @ username) eng), db'')))))"

section \<open>Lemmas\<close>

lemma reinstate_noop: "list_ex live_admin (users db) \<Longrightarrow> snd (ReinstateAdminIfNoneRemain split fails now db) = db"
  by (simp add: ReinstateAdminIfNoneRemain_def split: option.splits)

lemma GetUser_None: "GetUser username db = None \<longleftrightarrow> (\<forall>u \<in> set (users db). u_username u = username \<longrightarrow> u_deleted_at u \<noteq> None)"
  by (auto simp: GetUser_def filter_empty_conv filter_eq_Cons_iff split: list.splits)

lemma GetUser_role:
  assumes "GetUser username db = Some r" "distinct (map u_username (users db))"
    "u \<in> set (users db)" "u_username u = username"
  shows "u_role u = ur_Role r"
proof -
  obtain v vs where v: "filter (\<lambda>u. u_username u = username \<and> u_deleted_at u = None) (users db) = v # vs"
      "ur_Role r = u_role v"
    using assms(1) by (auto simp: GetUser_def split: list.splits)
  then have "v \<in> set (users db)" "u_username v = username" by (auto simp: filter_eq_Cons_iff)
  moreover have "inj_on u_username (set (users db))" using assms(2) by (simp add: distinct_map)
  ultimately have "u = v" using assms(3,4) by (metis inj_onD)
  with v show ?thesis by simp
qed

lemma DeleteUser_users:
  "DeleteUser err now marker username db = (res, db') \<Longrightarrow> u \<in> set (users db) \<Longrightarrow> u_username u \<noteq> username \<Longrightarrow>
   u \<in> set (users db')"
  by (force simp: DeleteUser_def Let_def split: option.splits)

lemma newer_trans: "newer u v \<Longrightarrow> newer v w \<Longrightarrow> newer u w"
  by (auto simp: newer_def)

lemma newer_total: "u_username u \<noteq> u_username v \<Longrightarrow> newer u v \<or> newer v u"
  by (auto simp: newer_def)

lemma newer_irrefl: "\<not> (newer u v \<and> newer v u)"
  by (auto simp: newer_def)

lemma first_tombstone_None: "first_tombstone us = None \<longleftrightarrow> us = []"
  by (cases us) (auto split: option.splits)

lemma first_tombstone_least:
  "first_tombstone us = Some u \<Longrightarrow> distinct (map u_username us) \<Longrightarrow> u \<in> set us \<and> (\<forall>v \<in> set us. v \<noteq> u \<longrightarrow> newer u v)"
proof (induction us arbitrary: u)
  case (Cons x us)
  show ?case
  proof (cases "first_tombstone us")
    case None
    with Cons.prems show ?thesis by (simp add: first_tombstone_None)
  next
    case (Some v)
    with Cons have v: "v \<in> set us" "\<forall>w \<in> set us. w \<noteq> v \<longrightarrow> newer v w" by auto
    then have "u_username x \<noteq> u_username v" using Cons.prems(2) by (auto simp: rev_image_eqI)
    then have "newer x v \<or> newer v x" by (rule newer_total)
    with Some Cons.prems(1) v show ?thesis using newer_trans by (auto split: if_splits)
  qed
qed simp

lemma first_tombstone_set:
  assumes "set us = set vs" "distinct (map u_username us)" "distinct (map u_username vs)"
  shows "first_tombstone us = first_tombstone vs"
proof (cases "first_tombstone us")
  case None
  with assms(1) show ?thesis by (simp add: first_tombstone_None)
next
  case (Some u)
  moreover obtain v where "first_tombstone vs = Some v"
    using Some assms(1) by (cases "first_tombstone vs") (auto simp: first_tombstone_None)
  ultimately have "u = v \<or> newer u v \<and> newer v u"
    using first_tombstone_least [of us u] first_tombstone_least [of vs v] assms by metis
  then show ?thesis using Some \<open>first_tombstone vs = Some v\<close> newer_irrefl by auto
qed

lemma reactivate_live:
  "u \<in> set us \<Longrightarrow> list_ex (\<lambda>v. live_admin v \<and> u_username v = u_username u) (reactivate ''admin'' hash now (u_username u) us)"
  by (induction us) (auto simp: reactivate_def live_admin_def)

lemma ReinstateAdmin_reinstates:
  assumes "\<not> list_ex live_admin (users db)" "\<forall>n. fails n = None"
    "first_tombstone (filter (\<lambda>u. u_role u = ''admin'' \<and> u_deleted_at u \<noteq> None) (users db)) = Some u"
    "distinct (map u_username (users db))"
  shows "\<exists>db'. ReinstateAdminIfNoneRemain split fails now db = (Inr (u_username u), db') \<and>
    list_ex (\<lambda>v. live_admin v \<and> u_username v = u_username u) (users db')"
proof -
  have "u \<in> set (users db)"
    using first_tombstone_least [OF assms(3)] assms(4) by (simp add: distinct_map_filter)
  then show ?thesis
    using assms(1-3) reactivate_live by (simp add: ReinstateAdminIfNoneRemain_def Let_def)
qed

text \<open>Two periodic checks of one node, at \<open>t0\<close> and \<open>t1\<close>, the first having seen no shortage before.\<close>

definition floor_checks ::
  "bool \<Rightarrow> (nat \<Rightarrow> string option) \<Rightarrow> string \<Rightarrow> int \<Rightarrow> int \<Rightarrow> int \<Rightarrow> replicaFreshness \<Rightarrow> user_db \<Rightarrow> (string + string) \<times> int option \<times> user_db" where
  "floor_checks split fails ts t0 t1 settle fresh db =
     (case EnsureAdminFloor split fails ts t0 settle fresh None db of
        (_, zeroSince, db') \<Rightarrow> EnsureAdminFloor split fails ts t1 settle fresh zeroSince db')"

section \<open>Properties\<close>

text \<open>C29: deleting users never takes the last administrator of a replica. Whatever account
  \<open>DeleteUser\<close> is asked to remove, whichever of its reads and writes fail and however it answers, a
  replica that had a live administrator before the call has one after it.\<close>

theorem delete_keeps_an_admin:
  assumes "distinct (map u_username (users db))" "list_ex live_admin (users db)"
    and "DeleteUser_rpc split fails now now' marker c username eng db = (res, eng', db')"
  shows "list_ex live_admin (users db')"
proof (cases "db' = db")
  case False
  then obtain d where d: "DeleteUser (fails 2) now marker username db = (None, d)"
      "db' = snd (ReinstateAdminIfNoneRemain split (\<lambda>n. fails (3 + n)) now' d)"
    and ok: "\<And>target. GetUser username db = Some target \<Longrightarrow> ur_Role target = ''admin'' \<Longrightarrow> OtherLiveAdminExists username db"
    using assms(3)
    by (auto simp: DeleteUser_rpc_def DeleteUser_def Let_def split: option.splits if_splits)
  obtain a where a: "a \<in> set (users db)" "live_admin a" using assms(2) by (auto simp: list_ex_iff)
  have "\<exists>b \<in> set (users db). live_admin b \<and> u_username b \<noteq> username"
  proof (cases "GetUser username db")
    case None
    with a show ?thesis by (auto simp: GetUser_None live_admin_def)
  next
    case (Some target)
    show ?thesis
    proof (cases "u_username a = username")
      case True
      then have "OtherLiveAdminExists username db"
        using ok [OF Some] GetUser_role [OF Some assms(1) a(1)] a(2) by (simp add: live_admin_def)
      then show ?thesis by (auto simp: OtherLiveAdminExists_def list_ex_iff)
    qed (use a in blast)
  qed
  then have "list_ex live_admin (users d)" using DeleteUser_users [OF d(1)] by (auto simp: list_ex_iff)
  then show ?thesis using d(2) reinstate_noop by simp
qed (use assms in simp)

text \<open>C7: the admin floor repairs every replica, and the same way. Take two replicas that hold the
  same user rows, in whatever order, none of them a live administrator and one of them a deleted one.
  Two checks of a caught-up node at least the settle time apart reinstate an administrator, and both
  replicas reinstate the same account.\<close>

theorem admin_floor_converges:
  assumes "set (users db1) = set (users db2)" "distinct (map u_username (users db1))" "distinct (map u_username (users db2))"
    and "\<not> list_ex live_admin (users db1)" "list_ex (\<lambda>u. u_role u = ''admin'') (users db1)"
    and "f_caughtUp fresh1" "f_caughtUp fresh2" "settle \<le> t1 - t0" "settle \<le> t3 - t2"
  shows "\<exists>who db1' db2'.
    floor_checks split1 (\<lambda>_. None) ts1 t0 t1 settle fresh1 db1 = (Inr who, None, db1') \<and>
    floor_checks split2 (\<lambda>_. None) ts2 t2 t3 settle fresh2 db2 = (Inr who, None, db2') \<and>
    list_ex (\<lambda>u. live_admin u \<and> u_username u = who) (users db1') \<and>
    list_ex (\<lambda>u. live_admin u \<and> u_username u = who) (users db2')"
proof -
  let ?P = "\<lambda>u. u_role u = ''admin'' \<and> u_deleted_at u \<noteq> None"
  have no2: "\<not> list_ex live_admin (users db2)" using assms(1,4) by (auto simp: list_ex_iff)
  have "\<exists>u \<in> set (users db1). ?P u" using assms(4,5) by (auto simp: list_ex_iff live_admin_def)
  then obtain u where u1: "first_tombstone (filter ?P (users db1)) = Some u"
    by (cases "first_tombstone (filter ?P (users db1))") (auto simp: first_tombstone_None filter_empty_conv)
  moreover have "first_tombstone (filter ?P (users db2)) = first_tombstone (filter ?P (users db1))"
    by (rule first_tombstone_set) (use assms(1-3) in \<open>simp_all add: distinct_map_filter\<close>)
  ultimately have u2: "first_tombstone (filter ?P (users db2)) = Some u" by simp
  have run: "floor_checks split (\<lambda>_. None) ts a b settle fresh db =
      (case ReinstateAdminIfNoneRemain split (\<lambda>_. None) ts db of
         (Inl err, db') \<Rightarrow> (Inl err, Some a, db') | (Inr who, db') \<Rightarrow> (Inr who, None, db'))"
    if "\<not> list_ex live_admin (users db)" "f_caughtUp fresh" "settle \<le> b - a" for split ts a b fresh db
    using that by (simp add: floor_checks_def EnsureAdminFloor_def ReplicaCaughtUp_def)
  obtain db1' where "ReinstateAdminIfNoneRemain split1 (\<lambda>_. None) ts1 db1 = (Inr (u_username u), db1')"
      "list_ex (\<lambda>v. live_admin v \<and> u_username v = u_username u) (users db1')"
    using ReinstateAdmin_reinstates [OF assms(4) _ u1 assms(2), of "\<lambda>_. None" split1 ts1] by auto
  moreover obtain db2' where "ReinstateAdminIfNoneRemain split2 (\<lambda>_. None) ts2 db2 = (Inr (u_username u), db2')"
      "list_ex (\<lambda>v. live_admin v \<and> u_username v = u_username u) (users db2')"
    using ReinstateAdmin_reinstates [OF no2 _ u2 assms(3), of "\<lambda>_. None" split2 ts2] by auto
  ultimately show ?thesis
    using run [OF assms(4,6,8)] run [OF no2 assms(7,9)] by auto
qed

text \<open>A deleted user keeps no binding. After \<open>DeleteUser\<close> succeeds no binding of the engine names
  either form of the user's principal, and none does after any later reload of the tables it left.\<close>

theorem delete_revokes_bindings:
  assumes "DeleteUser_rpc split fails now now' marker c username eng db = (None, eng', db')"
    and "ids = [''user:'' @ username, ''user:'' @ username @ ''@local'']"
  shows "\<not> HasAnyBinding eng' ids \<and>
    \<not> HasAnyBinding (Some (snd (Reload rs (Inr (ListRoleBindings (auth_tables db'))) t NewEngine))) ids"
proof -
  from assms(1) obtain d where d: "DeleteUser (fails 2) now marker username db = (None, d)"
      "db' = snd (ReinstateAdminIfNoneRemain split (\<lambda>n. fails (3 + n)) now' d)"
    and e: "eng' = RemovePrincipal (''user:'' @ username @ ''@local'') (RemovePrincipal (''user:'' @ username) eng)"
    by (auto simp: DeleteUser_rpc_def Let_def split: option.splits if_splits prod.splits)
  have "auth_tables db' = auth_tables d"
    unfolding d(2) by (simp add: ReinstateAdminIfNoneRemain_def Let_def split: option.splits)
  also have "auth_tables d = tombstone_principals marker now (''user:'' @ username) (''user:'' @ username @ ''@local'') (auth_tables db)"
    using d(1) by (auto simp: DeleteUser_def Let_def split: option.splits)
  finally have "b_Principal b \<notin> set ids" if "b \<in> set (ListRoleBindings (auth_tables db'))" for b
    using that assms(2) by (auto simp: ListRoleBindings_def set_live tombstone_principals_def split: if_splits)
  then have "\<not> HasAnyBinding (Some (snd (Reload rs (Inr (ListRoleBindings (auth_tables db'))) t NewEngine))) ids"
    by (auto simp: HasAnyBinding_def Reload_def NewEngine_def list_ex_iff split: sum.splits)
  moreover have "policy eng' = {g \<in> policy eng. fst g \<notin> set ids}"
    unfolding e RemovePrincipal_def assms(2)
    by (subst policy_removeWhere [of _ "\<lambda>p. p \<noteq> ''user:'' @ username @ ''@local''"], simp,
        subst policy_removeWhere [of _ "\<lambda>p. p \<noteq> ''user:'' @ username"], simp) auto
  ultimately show ?thesis by (auto simp: HasAnyBinding_policy)
qed

definition demo_user :: "string \<Rightarrow> string option \<Rightarrow> user_row" where
  "demo_user name del = \<lparr>u_username = name, u_role = ''admin'', u_password_hash = ''h'', u_realm = ''local'',
     u_created_at = ''0'', u_updated_at = ''1'', u_deleted_at = del\<rparr>"

definition demo_users :: "user_row list \<Rightarrow> user_db" where
  "demo_users us = \<lparr>users = us, user_credentials = [], user_2fa = [], user_2fa_sets = [], recovery_codes = [],
     recovery_code_sets = [], auth_tables = demo_db\<rparr>"

definition demo_fresh :: replicaFreshness where
  "demo_fresh = \<lparr>f_gen = 1, f_caughtUp = True, f_peer = ''n2'', f_at = 0, f_staleReason = ''''\<rparr>"

theorem delete_keeps_an_admin_witness:
  "list_ex live_admin (users (snd (snd (DeleteUser_rpc False (\<lambda>_. None) ''2'' ''3'' ''2'' demo_admin ''alice'' None
     (demo_users [demo_user ''alice'' None, demo_user ''bob'' None])))))"
proof -
  let ?db = "demo_users [demo_user ''alice'' None, demo_user ''bob'' None]"
  have "distinct (map u_username (users ?db))" "list_ex live_admin (users ?db)" by code_simp+
  then show ?thesis
    using delete_keeps_an_admin [of ?db False "\<lambda>_. None" "''2''" "''3''" "''2''" demo_admin "''alice''" None]
    by (cases "DeleteUser_rpc False (\<lambda>_. None) ''2'' ''3'' ''2'' demo_admin ''alice'' None ?db") fastforce
qed

theorem admin_floor_converges_witness:
  "\<exists>who db1' db2'.
    floor_checks False (\<lambda>_. None) ''9'' 0 AdminFloorSettle AdminFloorSettle demo_fresh
      (demo_users [demo_user ''alice'' (Some ''5''), demo_user ''bob'' (Some ''6'')]) = (Inr who, None, db1') \<and>
    floor_checks True (\<lambda>_. None) ''9'' 7 (7 + AdminFloorSettle) AdminFloorSettle demo_fresh
      (demo_users [demo_user ''bob'' (Some ''6''), demo_user ''alice'' (Some ''5'')]) = (Inr who, None, db2')"
proof -
  let ?db1 = "demo_users [demo_user ''alice'' (Some ''5''), demo_user ''bob'' (Some ''6'')]"
  let ?db2 = "demo_users [demo_user ''bob'' (Some ''6''), demo_user ''alice'' (Some ''5'')]"
  have s: "set (users ?db1) = set (users ?db2)" by (auto simp: demo_users_def)
  have h: "distinct (map u_username (users ?db1))" "distinct (map u_username (users ?db2))"
    "\<not> list_ex live_admin (users ?db1)" "list_ex (\<lambda>u. u_role u = ''admin'') (users ?db1)" "f_caughtUp demo_fresh"
    by code_simp+
  show ?thesis
    using admin_floor_converges [OF s h(1-4) h(5) h(5), of AdminFloorSettle AdminFloorSettle 0 "7 + AdminFloorSettle" 7 False "''9''" True "''9''"]
    by auto
qed

theorem delete_revokes_bindings_witness:
  "\<not> HasAnyBinding (fst (snd (DeleteUser_rpc False (\<lambda>_. None) ''2'' ''3'' ''2'' demo_admin ''alice'' (demo_engine [demo_grant True])
     (demo_users [demo_user ''alice'' None, demo_user ''bob'' None])))) [''user:alice'', ''user:alice@local'']"
proof -
  let ?r = "DeleteUser_rpc False (\<lambda>_. None) ''2'' ''3'' ''2'' demo_admin ''alice'' (demo_engine [demo_grant True])
     (demo_users [demo_user ''alice'' None, demo_user ''bob'' None])"
  have "fst ?r = None" by code_simp
  then have "?r = (None, fst (snd ?r), snd (snd ?r))" by (metis prod.collapse)
  from delete_revokes_bindings [OF this refl, of "Inl ''x''" 0] show ?thesis by simp
qed

end
