(* ===== verification/ByteFile.thy ===== *)
theory ByteFile
  imports GoStrings
begin

text \<open>
  Files as the disk-image code uses them: bytes, the big-endian integers of \<^verbatim>\<open>encoding/binary\<close>, and
  random access by \<^verbatim>\<open>ReadAt\<close> and \<^verbatim>\<open>WriteAt\<close>. A file is the list of its bytes. A read that does not get
  all its bytes fails, as \<^verbatim>\<open>io.ReaderAt\<close> requires, and a write past the end fills the gap with
  zeros. Offsets are Go's \<^verbatim>\<open>int64\<close>: a negative one is refused, and no file grows past the largest.
\<close>

unbundle bit_operations_syntax

type_synonym byte = "8 word"
type_synonym u32 = "32 word"
type_synonym bfile = "byte list"

named_theorems image_simps "unfoldings the disk-image components share"

section \<open>Big-endian integers\<close>

primrec put_be :: "nat \<Rightarrow> 'a::len word \<Rightarrow> byte list" where
  "put_be 0 v = []"
| "put_be (Suc n) v = put_be n (drop_bit 8 v) @ [ucast v]"

definition get_be :: "byte list \<Rightarrow> 'a::len word" where
  "get_be bs = foldl (\<lambda>acc b. push_bit 8 acc OR ucast b) 0 bs"

definition PutUint16 :: "u16 \<Rightarrow> byte list" where
  "PutUint16 v = put_be 2 v"

definition PutUint32 :: "u32 \<Rightarrow> byte list" where
  "PutUint32 v = put_be 4 v"

definition PutUint64 :: "u64 \<Rightarrow> byte list" where
  "PutUint64 v = put_be 8 v"

definition Uint16 :: "byte list \<Rightarrow> u16" where
  "Uint16 bs = get_be (take 2 bs)"

definition Uint32 :: "byte list \<Rightarrow> u32" where
  "Uint32 bs = get_be (take 4 bs)"

definition Uint64 :: "byte list \<Rightarrow> u64" where
  "Uint64 bs = get_be (take 8 bs)"

lemma length_put_be [simp]: "length (put_be n v) = n"
  by (induction n arbitrary: v) auto

lemma get_be_snoc [simp]: "get_be (bs @ [b]) = push_bit 8 (get_be bs) OR ucast b"
  by (simp add: get_be_def)

lemma get_be_Nil [simp]: "get_be [] = 0"
  by (simp add: get_be_def)

lemma get_put_be: "get_be (put_be n v) = (take_bit (8 * n) v :: 'a::len word)"
proof (induction n arbitrary: v)
  case (Suc n)
  have "push_bit 8 (take_bit (8 * n) (drop_bit 8 v)) OR ucast (ucast v :: byte) = take_bit (8 + 8 * n) v"
    by (rule bit_word_eqI) (auto simp: bit_simps less_diff_conv)
  with Suc show ?case by simp
qed simp

lemma get_be_zeros [simp]: "get_be (replicate n 0) = 0"
  by (induction n) (auto simp: replicate_append_same [symmetric])

lemma length_Put [simp]:
  "length (PutUint16 v2) = 2" "length (PutUint32 v4) = 4" "length (PutUint64 v8) = 8"
  by (simp_all add: PutUint16_def PutUint32_def PutUint64_def)

lemma Uint16_PutUint16 [simp]: "Uint16 (PutUint16 v @ bs) = v"
  by (simp add: Uint16_def PutUint16_def get_put_be take_bit_word_eq_self)

lemma Uint32_PutUint32 [simp]: "Uint32 (PutUint32 v @ bs) = v"
  by (simp add: Uint32_def PutUint32_def get_put_be take_bit_word_eq_self)

lemma Uint64_PutUint64 [simp]: "Uint64 (PutUint64 v @ bs) = v"
  by (simp add: Uint64_def PutUint64_def get_put_be take_bit_word_eq_self)

lemmas Uint_Put [simp] =
  Uint16_PutUint16 [where bs = "[]", simplified]
  Uint32_PutUint32 [where bs = "[]", simplified]
  Uint64_PutUint64 [where bs = "[]", simplified]

section \<open>Slices\<close>

text \<open>Go's \<^verbatim>\<open>b[i:j]\<close>, and the assignment \<^verbatim>\<open>copy(b[i:], d)\<close> within bounds.\<close>

definition bslice :: "byte list \<Rightarrow> nat \<Rightarrow> nat \<Rightarrow> byte list" where
  "bslice b i j = take (j - i) (drop i b)"

definition bsplice :: "byte list \<Rightarrow> nat \<Rightarrow> byte list \<Rightarrow> byte list" where
  "bsplice b i d = take i b @ d @ drop (i + length d) b"

lemma length_bslice [simp]: "j \<le> length b \<Longrightarrow> length (bslice b i j) = j - i"
  by (simp add: bslice_def)

lemma nth_bslice [simp]: "j \<le> length b \<Longrightarrow> k < j - i \<Longrightarrow> bslice b i j ! k = b ! (i + k)"
  by (simp add: bslice_def)

lemma length_bsplice [simp]: "i + length d \<le> length b \<Longrightarrow> length (bsplice b i d) = length b"
  by (simp add: bsplice_def)

lemma nth_bsplice:
  "i + length d \<le> length b \<Longrightarrow> k < length b \<Longrightarrow>
    bsplice b i d ! k = (if i \<le> k \<and> k < i + length d then d ! (k - i) else b ! k)"
  by (auto simp: bsplice_def nth_append min_def)

section \<open>Random access\<close>

definition max_i64 :: int where
  "max_i64 = 2 ^ 63 - 1"

definition file_write :: "bfile \<Rightarrow> nat \<Rightarrow> byte list \<Rightarrow> bfile" where
  "file_write f p d =
     (if d = [] then f
      else take p f @ replicate (p - length f) 0 @ d @ drop (p + length d) f)"

definition ReadAt :: "bfile \<Rightarrow> int \<Rightarrow> nat \<Rightarrow> byte list option" where
  "ReadAt f off n =
     (if off < 0 then None
      else if n = 0 \<or> off + int n \<le> int (length f) then Some (bslice f (nat off) (nat off + n))
      else None)"

definition WriteAt :: "bfile \<Rightarrow> int \<Rightarrow> byte list \<Rightarrow> bfile option" where
  "WriteAt f off d =
     (if off < 0 \<or> off + int (length d) > max_i64 then None else Some (file_write f (nat off) d))"

lemma length_file_write [simp]:
  "length (file_write f p d) = (if d = [] then length f else max (length f) (p + length d))"
  by (auto simp: file_write_def)

lemma nth_file_write:
  "k < length (file_write f p d) \<Longrightarrow> file_write f p d ! k =
     (if p \<le> k \<and> k < p + length d then d ! (k - p) else if k < length f then f ! k else 0)"
  by (auto simp: file_write_def nth_append min_def not_less)

text \<open>What a client of a file may rely on: its length, and every byte, after a write.\<close>

locale random_access =
  fixes len :: "'f \<Rightarrow> nat" and at :: "'f \<Rightarrow> nat \<Rightarrow> byte" and wr :: "'f \<Rightarrow> nat \<Rightarrow> byte list \<Rightarrow> 'f"
  assumes len_wr: "d \<noteq> [] \<Longrightarrow> len (wr f p d) = max (len f) (p + length d)"
    and at_wr: "d \<noteq> [] \<Longrightarrow> k < max (len f) (p + length d) \<Longrightarrow>
      at (wr f p d) k =
        (if p \<le> k \<and> k < p + length d then d ! (k - p) else if k < len f then at f k else 0)"
begin

text \<open>\<open>holds f p d\<close>: the bytes from offset \<open>p\<close> on are \<open>d\<close>.\<close>

definition holds :: "'f \<Rightarrow> nat \<Rightarrow> byte list \<Rightarrow> bool" where
  "holds f p d \<longleftrightarrow> p + length d \<le> len f \<and> (\<forall>k < length d. at f (p + k) = d ! k)"

lemma holds_written: "d \<noteq> [] \<Longrightarrow> holds (wr f p d) p d"
  by (simp add: holds_def len_wr at_wr)

lemma holds_kept:
  assumes "holds f p d" "q + length e \<le> p \<or> p + length d \<le> q" "e \<noteq> []"
  shows "holds (wr f q e) p d"
  using assms by (auto simp: holds_def len_wr at_wr)

lemma holds_append: "holds f p (d @ e) \<longleftrightarrow> holds f p d \<and> holds f (p + length d) e"
proof -
  have "(\<forall>k < length d + length e. at f (p + k) = (d @ e) ! k) \<longleftrightarrow>
        (\<forall>k < length d. at f (p + k) = d ! k) \<and> (\<forall>k < length e. at f (p + (length d + k)) = e ! k)"
    (is "?l \<longleftrightarrow> ?r")
  proof
    assume l: ?l
    have "at f (p + k) = d ! k" if "k < length d" for k
      using l [rule_format, of k] that by (simp add: nth_append)
    moreover have "at f (p + (length d + k)) = e ! k" if "k < length e" for k
      using l [rule_format, of "length d + k"] that by (simp add: nth_append)
    ultimately show ?r by blast
  next
    assume r: ?r
    show ?l
    proof (intro allI impI)
      fix k assume "k < length d + length e"
      then show "at f (p + k) = (d @ e) ! k"
        using r [THEN conjunct2, rule_format, of "k - length d"] r by (cases "k < length d") (auto simp: nth_append)
    qed
  qed
  then show ?thesis by (auto simp: holds_def add.assoc)
qed

lemma holds_zero_gap:
  "d \<noteq> [] \<Longrightarrow> len f \<le> p \<Longrightarrow> p + n \<le> q \<Longrightarrow> holds (wr f q d) p (replicate n 0)"
  by (auto simp: holds_def len_wr at_wr)

end

interpretation bf: random_access length "(!)" file_write
  by unfold_locales (simp_all add: nth_file_write)

lemma holds_slice: "bf.holds f p d \<longleftrightarrow> p + length d \<le> length f \<and> bslice f p (p + length d) = d"
  by (auto simp: bf.holds_def bslice_def list_eq_iff_nth_eq)

lemma ReadAt_holds: "bf.holds f p d \<Longrightarrow> ReadAt f (int p) (length d) = Some d"
  by (auto simp: holds_slice ReadAt_def)

lemma ReadAt_SomeD: "ReadAt f off n = Some d \<Longrightarrow> length d = n \<and> 0 \<le> off"
  by (auto simp: ReadAt_def bslice_def split: if_splits)

lemma ReadAt_Some_holds: "ReadAt f off n = Some d \<Longrightarrow> 0 < n \<Longrightarrow> bf.holds f (nat off) d"
  by (auto simp: ReadAt_def holds_slice split: if_splits)

lemma ReadAt_total: "0 \<le> off \<Longrightarrow> off + int n \<le> int (length f) \<Longrightarrow> ReadAt f off n = Some (bslice f (nat off) (nat off + n))"
  by (simp add: ReadAt_def)

lemma WriteAt_Some: "0 \<le> off \<Longrightarrow> off + int (length d) \<le> max_i64 \<Longrightarrow> WriteAt f off d = Some (file_write f (nat off) d)"
  by (simp add: WriteAt_def)

section \<open>Text in bytes\<close>

definition byte_of :: "char \<Rightarrow> byte" where
  "byte_of c = of_nat (of_char c)"

definition char_of_byte :: "byte \<Rightarrow> char" where
  "char_of_byte b = char_of (unat b)"

text \<open>Go's conversions \<^verbatim>\<open>[]byte(s)\<close> and \<^verbatim>\<open>string(b)\<close>.\<close>

definition to_bytes :: "string \<Rightarrow> byte list" where
  "to_bytes s = map byte_of s"

definition of_bytes :: "byte list \<Rightarrow> string" where
  "of_bytes b = map char_of_byte b"

lemma length_to_bytes [simp]: "length (to_bytes s) = length s"
  by (simp add: to_bytes_def)

lemma to_bytes_Nil_iff [simp]: "to_bytes s = [] \<longleftrightarrow> s = []"
  by (simp add: to_bytes_def)

lemma char_of_byte_of [simp]: "char_of_byte (byte_of c) = c"
proof -
  have "unat (of_nat (of_char c) :: byte) = (of_char c :: nat)"
    by (simp add: unat_of_nat)
  then show ?thesis by (simp add: char_of_byte_def byte_of_def)
qed

lemma of_bytes_to_bytes [simp]: "of_bytes (to_bytes s) = s"
  by (simp add: of_bytes_def to_bytes_def comp_def)

end
