(* ===== verification/Qcow2Header.thy ===== *)
theory Qcow2Header
  imports ByteFile
begin

text \<open>
  The header of a qcow2 image, from \<^verbatim>\<open>internal/qcow2\<close>: options (\<^verbatim>\<open>header.go\<close>), the header's
  104 bytes and the checks that guard everything a header controls, header extensions
  (\<^verbatim>\<open>headerext.go\<close>, \<^verbatim>\<open>info.go\<close>) and the refusal of images that name other files (\<^verbatim>\<open>standalone.go\<close>).

  A field keeps its width, so sums and products wrap as they do in Go; a call on a path is a function
  of the content of the file there.
\<close>

section \<open>Constants and options\<close>

definition Magic :: u32 where
  "Magic = 0x514649fb"

definition Version :: u32 where
  "Version = 3"

definition DefaultClusterBits :: u32 where
  "DefaultClusterBits = 16"

definition DefaultRefcountOrder :: u32 where
  "DefaultRefcountOrder = 4"

definition ExtBackingFormat :: u32 where
  "ExtBackingFormat = 0xE2792ACA"

definition ExtEndOfArea :: u32 where
  "ExtEndOfArea = 0"

definition maxL1TableBytes :: u64 where
  "maxL1TableBytes = push_bit 20 64"

record Options =
  o_ClusterBits :: u32
  o_RefcountOrder :: u32

definition clusterBits :: "Options option \<Rightarrow> u32" where
  "clusterBits opts =
     (case opts of
        Some p \<Rightarrow> if o_ClusterBits p \<ge> 9 \<and> o_ClusterBits p \<le> 21 then o_ClusterBits p else DefaultClusterBits
      | None \<Rightarrow> DefaultClusterBits)"

definition refcountOrder :: "Options option \<Rightarrow> u32" where
  "refcountOrder opts =
     (case opts of
        Some p \<Rightarrow> if o_RefcountOrder p \<ge> 1 \<and> o_RefcountOrder p \<le> 6 then o_RefcountOrder p else DefaultRefcountOrder
      | None \<Rightarrow> DefaultRefcountOrder)"

definition clusterSize :: "Options option \<Rightarrow> u64" where
  "clusterSize opts = push_bit (unat (clusterBits opts)) 1"

section \<open>The header\<close>

record Header =
  h_Magic :: u32
  h_Version :: u32
  h_BackingFileOffset :: u64
  h_BackingFileSize :: u32
  h_ClusterBits :: u32
  h_Size :: u64
  h_CryptMethod :: u32
  h_L1Size :: u32
  h_L1TableOffset :: u64
  h_RefcountTableOffset :: u64
  h_RefcountTableClusters :: u32
  h_NbSnapshots :: u32
  h_SnapshotsOffset :: u64
  h_IncompatibleFeatures :: u64
  h_CompatibleFeatures :: u64
  h_AutoclearFeatures :: u64
  h_RefcountOrder :: u32
  h_HeaderLength :: u32

definition ClusterSize :: "Header \<Rightarrow> u64" where
  "ClusterSize h = push_bit (unat (h_ClusterBits h)) 1"

datatype qerr =
    ReadFailed
  | WriteFailed
  | NotQcow2 u32
  | UnsupportedVersion u32
  | InvalidClusterBits u32
  | BackingOutsideFirstCluster u64 u64
  | L1TableTooLarge u64
  | InvalidL1Size u32 u64 u64
  | RangeExceedsFile string u64 u64
  | L1OffsetZero u32
  | NotAnImage
  | TruncatedHeader
  | ExtensionsPastHead
  | TooManyExtensions
  | NamesBackingFile
  | NamesExternalData
  | VmdkRefused

definition decode_header :: "byte list \<Rightarrow> Header" where
  "decode_header buf =
     \<lparr>h_Magic = Uint32 (bslice buf 0 4),
      h_Version = Uint32 (bslice buf 4 8),
      h_BackingFileOffset = Uint64 (bslice buf 8 16),
      h_BackingFileSize = Uint32 (bslice buf 16 20),
      h_ClusterBits = Uint32 (bslice buf 20 24),
      h_Size = Uint64 (bslice buf 24 32),
      h_CryptMethod = Uint32 (bslice buf 32 36),
      h_L1Size = Uint32 (bslice buf 36 40),
      h_L1TableOffset = Uint64 (bslice buf 40 48),
      h_RefcountTableOffset = Uint64 (bslice buf 48 56),
      h_RefcountTableClusters = Uint32 (bslice buf 56 60),
      h_NbSnapshots = Uint32 (bslice buf 60 64),
      h_SnapshotsOffset = Uint64 (bslice buf 64 72),
      h_IncompatibleFeatures = Uint64 (bslice buf 72 80),
      h_CompatibleFeatures = Uint64 (bslice buf 80 88),
      h_AutoclearFeatures = Uint64 (bslice buf 88 96),
      h_RefcountOrder = Uint32 (bslice buf 96 100),
      h_HeaderLength = Uint32 (bslice buf 100 104)\<rparr>"

text \<open>The tests of \<^verbatim>\<open>readHeader\<close>, in their order, on the decoded fields.\<close>

definition header_error :: "Header \<Rightarrow> qerr option" where
  "header_error h =
     (let cs = ClusterSize h;
          bend = h_BackingFileOffset h + ucast (h_BackingFileSize h);
          l2Coverage = cs * (cs div 8);
          requiredL1 = h_Size h div l2Coverage + (if h_Size h mod l2Coverage \<noteq> 0 then 1 else 0) in
      if h_Magic h \<noteq> Magic then Some (NotQcow2 (h_Magic h))
      else if h_Version h < 2 \<or> h_Version h > 3 then Some (UnsupportedVersion (h_Version h))
      else if h_ClusterBits h < 9 \<or> h_ClusterBits h > 21 then Some (InvalidClusterBits (h_ClusterBits h))
      else if h_BackingFileSize h > 0 \<and>
          (h_BackingFileOffset h = 0 \<or> bend < h_BackingFileOffset h \<or> bend > cs)
        then Some (BackingOutsideFirstCluster (h_BackingFileOffset h) bend)
      else if ucast (h_L1Size h) * 8 > maxL1TableBytes then Some (L1TableTooLarge (ucast (h_L1Size h) * 8))
      else if h_Size h > 0 \<and> (requiredL1 > ucast (NOT 0 :: u32) \<or> ucast (h_L1Size h) < requiredL1)
        then Some (InvalidL1Size (h_L1Size h) (h_Size h) requiredL1)
      else None)"

definition readHeader :: "bfile \<Rightarrow> qerr + Header" where
  "readHeader f =
     (case ReadAt f 0 104 of
        None \<Rightarrow> Inl ReadFailed
      | Some buf \<Rightarrow>
          let h = decode_header buf in
          case header_error h of Some e \<Rightarrow> Inl e | None \<Rightarrow> Inr h)"

definition checkRange :: "int \<Rightarrow> string \<Rightarrow> u64 \<Rightarrow> u64 \<Rightarrow> qerr option" where
  "checkRange fileSize name off n =
     (let rend = off + n in
      if rend < off \<or> rend > word_of_int fileSize then Some (RangeExceedsFile name off rend) else None)"

definition validateHeaderRanges :: "Header \<Rightarrow> int \<Rightarrow> qerr option" where
  "validateHeaderRanges h fileSize =
     (if fileSize < 0 then Some ReadFailed
      else
        case (if h_BackingFileSize h > 0
              then checkRange fileSize ''backing file path'' (h_BackingFileOffset h) (ucast (h_BackingFileSize h))
              else None) of
          Some e \<Rightarrow> Some e
        | None \<Rightarrow>
            if h_L1Size h > 0 then
              if h_L1TableOffset h = 0 then Some (L1OffsetZero (h_L1Size h))
              else checkRange fileSize ''L1 table'' (h_L1TableOffset h) (ucast (h_L1Size h) * 8)
            else None)"

definition encode_header :: "Header \<Rightarrow> byte list" where
  "encode_header h =
     PutUint32 (h_Magic h) @ PutUint32 (h_Version h) @ PutUint64 (h_BackingFileOffset h) @
     PutUint32 (h_BackingFileSize h) @ PutUint32 (h_ClusterBits h) @ PutUint64 (h_Size h) @
     PutUint32 (h_CryptMethod h) @ PutUint32 (h_L1Size h) @ PutUint64 (h_L1TableOffset h) @
     PutUint64 (h_RefcountTableOffset h) @ PutUint32 (h_RefcountTableClusters h) @
     PutUint32 (h_NbSnapshots h) @ PutUint64 (h_SnapshotsOffset h) @
     PutUint64 (h_IncompatibleFeatures h) @ PutUint64 (h_CompatibleFeatures h) @
     PutUint64 (h_AutoclearFeatures h) @ PutUint32 (h_RefcountOrder h) @ PutUint32 (h_HeaderLength h)"

definition writeHeader :: "bfile \<Rightarrow> Header \<Rightarrow> bfile option" where
  "writeHeader f h = WriteAt f 0 (encode_header h)"

text \<open>Rounding up to a multiple of 8, on a Go \<^verbatim>\<open>int\<close>: \<^verbatim>\<open>(n + 7) &^ 7\<close>.\<close>

definition extension_bytes :: "u32 \<Rightarrow> byte list \<Rightarrow> byte list" where
  "extension_bytes extType d =
     (let padded = (length d + 7) div 8 * 8 in
      PutUint32 extType @ PutUint32 (of_nat (length d)) @ d @ replicate (padded - length d) 0)"

definition writeHeaderExtension :: "bfile \<Rightarrow> int \<Rightarrow> u32 \<Rightarrow> byte list \<Rightarrow> (bfile \<times> int) option" where
  "writeHeaderExtension f off extType d =
     map_option (\<lambda>f'. (f', int (length (extension_bytes extType d)))) (WriteAt f off (extension_bytes extType d))"

definition writeEndOfExtensions :: "bfile \<Rightarrow> int \<Rightarrow> bfile option" where
  "writeEndOfExtensions f off = WriteAt f off (replicate 8 0)"

definition l1Entries :: "u64 \<Rightarrow> u64 \<Rightarrow> u32" where
  "l1Entries virtualSize cs =
     (let l2Coverage = cs * (cs div 8);
          n = (virtualSize + l2Coverage - 1) div l2Coverage in
      ucast (if n = 0 then 1 else n))"

section \<open>Metadata of an image\<close>

record ImageInfo =
  i_VirtualSize :: u64
  i_ClusterSize :: u32
  i_BackingFile :: string
  i_BackingFormat :: string
  i_ActualSize :: int

text \<open>The offset at which a header's extensions start, as an \<^verbatim>\<open>int64\<close>.\<close>

definition extensions_start :: "u32 \<Rightarrow> u32 \<Rightarrow> int" where
  "extensions_start version headerLength =
     (if version \<ge> 3 then if uint headerLength < 104 then 104 else uint headerLength else 72)"

definition pad8 :: "u32 \<Rightarrow> u32" where
  "pad8 n = (n + 7) AND NOT 7"

function scan_extensions :: "bfile \<Rightarrow> int \<Rightarrow> int \<Rightarrow> string" where
  "scan_extensions f off clusterEnd =
     (if off + 8 \<le> clusterEnd then
        case ReadAt f off 8 of
          None \<Rightarrow> ''''
        | Some hdr \<Rightarrow>
            let extType = Uint32 (bslice hdr 0 4); extLen = Uint32 (bslice hdr 4 8) in
            if extType = ExtEndOfArea then ''''
            else
              let rest = scan_extensions f (off + 8 + uint (pad8 extLen)) clusterEnd in
              if extType = ExtBackingFormat \<and> extLen > 0 \<and> extLen < 256 then
                case ReadAt f (off + 8) (unat extLen) of Some d \<Rightarrow> of_bytes d | None \<Rightarrow> rest
              else rest
      else '''')"
  by pat_completeness auto
termination
  by (relation "measure (\<lambda>(f, off, e). nat (e - off))") (auto intro: order_less_le_trans [of _ 0])

declare scan_extensions.simps [simp del]

definition readBackingFormat :: "bfile \<Rightarrow> Header \<Rightarrow> string" where
  "readBackingFormat f h =
     scan_extensions f (extensions_start (h_Version h) (h_HeaderLength h)) (uint (ClusterSize h))"

definition Info :: "bfile \<Rightarrow> qerr + ImageInfo" where
  "Info f =
     (case readHeader f of
        Inl e \<Rightarrow> Inl e
      | Inr h \<Rightarrow>
          case validateHeaderRanges h (int (length f)) of
            Some e \<Rightarrow> Inl e
          | None \<Rightarrow>
              let finish = (\<lambda>backing. Inr
                    \<lparr>i_VirtualSize = h_Size h, i_ClusterSize = ucast (ClusterSize h), i_BackingFile = backing,
                     i_BackingFormat = readBackingFormat f h, i_ActualSize = int (length f)\<rparr>) in
              if h_BackingFileOffset h > 0 \<and> h_BackingFileSize h > 0 then
                case ReadAt f (sint (h_BackingFileOffset h)) (unat (h_BackingFileSize h)) of
                  None \<Rightarrow> Inl ReadFailed
                | Some buf \<Rightarrow> finish (of_bytes buf)
              else finish '''')"

section \<open>Images that name other files\<close>

text \<open>The first 4 KiB of a file, or all of a shorter one: a read that ends early is no error there.\<close>

definition image_head :: "bfile \<Rightarrow> byte list" where
  "image_head f = take 4096 f"

text \<open>The walks visit at most 64 extensions, the bound of the source's loops.\<close>

primrec count_extensions :: "nat \<Rightarrow> byte list \<Rightarrow> int \<Rightarrow> int \<Rightarrow> qerr + int" where
  "count_extensions 0 head off count = Inl TooManyExtensions"
| "count_extensions (Suc k) head off count =
     (if off + 8 > int (length head) then Inl ExtensionsPastHead
      else
        let p = nat off; typ = Uint32 (bslice head p (p + 4)); l = uint (Uint32 (bslice head (p + 4) (p + 8))) in
        if typ = 0 then Inr count
        else count_extensions k head (off + (8 + (l + 7) div 8 * 8))
               (if typ = ExtBackingFormat then count + 1 else count))"

definition BackingFormatExtensionCount :: "bfile \<Rightarrow> qerr + int" where
  "BackingFormatExtensionCount f =
     (let head = image_head f in
      if length head < 72 \<or> Uint32 (bslice head 0 4) \<noteq> Magic then Inl NotAnImage
      else if Uint32 (bslice head 4 8) \<ge> 3 then
        if length head < 104 then Inl TruncatedHeader
        else count_extensions 64 head (extensions_start 3 (Uint32 (bslice head 100 104))) 0
      else count_extensions 64 head 72 0)"

primrec find_extension :: "nat \<Rightarrow> byte list \<Rightarrow> int \<Rightarrow> u32 \<Rightarrow> bool" where
  "find_extension 0 head off want = True"
| "find_extension (Suc k) head off want =
     (if off + 8 > int (length head) then True
      else
        let p = nat off; typ = Uint32 (bslice head p (p + 4)); n = uint (Uint32 (bslice head (p + 4) (p + 8))) in
        if typ = 0 then False
        else if typ = want then True
        else find_extension k head (off + (8 + (n + 7) div 8 * 8)) want)"

definition hasHeaderExtension :: "byte list \<Rightarrow> int \<Rightarrow> u32 \<Rightarrow> bool" where
  "hasHeaderExtension head headerLen want =
     find_extension 64 head (if headerLen < 104 then 104 else headerLen) want"

definition extDataFileName :: u32 where
  "extDataFileName = 0x44415441"

definition incompatExternalDataFile :: u64 where
  "incompatExternalDataFile = push_bit 2 1"

definition noExternalData :: "byte list \<Rightarrow> qerr option" where
  "noExternalData head =
     (if Uint32 (bslice head 4 8) < 3 then None
      else if length head < 104 then Some TruncatedHeader
      else if Uint64 (bslice head 72 80) AND incompatExternalDataFile \<noteq> 0 then Some NamesExternalData
      else if hasHeaderExtension head (uint (Uint32 (bslice head 100 104))) extDataFileName then Some NamesExternalData
      else None)"

definition AssertStandalone :: "bfile \<Rightarrow> qerr option" where
  "AssertStandalone f =
     (let head = image_head f in
      if length head \<ge> 4 \<and> Uint32 (bslice head 0 4) = Magic then
        if length head < 20 then Some TruncatedHeader
        else if Uint64 (bslice head 8 16) \<noteq> 0 \<or> Uint32 (bslice head 16 20) \<noteq> 0 then Some NamesBackingFile
        else noExternalData head
      else if prefix (to_bytes ''KDMV'') head \<or> sublist (to_bytes ''# Disk DescriptorFile'') head then Some VmdkRefused
      else None)"

definition AssertNoExternalData :: "bfile \<Rightarrow> qerr option" where
  "AssertNoExternalData f =
     (let head = image_head f in
      if length head < 4 \<or> Uint32 (bslice head 0 4) \<noteq> Magic then None
      else if length head < 20 then Some TruncatedHeader
      else noExternalData head)"

section \<open>The header round trip\<close>

lemma length_encode_header [simp]: "length (encode_header h) = 104"
  by (simp add: encode_header_def)

lemma decode_encode_header: "decode_header (encode_header h) = h"
  by (simp add: decode_header_def encode_header_def bslice_def)

text \<open>Well-formed cluster bits, and the cluster size they give.\<close>

lemma unat_lt_64: "unat (x :: u64) < 18446744073709551616"
proof -
  have "unat x < 2 ^ LENGTH(64)" by (rule unsigned_less)
  then show ?thesis by simp
qed

lemma unat_exp_64 [simp]: "n < 64 \<Longrightarrow> unat (2 ^ n :: u64) = 2 ^ n"
proof -
  assume "n < 64"
  then have "(2 :: nat) ^ n < 2 ^ 64" by (intro power_strict_increasing) simp_all
  moreover have "(2 ^ n :: u64) = of_nat (2 ^ n)" by simp
  ultimately show ?thesis by (simp only: unat_of_nat) simp
qed

lemma clusterBits_bounds: "9 \<le> unat (clusterBits opts) \<and> unat (clusterBits opts) \<le> 21"
  by (auto simp: clusterBits_def DefaultClusterBits_def word_le_nat_alt split: option.splits)

lemma refcountOrder_bounds: "1 \<le> unat (refcountOrder opts) \<and> unat (refcountOrder opts) \<le> 6"
  by (auto simp: refcountOrder_def DefaultRefcountOrder_def word_le_nat_alt split: option.splits)

lemma ReadAt_start: "ReadAt f 0 n = (if n = 0 \<or> n \<le> length f then Some (take n f) else None)"
  by (auto simp: ReadAt_def bslice_def)

text \<open>C37: Writing a header and reading the file back gives the same header, or exactly the error its
  fields deserve; the rest of the file is untouched.
\<close>

theorem header_roundtrip:
  "\<exists>f'. writeHeader f h = Some f' \<and>
     readHeader f' = (case header_error h of None \<Rightarrow> Inr h | Some e \<Rightarrow> Inl e) \<and>
     drop 104 f' = drop 104 f"
proof -
  let ?f = "encode_header h @ drop 104 f"
  have ne: "encode_header h \<noteq> []" by (metis length_encode_header list.size(3) zero_neq_numeral)
  have w: "writeHeader f h = Some ?f"
    by (simp add: writeHeader_def WriteAt_def max_i64_def file_write_def ne)
  have "ReadAt ?f 0 104 = Some (encode_header h)" by (simp add: ReadAt_start)
  then show ?thesis
    using w by (auto simp: readHeader_def decode_encode_header split: option.splits)
qed

lemma readHeader_ok: "readHeader f = Inr h \<longleftrightarrow> 104 \<le> length f \<and> h = decode_header (take 104 f) \<and> header_error h = None"
  by (auto simp: readHeader_def ReadAt_start Let_def split: if_splits option.splits)

lemma unat_ucast_32_64 [simp]: "unat (ucast (x :: u32) :: u64) = unat x"
proof -
  have "unat x < 2 ^ 32" using unsigned_less [of x] by simp
  then show ?thesis by (simp add: unsigned_ucast_eq take_bit_nat_eq_self)
qed

lemma unat_l1_bytes: "unat (ucast (x :: u32) * 8 :: u64) = unat x * 8"
proof -
  have "unat x < 2 ^ 32" using unsigned_less [of x] by simp
  then show ?thesis by (simp add: unat_mult_lem [THEN iffD1])
qed

lemma header_error_None:
  assumes "header_error h = None"
  shows "h_Magic h = Magic" "9 \<le> unat (h_ClusterBits h)" "unat (h_ClusterBits h) \<le> 21"
    "unat (ucast (h_L1Size h) * 8 :: u64) \<le> unat maxL1TableBytes"
  using assms
  by (auto simp: header_error_def Let_def word_le_nat_alt word_less_nat_alt not_less split: if_splits)

text \<open>Cluster sizes are powers of two between 512 bytes and 2 MiB, and one L2 table covers \<open>2 ^ (2 k - 3)\<close> bytes.\<close>

lemma unat_coverage:
  assumes "9 \<le> k" "k \<le> 21"
  shows "unat (push_bit k 1 * (push_bit k 1 div 8) :: u64) = 2 ^ (2 * k - 3)"
proof -
  have a: "unat (push_bit k 1 :: u64) = 2 ^ k" using assms by simp
  have "(2 :: nat) ^ k = 2 ^ (k - 3) * 8"
    using assms power_add [of "2 :: nat" "k - 3" 3] by simp
  then have b: "unat (push_bit k 1 div 8 :: u64) = 2 ^ (k - 3)" unfolding unat_div a by simp
  have c: "(2 :: nat) ^ k * 2 ^ (k - 3) = 2 ^ (2 * k - 3)"
    using assms by (simp add: power_add [symmetric])
  moreover have "(2 :: nat) ^ (2 * k - 3) < 2 ^ 64" using assms by (intro power_strict_increasing) simp_all
  ultimately have "unat (push_bit k 1 :: u64) * unat (push_bit k 1 div 8 :: u64) < 2 ^ LENGTH(64)"
    unfolding a b c by simp
  then have "unat (push_bit k 1 * (push_bit k 1 div 8) :: u64) = unat (push_bit k 1 :: u64) * unat (push_bit k 1 div 8 :: u64)"
    by (rule unat_mult_lem [THEN iffD1])
  then show ?thesis unfolding a b c .
qed

definition coverage :: "Header \<Rightarrow> nat" where
  "coverage h = 2 ^ (2 * unat (h_ClusterBits h) - 3)"

lemma ceil_div_eq:
  fixes n :: nat
  assumes "0 < d"
  shows "n div d + (if n mod d \<noteq> 0 then 1 else 0) = (n + d - 1) div d"
proof (cases "n mod d = 0")
  case True
  then obtain q where "n = d * q" by auto
  moreover have "(d * q + d - 1) div d = q + (d - 1) div d"
    using assms by (metis Nat.add_diff_assoc One_nat_def Suc_leI div_mult_self4 less_not_refl mult.commute)
  ultimately show ?thesis using assms by simp
next
  case False
  define q r where "q = n div d" and "r = n mod d"
  have n: "n = d * q + r" "r < d" "0 < r" using assms False by (auto simp: q_def r_def)
  have "n + d - 1 = (r - 1) + d * (q + 1)" using n by (simp add: algebra_simps)
  then have "(n + d - 1) div d = q + 1"
    using n assms div_mult_self2 [of d "r - 1" "q + 1"] by (simp del: mult_Suc_right)
  then show ?thesis using False by (simp add: q_def)
qed

lemma le_ceil_mult:
  fixes n :: nat
  assumes "0 < d" shows "n \<le> (n + d - 1) div d * d"
proof -
  define q r where "q = n div d" and "r = n mod d"
  have n: "n = d * q + r" "r < d" using assms by (auto simp: q_def r_def)
  then have "n \<le> (q + (if r \<noteq> 0 then 1 else 0)) * d" by (simp add: algebra_simps)
  then show ?thesis unfolding q_def r_def ceil_div_eq [OF assms] .
qed

lemma unat_required:
  fixes n c :: u64
  assumes "1 < unat c"
  shows "unat (n div c + (if n mod c \<noteq> 0 then 1 else 0)) = (unat n + unat c - 1) div unat c"
proof -
  have "unat n div unat c + 1 \<le> unat n div 2 + 1" using assms by (simp add: div_le_mono2)
  also have "\<dots> < 2 ^ 64" using unat_lt_64 [of n] by simp
  finally have "unat n div unat c + 1 < 2 ^ 64" .
  then have "unat (n div c + (if n mod c \<noteq> 0 then 1 else 0)) =
      unat n div unat c + (if unat n mod unat c \<noteq> 0 then 1 else 0)"
    by (auto simp: unat_add_lem [THEN iffD1] unat_div unat_mod unat_eq_zero [symmetric] simp del: unat_eq_zero)
  then show ?thesis using assms by (simp only: ceil_div_eq)
qed

lemma unat_ceil:
  fixes x d :: u64
  assumes "unat x + unat d < 2 ^ 64" "0 < unat d"
  shows "unat ((x + d - 1) div d) = (unat x + unat d - 1) div unat d"
proof -
  have s: "unat (x + d) = unat x + unat d" using assms(1) by (simp add: unat_add_lem [THEN iffD1])
  then have "1 \<le> x + d" using assms(2) by (simp add: word_le_nat_alt)
  then have "unat (x + d - 1) = unat x + unat d - 1" using s unat_sub [of 1 "x + d"] by simp
  then show ?thesis by (simp add: unat_div)
qed

lemma ClusterSize_bounds:
  assumes "header_error h = None"
  shows "unat (ClusterSize h) = 2 ^ unat (h_ClusterBits h)" "512 \<le> unat (ClusterSize h)" "unat (ClusterSize h) \<le> 2097152"
proof -
  note b = header_error_None(2,3) [OF assms]
  show u: "unat (ClusterSize h) = 2 ^ unat (h_ClusterBits h)" using b by (simp add: ClusterSize_def)
  have "(2 :: nat) ^ 9 \<le> 2 ^ unat (h_ClusterBits h)" by (rule power_increasing) (use b in simp_all)
  then show "512 \<le> unat (ClusterSize h)" by (simp add: u)
  have "(2 :: nat) ^ unat (h_ClusterBits h) \<le> 2 ^ 21" by (rule power_increasing) (use b in simp_all)
  then show "unat (ClusterSize h) \<le> 2097152" by (simp add: u)
qed

lemma coverage_gt_1: "header_error h = None \<Longrightarrow> 1 < coverage h"
  unfolding coverage_def by (rule one_less_power) (use header_error_None(2) [of h] in simp_all)

lemma header_error_covers:
  assumes "header_error h = None" "0 < h_Size h"
  shows "unat (h_Size h) \<le> unat (h_L1Size h) * coverage h"
proof -
  let ?c = "ClusterSize h * (ClusterSize h div 8)"
  let ?req = "h_Size h div ?c + (if h_Size h mod ?c \<noteq> 0 then 1 else 0)"
  have c: "unat ?c = coverage h"
    using unat_coverage [OF header_error_None(2,3) [OF assms(1)]] by (simp add: ClusterSize_def coverage_def)
  have "\<not> (ucast (h_L1Size h) < ?req)"
    using assms by (simp add: header_error_def Let_def split: if_splits)
  then have "unat ?req \<le> unat (h_L1Size h)" by (simp add: word_less_nat_alt not_less)
  moreover have "unat ?req = (unat (h_Size h) + coverage h - 1) div coverage h"
    using unat_required [of ?c "h_Size h"] coverage_gt_1 [OF assms(1)] by (simp only: c)
  ultimately have "(unat (h_Size h) + coverage h - 1) div coverage h * coverage h \<le> unat (h_L1Size h) * coverage h"
    by (simp only: mult_le_mono1)
  moreover have "unat (h_Size h) \<le> (unat (h_Size h) + coverage h - 1) div coverage h * coverage h"
    using coverage_gt_1 [OF assms(1)] by (intro le_ceil_mult) simp
  ultimately show ?thesis by (rule order_trans [rotated])
qed

lemma checkRange_None:
  assumes "checkRange (int n) name off sz = None" "n < 2 ^ 63"
  shows "unat off + unat sz \<le> n"
proof -
  have w: "unat (of_nat n :: u64) = n" using assms(2) by (simp add: unat_of_nat)
  have le: "off \<le> off + sz" and n: "unat (off + sz) \<le> n"
    using assms(1) by (simp_all add: checkRange_def Let_def word_less_nat_alt word_le_nat_alt w not_less split: if_splits)
  have "unat (off + sz) = unat off + unat sz"
    using le by (simp add: no_plus_overflow_unat_size word_size unat_add_lem [THEN iffD1])
  then show ?thesis using n by simp
qed

text \<open>C34: What a header that passed both checks controls lies inside the file, as natural numbers: no sum or
  product has wrapped. The cluster size is between 512 bytes and 2 MiB, the L1 table is at most 64 MiB
  and long enough for the whole virtual size, and the backing path ends in the first cluster.
\<close>

theorem header_ranges_in_bounds:
  assumes "readHeader f = Inr h" "validateHeaderRanges h (int (length f)) = None" "length f < 2 ^ 63"
  shows "unat (ClusterSize h) \<in> {512..2097152} \<and>
    unat (h_L1Size h) * 8 \<le> 67108864 \<and>
    (h_L1Size h \<noteq> 0 \<longrightarrow> 0 < unat (h_L1TableOffset h) \<and> unat (h_L1TableOffset h) + unat (h_L1Size h) * 8 \<le> length f) \<and>
    unat (h_Size h) \<le> unat (h_L1Size h) * coverage h \<and>
    (h_BackingFileSize h \<noteq> 0 \<longrightarrow>
       0 < unat (h_BackingFileOffset h) \<and>
       unat (h_BackingFileOffset h) + unat (h_BackingFileSize h) \<le> length f \<and>
       unat (h_BackingFileOffset h) + unat (h_BackingFileSize h) \<le> unat (ClusterSize h))"
proof -
  have ok: "header_error h = None" using assms(1) unfolding readHeader_ok by blast
  have c: "unat (ClusterSize h) \<in> {512..2097152}" using ClusterSize_bounds [OF ok] by simp
  have l: "unat (h_L1Size h) * 8 \<le> 67108864"
    using header_error_None(4) [OF ok] by (simp add: unat_l1_bytes maxL1TableBytes_def)
  have v: "unat (h_Size h) \<le> unat (h_L1Size h) * coverage h"
    using header_error_covers [OF ok] by (cases "h_Size h = 0") (simp_all add: word_neq_0_conv)
  have l1: "0 < unat (h_L1TableOffset h) \<and> unat (h_L1TableOffset h) + unat (h_L1Size h) * 8 \<le> length f"
    if "h_L1Size h \<noteq> 0"
    using that assms(2) checkRange_None [OF _ assms(3), of _ "h_L1TableOffset h" "ucast (h_L1Size h) * 8"]
    by (auto simp: validateHeaderRanges_def word_neq_0_conv unat_gt_0 unat_l1_bytes split: if_splits option.splits)
  have b: "0 < unat (h_BackingFileOffset h) \<and>
       unat (h_BackingFileOffset h) + unat (h_BackingFileSize h) \<le> length f \<and>
       unat (h_BackingFileOffset h) + unat (h_BackingFileSize h) \<le> unat (ClusterSize h)"
    if "h_BackingFileSize h \<noteq> 0"
  proof -
    have in_file: "unat (h_BackingFileOffset h) + unat (h_BackingFileSize h) \<le> length f"
      using that assms(2) checkRange_None [OF _ assms(3), of _ "h_BackingFileOffset h" "ucast (h_BackingFileSize h)"]
      by (auto simp: validateHeaderRanges_def word_neq_0_conv split: if_splits option.splits)
    have "unat (h_BackingFileOffset h + ucast (h_BackingFileSize h)) = unat (h_BackingFileOffset h) + unat (h_BackingFileSize h)"
      using in_file assms(3) by (subst unat_add_lem [THEN iffD1]) simp_all
    moreover have "h_BackingFileOffset h \<noteq> 0 \<and> h_BackingFileOffset h + ucast (h_BackingFileSize h) \<le> ClusterSize h"
      using that ok by (auto simp: header_error_def Let_def word_neq_0_conv not_less split: if_splits)
    ultimately show ?thesis using in_file by (simp add: word_le_nat_alt unat_gt_0)
  qed
  show ?thesis using c l v l1 b by blast
qed

definition sample_header :: Header where
  "sample_header =
     \<lparr>h_Magic = 0x514649fb, h_Version = 3, h_BackingFileOffset = 112, h_BackingFileSize = 4, h_ClusterBits = 9,
      h_Size = 40000, h_CryptMethod = 0, h_L1Size = 2, h_L1TableOffset = 104, h_RefcountTableOffset = 512,
      h_RefcountTableClusters = 1, h_NbSnapshots = 0, h_SnapshotsOffset = 0, h_IncompatibleFeatures = 0,
      h_CompatibleFeatures = 0, h_AutoclearFeatures = 0, h_RefcountOrder = 4, h_HeaderLength = 104\<rparr>"

definition sample_image :: bfile where
  "sample_image = encode_header sample_header @ replicate 8 0 @ to_bytes ''base'' @ replicate 4 0"

lemma sample_header_ok: "header_error sample_header = None"
  by code_simp

lemma readHeader_sample: "readHeader sample_image = Inr sample_header"
  by (simp add: readHeader_ok sample_image_def decode_encode_header sample_header_ok)

lemma sample_ranges: "validateHeaderRanges sample_header 120 = None"
  by code_simp

lemma length_sample: "length sample_image = 120"
  by (simp add: sample_image_def)

theorem header_ranges_in_bounds_witness:
  "readHeader sample_image = Inr sample_header \<and>
   unat (h_BackingFileOffset sample_header) + unat (h_BackingFileSize sample_header) \<le> length sample_image"
  using header_ranges_in_bounds [OF readHeader_sample] sample_ranges
  by (simp add: readHeader_sample length_sample) (simp add: sample_header_def)

section \<open>Standalone images\<close>

lemma bslice_take [simp]: "j \<le> n \<Longrightarrow> bslice (take n f) i j = bslice f i j"
  by (simp add: bslice_def drop_take min_def)

lemma Info_ok:
  assumes "Info f = Inr i"
  shows "\<exists>h. readHeader f = Inr h \<and> validateHeaderRanges h (int (length f)) = None \<and>
    i_VirtualSize i = h_Size h \<and> i_BackingFormat i = readBackingFormat f h \<and>
    (h_BackingFileOffset h = 0 \<or> h_BackingFileSize h = 0 \<longrightarrow> i_BackingFile i = '''')"
  using assms
  by (auto simp: Info_def Let_def word_neq_0_conv split: sum.splits option.splits if_splits)

text \<open>C36: An image that \<open>AssertStandalone\<close> accepts and \<open>Info\<close> can read has no backing file, and in a version 3
  header the external-data feature bit is clear.
\<close>

theorem standalone_has_no_backing:
  assumes "AssertStandalone f = None" "Info f = Inr i"
  shows "i_BackingFile i = '''' \<and>
    (\<exists>h. readHeader f = Inr h \<and> (h_Version h \<ge> 3 \<longrightarrow> h_IncompatibleFeatures h AND 4 = 0))"
proof -
  obtain h where h: "readHeader f = Inr h" "h_BackingFileOffset h = 0 \<or> h_BackingFileSize h = 0 \<longrightarrow> i_BackingFile i = ''''"
    using Info_ok [OF assms(2)] by blast
  have len: "104 \<le> length f" and dec: "h = decode_header (take 104 f)" and ok: "header_error h = None"
    using h(1) unfolding readHeader_ok by blast+
  have f: "h_Magic h = Uint32 (bslice f 0 4)" "h_Version h = Uint32 (bslice f 4 8)"
    "h_BackingFileOffset h = Uint64 (bslice f 8 16)" "h_IncompatibleFeatures h = Uint64 (bslice f 72 80)"
    by (simp_all add: dec decode_header_def)
  have "Uint32 (bslice f 0 4) = Magic" using header_error_None(1) [OF ok] f by simp
  then have "Uint64 (bslice f 8 16) = 0 \<and> noExternalData (image_head f) = None"
    using assms(1) len by (auto simp: AssertStandalone_def image_head_def Let_def split: if_splits)
  then have "h_BackingFileOffset h = 0" "h_Version h \<ge> 3 \<longrightarrow> h_IncompatibleFeatures h AND 4 = 0"
    by (auto simp: f noExternalData_def image_head_def incompatExternalDataFile_def not_less split: if_splits)
  then show ?thesis using h by blast
qed

definition plain_header :: Header where
  "plain_header = sample_header\<lparr>h_BackingFileOffset := 0, h_BackingFileSize := 0\<rparr>"

definition plain_image :: bfile where
  "plain_image = encode_header plain_header @ replicate 16 0"

lemma readHeader_plain: "readHeader plain_image = Inr plain_header"
proof -
  have "header_error plain_header = None" by code_simp
  then show ?thesis by (simp add: readHeader_ok plain_image_def decode_encode_header)
qed

lemma AssertStandalone_plain: "AssertStandalone plain_image = None"
  by code_simp

lemma Info_plain: "\<exists>i. Info plain_image = Inr i"
proof -
  have "validateHeaderRanges plain_header 120 = None" by code_simp
  moreover have "length plain_image = 120" by (simp add: plain_image_def)
  moreover have "h_BackingFileOffset plain_header = 0" by (simp add: plain_header_def)
  ultimately show ?thesis by (simp add: Info_def readHeader_plain)
qed

theorem standalone_has_no_backing_witness:
  "\<exists>i. Info plain_image = Inr i \<and> i_BackingFile i = ''''"
  using Info_plain standalone_has_no_backing [OF AssertStandalone_plain] by blast

section \<open>One reading of the backing format\<close>

lemma and_not_7: "(x :: u32) AND NOT 7 = push_bit 3 (drop_bit 3 x)"
proof (rule bit_word_eqI)
  fix n assume n: "n < LENGTH(32)"
  have "bit (7 :: int) n \<longleftrightarrow> n < 3"
    using bit_mask_iff [where 'a = int, of 3 n] by (auto simp add: mask_eq_exp_minus_1)
  then show "bit (x AND NOT 7) n = bit (push_bit 3 (drop_bit 3 x)) n"
    using n by (cases "n < 3") (simp_all add: bit_simps)
qed

lemma uint_pad8:
  assumes "uint l + 7 < 2 ^ 32"
  shows "uint (pad8 l) = (uint l + 7) div 8 * 8"
proof -
  have "pad8 l = push_bit 3 (drop_bit 3 (l + 7))"
    unfolding pad8_def by (rule and_not_7)
  then have "pad8 l = drop_bit 3 (l + 7) * 8" by (simp add: push_bit_eq_mult)
  moreover have s: "uint (l + 7) = uint l + 7" using assms by (subst uint_add_lem [THEN iffD1]) simp_all
  have d: "uint (drop_bit 3 (l + 7)) = (uint l + 7) div 8"
    by (simp add: drop_bit_eq_div uint_div s)
  moreover have "uint (drop_bit 3 (l + 7) * 8) = uint (drop_bit 3 (l + 7)) * uint (8 :: u32)"
    using assms by (intro uint_mult_lem [THEN iffD1]) (simp add: d)
  ultimately show ?thesis by simp
qed

text \<open>A parser that lets a later backing-format extension replace an earlier one.\<close>

primrec last_format :: "nat \<Rightarrow> byte list \<Rightarrow> int \<Rightarrow> string \<Rightarrow> string" where
  "last_format 0 head off acc = acc"
| "last_format (Suc k) head off acc =
     (if off + 8 > int (length head) then acc
      else
        let p = nat off; typ = Uint32 (bslice head p (p + 4)); l = uint (Uint32 (bslice head (p + 4) (p + 8))) in
        if typ = 0 then acc
        else last_format k head (off + (8 + (l + 7) div 8 * 8))
               (if typ = ExtBackingFormat then of_bytes (bslice head (p + 8) (p + 8 + nat l)) else acc))"

lemma count_extensions_mono: "count_extensions k head off c = Inr n \<Longrightarrow> c \<le> n"
proof (induction k arbitrary: off c)
  case (Suc k)
  show ?case using Suc.prems Suc.IH
    by (fastforce simp: Let_def split: if_splits)
qed simp

lemma bslice_bslice: "j \<le> m - i \<Longrightarrow> bslice (bslice f i m) k j = bslice f (i + k) (i + j)"
  by (simp add: bslice_def drop_take add.commute min_def)

lemma walks_agree:
  assumes "count_extensions k (take 4096 f) off c = Inr n" "0 \<le> off"
  shows "(n = c \<longrightarrow> last_format k (take 4096 f) off acc = acc \<and> scan_extensions f off e = '''') \<and>
    (n = c + 1 \<and> scan_extensions f off e \<noteq> '''' \<longrightarrow>
       last_format k (take 4096 f) off acc = scan_extensions f off e)"
  using assms
proof (induction k arbitrary: off c acc)
  case (Suc k)
  define p ty l where "p = nat off" and "ty = Uint32 (bslice f p (p + 4))"
    and "l = Uint32 (bslice f (p + 4) (p + 8))"
  define nxt where "nxt = off + (8 + (uint l + 7) div 8 * 8)"
  define c' where "c' = (if ty = ExtBackingFormat then c + 1 else c)"
  have room: "off + 8 \<le> int (length (take 4096 f))" using Suc.prems by (auto split: if_splits)
  then have p8: "p + 8 \<le> 4096" "p + 8 \<le> length f" "int p = off" using Suc.prems(2) by (auto simp: p_def)
  have hd: "bslice (take 4096 f) p (p + 4) = bslice f p (p + 4)" "bslice (take 4096 f) (p + 4) (p + 8) = bslice f (p + 4) (p + 8)"
    using p8 by simp_all
  have read: "ReadAt f off 8 = Some (bslice f p (p + 8))" using room Suc.prems(2) by (simp add: ReadAt_def p_def)
  have fields: "Uint32 (bslice (bslice f p (p + 8)) 0 4) = ty" "Uint32 (bslice (bslice f p (p + 8)) 4 8) = l"
    by (simp_all add: bslice_bslice ty_def l_def)
  note scan = scan_extensions.simps [of f off e]
  show ?case
  proof (cases "ty = 0")
    case True
    then show ?thesis using Suc.prems room hd
      by (auto simp: scan read Let_def p_def [symmetric] ty_def [symmetric] l_def [symmetric] fields ExtEndOfArea_def)
  next
    case False
    have rec: "count_extensions k (take 4096 f) nxt c' = Inr n"
      using Suc.prems(1) room hd False
      by (simp add: Let_def p_def [symmetric] ty_def [symmetric] l_def [symmetric] nxt_def c'_def split: if_splits)
    have "k \<noteq> 0 \<and> nxt + 8 \<le> int (length (take 4096 f))"
      using rec by (cases k) (auto split: if_splits)
    then have inside: "nxt + 8 \<le> 4096" "nxt \<le> int (length f)" by auto
    have l0: "0 \<le> uint l" by simp
    have le: "uint l \<le> (uint l + 7) div 8 * 8" using div_mult_mod_eq [of "uint l + 7" 8] pos_mod_bound [of 8 "uint l + 7"] by linarith
    have small: "uint l < 4096" "off + 8 + uint l \<le> 4096" "off + 8 + uint l \<le> int (length f)"
      using inside le l0 Suc.prems(2) unfolding nxt_def by linarith+
    have pad: "off + 8 + uint (pad8 l) = nxt" using small by (simp add: uint_pad8 nxt_def)
    have nn: "0 \<le> nxt" using Suc.prems(2) l0 le unfolding nxt_def by linarith
    have nl: "nat (uint l) = unat l" by simp
    have data: "ReadAt f (off + 8) (unat l) = Some (bslice f (p + 8) (p + 8 + unat l))"
      using small p8 Suc.prems(2) by (simp add: ReadAt_def nat_add_distrib p_def)
    have dataH: "bslice (take 4096 f) (p + 8) (p + 8 + unat l) = bslice f (p + 8) (p + 8 + unat l)"
    proof (rule bslice_take)
      have "int (unat l) = uint l" by simp
      then show "p + 8 + unat l \<le> 4096" using small(2) p8(3) by linarith
    qed
    note IH = Suc.IH [OF rec nn]
    have mono: "c' \<le> n" using rec by (rule count_extensions_mono)
    have lf: "last_format (Suc k) (take 4096 f) off acc =
        last_format k (take 4096 f) nxt (if ty = ExtBackingFormat then of_bytes (bslice f (p + 8) (p + 8 + unat l)) else acc)"
      using room hd False dataH
      by (simp add: Let_def p_def [symmetric] ty_def [symmetric] l_def [symmetric] nxt_def [symmetric])
    have sc: "scan_extensions f off e =
        (if off + 8 \<le> e then
           if ty = ExtBackingFormat \<and> 0 < l \<and> l < 256 then of_bytes (bslice f (p + 8) (p + 8 + unat l))
           else scan_extensions f nxt e else '''')"
      using False by (simp add: scan read fields Let_def pad data ExtEndOfArea_def)
    show ?thesis
    proof (cases "ty = ExtBackingFormat")
      case True
      then show ?thesis using IH mono unfolding lf sc c'_def by auto
    next
      case False
      then show ?thesis using IH unfolding lf sc c'_def by auto
    qed
  qed
qed simp

definition last_backing_format :: "bfile \<Rightarrow> string" where
  "last_backing_format f =
     last_format 64 (image_head f) (extensions_start (Uint32 (bslice f 4 8)) (Uint32 (bslice f 100 104))) ''''"

text \<open>C35: Where an image carries at most one backing-format extension by \<open>BackingFormatExtensionCount\<close>, the
  format \<open>Info\<close> reports (its parser takes the first) is the one a parser that takes the last would report.
\<close>

theorem backing_format_unambiguous:
  assumes "BackingFormatExtensionCount f = Inr n" "n \<le> 1" "Info f = Inr i" "i_BackingFormat i \<noteq> ''''"
  shows "n = 1 \<and> last_backing_format f = i_BackingFormat i"
proof -
  obtain h where h: "readHeader f = Inr h" "i_BackingFormat i = readBackingFormat f h"
    using Info_ok [OF assms(3)] by blast
  have len: "104 \<le> length f" and dec: "h = decode_header (take 104 f)"
    using h(1) unfolding readHeader_ok by blast+
  have f: "h_Version h = Uint32 (bslice f 4 8)" "h_HeaderLength h = Uint32 (bslice f 100 104)"
    by (simp_all add: dec decode_header_def)
  let ?s = "extensions_start (Uint32 (bslice f 4 8)) (Uint32 (bslice f 100 104))"
  have "count_extensions 64 (take 4096 f) ?s 0 = Inr n"
    using assms(1) len
    by (auto simp: BackingFormatExtensionCount_def image_head_def Let_def extensions_start_def split: if_splits)
  moreover have "0 \<le> ?s" by (simp add: extensions_start_def)
  moreover have scan: "i_BackingFormat i = scan_extensions f ?s (uint (ClusterSize h))"
    by (simp add: h(2) readBackingFormat_def f)
  ultimately have "n \<noteq> 0" "n = 1 \<longrightarrow> last_backing_format f = i_BackingFormat i"
    using walks_agree [of 64 f ?s 0 n "''''" "uint (ClusterSize h)"] assms(4)
    by (auto simp: last_backing_format_def image_head_def)
  moreover have "0 \<le> n"
    using \<open>count_extensions 64 (take 4096 f) ?s 0 = Inr n\<close> by (rule count_extensions_mono)
  ultimately show ?thesis using assms(2) by auto
qed

text \<open>An image with a format extension that says \<open>raw\<close>.\<close>

definition raw_image :: bfile where
  "raw_image = encode_header plain_header @ extension_bytes ExtBackingFormat (to_bytes ''raw'') @ replicate 8 0"

lemma raw_image_facts:
  "readHeader raw_image = Inr plain_header" "length raw_image = 128"
  "BackingFormatExtensionCount raw_image = Inr 1" "readBackingFormat raw_image plain_header = ''raw''"
proof -
  have "header_error plain_header = None" by code_simp
  then show "readHeader raw_image = Inr plain_header"
    by (simp add: readHeader_ok raw_image_def decode_encode_header extension_bytes_def)
  show "length raw_image = 128" by (simp add: raw_image_def extension_bytes_def)
  show "BackingFormatExtensionCount raw_image = Inr 1" by code_simp
  show "readBackingFormat raw_image plain_header = ''raw''" by code_simp
qed

lemma Info_raw: "\<exists>i. Info raw_image = Inr i \<and> i_BackingFormat i = ''raw''"
proof -
  have "validateHeaderRanges plain_header 128 = None" by code_simp
  moreover have "h_BackingFileOffset plain_header = 0" by (simp add: plain_header_def)
  ultimately show ?thesis by (simp add: Info_def raw_image_facts)
qed

theorem backing_format_unambiguous_witness:
  "BackingFormatExtensionCount raw_image = Inr 1 \<and> last_backing_format raw_image = ''raw''"
  using Info_raw backing_format_unambiguous [OF raw_image_facts(3)] raw_image_facts(3) by force

end
