(* ===== verification/Qcow2Refcount.thy ===== *)
theory Qcow2Refcount
  imports Qcow2Header
begin

text \<open>
  Entries of a refcount block: \<^verbatim>\<open>writeRefcount\<close> and \<^verbatim>\<open>readRefcount\<close> of \<^verbatim>\<open>internal/qcow2/create.go\<close>, at the
  seven widths the format has. Widths below 8 pack several entries into a byte.
\<close>

definition writeRefcount :: "byte list \<Rightarrow> u64 \<Rightarrow> u16 \<Rightarrow> u32 \<Rightarrow> byte list" where
  "writeRefcount block idx val refcountBits =
     (let n = (of_nat (length block) :: u64) in
      if refcountBits = 16 then
        let off = idx * 2 in if off + 2 \<le> n then bsplice block (unat off) (PutUint16 val) else block
      else if refcountBits = 32 then
        let off = idx * 4 in if off + 4 \<le> n then bsplice block (unat off) (PutUint32 (ucast val)) else block
      else if refcountBits = 8 then
        if idx < n then block[unat idx := ucast val] else block
      else if refcountBits = 1 then
        let byteIdx = idx div 8; bitIdx = unat (7 - idx mod 8); b = block ! unat byteIdx in
        if byteIdx < n then
          block[unat byteIdx := (if val \<noteq> 0 then b OR push_bit bitIdx 1 else b AND NOT (push_bit bitIdx 1))]
        else block
      else if refcountBits = 2 then
        let byteIdx = idx div 4; shift = unat ((3 - idx mod 4) * 2); b = block ! unat byteIdx in
        if byteIdx < n then
          block[unat byteIdx := (b AND NOT (push_bit shift 3)) OR push_bit shift (ucast (val AND 3))]
        else block
      else if refcountBits = 4 then
        let byteIdx = idx div 2; shift = unat ((1 - idx mod 2) * 4); b = block ! unat byteIdx in
        if byteIdx < n then
          block[unat byteIdx := (b AND NOT (push_bit shift 15)) OR push_bit shift (ucast (val AND 15))]
        else block
      else if refcountBits = 64 then
        let off = idx * 8 in if off + 8 \<le> n then bsplice block (unat off) (PutUint64 (ucast val)) else block
      else block)"

definition readRefcount :: "byte list \<Rightarrow> u64 \<Rightarrow> u32 \<Rightarrow> u64" where
  "readRefcount block idx refcountBits =
     (let n = (of_nat (length block) :: u64) in
      if refcountBits = 16 then
        let off = idx * 2 in
        if off + 2 \<le> n then ucast (Uint16 (bslice block (unat off) (unat off + 2))) else 0
      else if refcountBits = 32 then
        let off = idx * 4 in
        if off + 4 \<le> n then ucast (Uint32 (bslice block (unat off) (unat off + 4))) else 0
      else if refcountBits = 8 then
        if idx < n then ucast (block ! unat idx) else 0
      else if refcountBits = 1 then
        let byteIdx = idx div 8; bitIdx = unat (7 - idx mod 8) in
        if byteIdx < n then ucast (drop_bit bitIdx (block ! unat byteIdx) AND 1) else 0
      else if refcountBits = 2 then
        let byteIdx = idx div 4; shift = unat ((3 - idx mod 4) * 2) in
        if byteIdx < n then ucast (drop_bit shift (block ! unat byteIdx) AND 3) else 0
      else if refcountBits = 4 then
        let byteIdx = idx div 2; shift = unat ((1 - idx mod 2) * 4) in
        if byteIdx < n then ucast (drop_bit shift (block ! unat byteIdx) AND 15) else 0
      else if refcountBits = 64 then
        let off = idx * 8 in
        if off + 8 \<le> n then Uint64 (bslice block (unat off) (unat off + 8)) else 0
      else 0)"

section \<open>Entries of whole bytes\<close>

lemma bslice_bsplice:
  assumes "(i + 1) * w \<le> length b" "(j + 1) * w \<le> length b" "length d = w"
  shows "bslice (bsplice b (i * w) d) (j * w) (j * w + w) = (if i = j then d else bslice b (j * w) (j * w + w))"
proof -
  have in_b: "i * w + length d \<le> length b" "j * w + w \<le> length b" using assms by (simp_all add: algebra_simps)
  have apart: "\<not> (i * w \<le> j * w + k \<and> j * w + k < i * w + w)" if "i \<noteq> j" "k < w" for k
  proof (cases "i < j")
    case True
    then have "i * w + w \<le> j * w" by (metis add.commute Suc_leI mult_Suc mult_le_mono1)
    then show ?thesis by simp
  next
    case False
    then have "j * w + w \<le> i * w" using that(1) by (metis add.commute Suc_leI mult_Suc mult_le_mono1 linorder_neqE_nat)
    then show ?thesis using that(2) by simp
  qed
  show ?thesis
  proof (rule nth_equalityI)
    show "length (bslice (bsplice b (i * w) d) (j * w) (j * w + w)) = length (if i = j then d else bslice b (j * w) (j * w + w))"
      using in_b assms(3) by simp
    fix k assume "k < length (bslice (bsplice b (i * w) d) (j * w) (j * w + w))"
    then have k: "k < w" using in_b by simp
    then show "bslice (bsplice b (i * w) d) (j * w) (j * w + w) ! k = (if i = j then d else bslice b (j * w) (j * w + w)) ! k"
      using in_b assms(3) apart [OF _ k] by (auto simp: nth_bsplice)
  qed
qed

section \<open>Entries inside a byte\<close>

lemma field_of_byte:
  fixes b v :: byte
  assumes "k * q + k \<le> 8" "k * r + k \<le> 8" "v AND mask k = v"
  shows "drop_bit (k * r) ((b AND NOT (push_bit (k * q) (mask k))) OR push_bit (k * q) v) AND mask k =
    (if q = r then v else drop_bit (k * r) b AND mask k)"
proof -
  have vk: "bit v m \<Longrightarrow> m < k" for m
    using assms(3) by (metis bit_and_iff bit_mask_iff)
  have apart: "\<not> (k * q \<le> k * r + n \<and> k * r + n - k * q < k)" if "q \<noteq> r" "n < k" for n
  proof (cases "q < r")
    case True
    then have "k * q + k \<le> k * r" by (metis Suc_leI add.commute mult_Suc_right mult_le_mono2)
    then show ?thesis by simp
  next
    case False
    then have "k * r + k \<le> k * q" using that(1) by (metis Suc_leI add.commute mult_Suc_right mult_le_mono2 linorder_neqE_nat)
    then show ?thesis using that(2) by simp
  qed
  show ?thesis
  proof (rule bit_word_eqI)
    fix n assume n: "n < LENGTH(8)"
    show "bit (drop_bit (k * r) ((b AND NOT (push_bit (k * q) (mask k))) OR push_bit (k * q) v) AND mask k) n =
      bit (if q = r then v else drop_bit (k * r) b AND mask k) n"
    proof (cases "n < k")
      case True
      then have "k * r + n < 8" using assms(2) by simp
      then show ?thesis using True n apart [OF _ True] vk by (auto simp: bit_simps)
    next
      case False
      then show ?thesis using vk [of n] by (auto simp: bit_simps)
    qed
  qed
qed

lemma byte_masks: "(1 :: byte) = mask 1" "(3 :: byte) = mask 2" "(15 :: byte) = mask 4"
  by (simp_all add: mask_eq_exp_minus_1)

lemma unat_times:
  fixes i :: u64
  assumes "unat i * c < 2 ^ 64" "c < 2 ^ 64"
  shows "unat (i * of_nat c) = unat i * c"
proof -
  have "unat (of_nat c :: u64) = c" using assms(2) by (simp add: unat_of_nat)
  then show ?thesis using assms(1) by (simp add: unat_mult_lem [THEN iffD1])
qed

lemma unat_shift:
  fixes i :: u64
  shows "unat (7 - i mod 8) = 7 - unat i mod 8"
    "unat ((3 - i mod 4) * 2) = 2 * (3 - unat i mod 4)"
    "unat ((1 - i mod 2) * 4) = 4 * (1 - unat i mod 2)"
proof -
  have m: "unat (i mod 8) = unat i mod 8" "unat (i mod 4) = unat i mod 4" "unat (i mod 2) = unat i mod 2"
    by (simp_all add: unat_mod)
  have b: "unat i mod 8 < 8" "unat i mod 4 < 4" "unat i mod 2 < 2" by simp_all
  have le: "i mod 8 \<le> 7" "i mod 4 \<le> 3" "i mod 2 \<le> 1"
    using b by (simp_all add: word_le_nat_alt m del: unat_mod)
  have s: "unat (7 - i mod 8) = 7 - unat i mod 8" "unat (3 - i mod 4) = 3 - unat i mod 4" "unat (1 - i mod 2) = 1 - unat i mod 2"
    using unat_sub [OF le(1)] unat_sub [OF le(2)] unat_sub [OF le(3)] m by simp_all
  show "unat (7 - i mod 8) = 7 - unat i mod 8" by (rule s(1))
  show "unat ((3 - i mod 4) * 2) = 2 * (3 - unat i mod 4)"
    using unat_times [of "3 - i mod 4" 2] s(2) by simp
  show "unat ((1 - i mod 2) * 4) = 4 * (1 - unat i mod 2)"
    using unat_times [of "1 - i mod 2" 4] s(3) by simp
qed

text \<open>The widths, and the entries a block has room for.\<close>

definition widths :: "u32 set" where
  "widths = {1, 2, 4, 8, 16, 32, 64}"

definition fits :: "byte list \<Rightarrow> u64 \<Rightarrow> u32 \<Rightarrow> bool" where
  "fits block idx bits \<longleftrightarrow> (unat idx + 1) * unat bits \<le> 8 * length block \<and> length block < 2 ^ 32"

lemma bytes_entry:
  fixes i :: u64
  assumes "unat (of_nat w :: u64) = w" "(unat i + 1) * w \<le> length b" "length b < 2 ^ 32" "w < 2 ^ 32"
  shows "unat (i * of_nat w) = unat i * w" "i * of_nat w + of_nat w \<le> of_nat (length b)"
proof -
  have n: "unat (of_nat (length b) :: u64) = length b" using assms(3) by (simp add: unat_of_nat)
  have "unat i * w \<le> length b" using assms(2) by (simp add: algebra_simps)
  then show u: "unat (i * of_nat w) = unat i * w" using assms by (intro unat_times) simp_all
  have "unat (i * of_nat w + of_nat w) = unat i * w + w"
    using u assms(1) \<open>unat i * w \<le> length b\<close> assms(3,4) by (simp add: unat_add_lem [THEN iffD1])
  then show "i * of_nat w + of_nat w \<le> of_nat (length b)"
    using assms(2) by (simp add: word_le_nat_alt n algebra_simps)
qed

lemma length_writeRefcount [simp]:
  assumes "fits block i bits" "bits \<in> widths"
  shows "length (writeRefcount block i v bits) = length block"
proof -
  consider "bits = 16" | "bits = 32" | "bits = 64" | "bits \<in> {1, 2, 4, 8}" using assms(2) by (auto simp: widths_def)
  then show ?thesis
  proof cases
    case 1
    then show ?thesis using bytes_entry [of 2 i block] assms(1)
      by (simp add: writeRefcount_def fits_def Let_def)
  next
    case 2
    then show ?thesis using bytes_entry [of 4 i block] assms(1)
      by (simp add: writeRefcount_def fits_def Let_def)
  next
    case 3
    then show ?thesis using bytes_entry [of 8 i block] assms(1)
      by (simp add: writeRefcount_def fits_def Let_def)
  qed (auto simp: writeRefcount_def Let_def)
qed

text \<open>A byte entry of width \<open>w\<close> after another was written.\<close>

lemma read_write_bytes:
  fixes i j :: u64
  assumes "unat (of_nat w :: u64) = w" "0 < w" "w < 2 ^ 32" "length d = w" "length b < 2 ^ 32"
    "(unat i + 1) * w \<le> length b" "(unat j + 1) * w \<le> length b"
  shows "bslice (bsplice b (unat (i * of_nat w)) d) (unat (j * of_nat w)) (unat (j * of_nat w) + w) =
    (if i = j then d else bslice b (unat (j * of_nat w)) (unat (j * of_nat w) + w))"
  using bslice_bsplice [of "unat i" w b "unat j" d] assms
    bytes_entry(1) [OF assms(1,6,5,3)] bytes_entry(1) [OF assms(1,7,5,3)]
  by (simp add: word_unat_eq_iff)

lemma read_write_16:
  assumes "fits b i 16" "fits b j 16"
  shows "readRefcount (writeRefcount b i v 16) j 16 = (if i = j then ucast v else readRefcount b j 16)"
  using assms bytes_entry(2) [of 2 i b] bytes_entry(2) [of 2 j b] bytes_entry(1) [of 2 i b]
    read_write_bytes [of 2 "PutUint16 v" b i j]
  by (simp add: fits_def readRefcount_def writeRefcount_def Let_def)

lemma ucast_16_32_64 [simp]: "ucast (ucast (v :: u16) :: u32) = (ucast v :: u64)"
  by (rule bit_word_eqI) (auto simp: bit_simps dest: bit_imp_le_length)

lemma read_write_32:
  assumes "fits b i 32" "fits b j 32"
  shows "readRefcount (writeRefcount b i v 32) j 32 = (if i = j then ucast v else readRefcount b j 32)"
  using assms bytes_entry(2) [of 4 i b] bytes_entry(2) [of 4 j b] bytes_entry(1) [of 4 i b]
    read_write_bytes [of 4 "PutUint32 (ucast v)" b i j]
  by (simp add: fits_def readRefcount_def writeRefcount_def Let_def)

lemma read_write_64:
  assumes "fits b i 64" "fits b j 64"
  shows "readRefcount (writeRefcount b i v 64) j 64 = (if i = j then ucast v else readRefcount b j 64)"
  using assms bytes_entry(2) [of 8 i b] bytes_entry(2) [of 8 j b] bytes_entry(1) [of 8 i b]
    read_write_bytes [of 8 "PutUint64 (ucast v)" b i j]
  by (simp add: fits_def readRefcount_def writeRefcount_def Let_def)

lemma entry_byte: "k * per = 8 \<Longrightarrow> (i + 1) * k \<le> 8 * n \<Longrightarrow> i div per < n" for i :: nat
proof -
  assume a: "k * per = 8" "(i + 1) * k \<le> 8 * n"
  then have k: "0 < k" "0 < per" by (auto intro!: Nat.gr0I)
  have "(i + 1) * k \<le> (per * n) * k" using a by (metis mult.assoc mult.commute)
  then have "i + 1 \<le> per * n" using k(1) by (simp only: mult_le_cancel2 simp_thms)
  then have "i < n * per" by (simp add: mult.commute)
  then show ?thesis by (rule less_mult_imp_div_less)
qed

lemma field_update:
  fixes i j :: nat and v :: byte
  assumes "k * per = 8" "(i + 1) * k \<le> 8 * length b" "(j + 1) * k \<le> 8 * length b" "v AND mask k = v"
    and qi: "qi = per - 1 - i mod per" and qj: "qj = per - 1 - j mod per"
  shows "drop_bit (k * qj) (b[i div per := (b ! (i div per) AND NOT (push_bit (k * qi) (mask k))) OR push_bit (k * qi) v] ! (j div per)) AND mask k =
    (if i = j then v else drop_bit (k * qj) (b ! (j div per)) AND mask k)"
proof -
  have per: "0 < per" using assms(1) by (auto intro!: Nat.gr0I)
  have len: "i div per < length b" "j div per < length b" using assms by (auto intro: entry_byte)
  have q: "k * qi + k \<le> 8" "k * qj + k \<le> 8"
  proof -
    have "k * x + k \<le> 8" if "x + 1 \<le> per" for x
      using mult_le_mono2 [OF that, of k] assms(1) by simp
    moreover have "qi + 1 \<le> per" "qj + 1 \<le> per" using per unfolding qi qj by linarith+
    ultimately show "k * qi + k \<le> 8" "k * qj + k \<le> 8" by blast+
  qed
  have same: "i = j \<longleftrightarrow> i div per = j div per \<and> qi = qj"
  proof
    assume r: "i div per = j div per \<and> qi = qj"
    moreover have "i mod per < per" "j mod per < per" using per by simp_all
    ultimately have "i mod per = j mod per" unfolding qi qj by linarith
    then show "i = j" using r by (metis div_mult_mod_eq)
  qed (simp add: qi qj)
  show ?thesis
    using len field_of_byte [OF q(1) q(2) assms(4), of "b ! (i div per)"] by (auto simp: same nth_list_update)
qed

lemma of_nat_length_less: "length b < 2 ^ 32 \<Longrightarrow> unat x < length b \<Longrightarrow> x < (of_nat (length b) :: u64)"
  by (simp add: word_less_nat_alt unat_of_nat)

lemma ucast_16_8_64: "unat v < 256 \<Longrightarrow> ucast (ucast (v :: u16) :: byte) = (ucast v :: u64)"
proof -
  assume "unat v < 256"
  then have "unat (ucast (ucast v :: byte) :: u64) = unat (ucast v :: u64)"
    by (simp add: unsigned_ucast_eq unsigned_take_bit_eq take_bit_nat_eq_self)
  then show ?thesis by (simp only: word_unat_eq_iff)
qed

lemma value_in_field:
  fixes v :: u16
  assumes "unat v < 2 ^ k" "k \<le> 8"
  shows "ucast (v AND mask k) = (ucast v :: byte)" "(ucast v :: byte) AND mask k = ucast v" "unat v < 256"
proof -
  have "(2 :: nat) ^ k \<le> 2 ^ 8" using assms(2) by (rule power_increasing) simp
  then show "unat v < 256" using assms(1) by simp
  have "take_bit k v = v"
    using assms by (simp add: word_unat_eq_iff unsigned_take_bit_eq take_bit_nat_eq_self)
  then have "v AND mask k = v" by (simp add: take_bit_eq_mask)
  then have b: "bit v n \<Longrightarrow> n < k" for n by (metis bit_and_iff bit_mask_iff)
  show "ucast (v AND mask k) = (ucast v :: byte)" by (simp add: \<open>v AND mask k = v\<close>)
  show "(ucast v :: byte) AND mask k = ucast v"
    by (rule bit_word_eqI) (auto simp: bit_simps dest: b)
qed

lemma read_write_8:
  assumes "fits b i 8" "fits b j 8" "unat v < 2 ^ 8"
  shows "readRefcount (writeRefcount b i v 8) j 8 = (if i = j then ucast v else readRefcount b j 8)"
  using assms of_nat_length_less [of b i] of_nat_length_less [of b j]
  by (auto simp: fits_def readRefcount_def writeRefcount_def nth_list_update ucast_16_8_64 word_unat_eq_iff)

lemma write_2:
  assumes "i div 4 < of_nat (length b)"
  shows "writeRefcount b i v 2 = b[unat i div 4 :=
    (b ! (unat i div 4) AND NOT (push_bit (2 * (3 - unat i mod 4)) (mask 2))) OR push_bit (2 * (3 - unat i mod 4)) (ucast (v AND mask 2))]"
proof -
  have m: "(3 :: u16) = mask 2" by (simp add: mask_eq_exp_minus_1)
  show ?thesis
    unfolding writeRefcount_def Let_def unat_shift m byte_masks(2) using assms by (simp add: unat_div)
qed

lemma read_2:
  assumes "j div 4 < of_nat (length b)"
  shows "readRefcount b j 2 = ucast (drop_bit (2 * (3 - unat j mod 4)) (b ! (unat j div 4)) AND mask 2)"
  unfolding readRefcount_def Let_def unat_shift byte_masks(2) using assms by (simp add: unat_div)

lemma write_4:
  assumes "i div 2 < of_nat (length b)"
  shows "writeRefcount b i v 4 = b[unat i div 2 :=
    (b ! (unat i div 2) AND NOT (push_bit (4 * (1 - unat i mod 2)) (mask 4))) OR push_bit (4 * (1 - unat i mod 2)) (ucast (v AND mask 4))]"
proof -
  have m: "(15 :: u16) = mask 4" by (simp add: mask_eq_exp_minus_1)
  show ?thesis
    unfolding writeRefcount_def Let_def unat_shift m byte_masks(3) using assms by (simp add: unat_div)
qed

lemma read_4:
  assumes "j div 2 < of_nat (length b)"
  shows "readRefcount b j 4 = ucast (drop_bit (4 * (1 - unat j mod 2)) (b ! (unat j div 2)) AND mask 4)"
  unfolding readRefcount_def Let_def unat_shift byte_masks(3) using assms by (simp add: unat_div)

text \<open>The one-bit width sets or clears its bit, which is the same update for a value of 0 or 1.\<close>

lemma write_1:
  assumes "i div 8 < of_nat (length b)" "unat v < 2"
  shows "writeRefcount b i v 1 = b[unat i div 8 :=
    (b ! (unat i div 8) AND NOT (push_bit (1 * (7 - unat i mod 8)) (mask 1))) OR push_bit (1 * (7 - unat i mod 8)) (ucast (v AND mask 1))]"
proof -
  have "v = 0 \<or> v = 1" using assms(2) by (simp add: word_unat_eq_iff less_2_cases_iff)
  moreover have "(x AND NOT (push_bit s 1)) OR push_bit s 1 = x OR push_bit s 1" for x :: byte and s
    by (rule bit_word_eqI) (auto simp: bit_simps)
  ultimately show ?thesis
    unfolding writeRefcount_def Let_def unat_shift using assms(1) by (auto simp: unat_div)
qed

lemma read_1:
  assumes "j div 8 < of_nat (length b)"
  shows "readRefcount b j 1 = ucast (drop_bit (1 * (7 - unat j mod 8)) (b ! (unat j div 8)) AND mask 1)"
  unfolding readRefcount_def Let_def unat_shift using assms by (simp add: unat_div)

lemma entry_words:
  fixes i :: u64
  assumes "k * per = 8" "(unat i + 1) * k \<le> 8 * length b" "length b < 2 ^ 32" "unat (of_nat per :: u64) = per"
  shows "i div of_nat per < of_nat (length b)"
  using entry_byte [OF assms(1,2)] assms(3,4) by (intro of_nat_length_less) (simp_all add: unat_div)

lemma read_write_sub:
  fixes k per :: nat and bits :: u32
  assumes k: "(k, per, bits) \<in> {(1, 8, 1), (2, 4, 2), (4, 2, 4)}"
    and "fits b i bits" "fits b j bits" "unat v < 2 ^ k"
  shows "readRefcount (writeRefcount b i v bits) j bits = (if i = j then ucast v else readRefcount b j bits)"
proof -
  have f: "(unat i + 1) * k \<le> 8 * length b" "(unat j + 1) * k \<le> 8 * length b" "length b < 2 ^ 32" "k * per = 8" "k \<le> 8"
    "unat (of_nat per :: u64) = per"
    using assms by (auto simp: fits_def)
  note v = value_in_field [OF assms(4) f(5)]
  have n: "i div of_nat per < of_nat (length b)" "j div of_nat per < of_nat (length b)"
    using f by (auto intro!: entry_words)
  define w where "w = b[unat i div per := (b ! (unat i div per) AND NOT (push_bit (k * (per - 1 - unat i mod per)) (mask k)))
    OR push_bit (k * (per - 1 - unat i mod per)) (ucast v)]"
  have wr: "writeRefcount b i v bits = w"
    using k n(1) assms(4) v(1) write_1 [of i b v] write_2 [of i b v] write_4 [of i b v] by (auto simp: w_def)
  have rd: "readRefcount c j bits = ucast (drop_bit (k * (per - 1 - unat j mod per)) (c ! (unat j div per)) AND mask k)"
    if "length c = length b" for c
    using k n(2) that read_1 [of j c] read_2 [of j c] read_4 [of j c] by auto
  have "drop_bit (k * (per - 1 - unat j mod per)) (w ! (unat j div per)) AND mask k =
      (if i = j then ucast v else drop_bit (k * (per - 1 - unat j mod per)) (b ! (unat j div per)) AND mask k)"
    unfolding w_def using field_update [OF f(4,1,2) v(2) refl refl] by (simp add: word_unat_eq_iff [of i j])
  moreover have "length w = length b" by (simp add: w_def)
  ultimately show ?thesis unfolding wr using v(3) by (simp only: rd refl) (simp add: ucast_16_8_64)
qed

lemma read_writeRefcount:
  assumes "bits \<in> widths" "fits b i bits" "fits b j bits" "unat v < 2 ^ unat bits"
  shows "readRefcount (writeRefcount b i v bits) j bits = (if i = j then ucast v else readRefcount b j bits)"
proof -
  consider "bits = 1" | "bits = 2" | "bits = 4" | "bits = 8" | "bits = 16" | "bits = 32" | "bits = 64"
    using assms(1) by (auto simp: widths_def)
  then show ?thesis
  proof cases
    case 1 then show ?thesis using assms by (intro read_write_sub [of 1 8]) simp_all
  next
    case 2 then show ?thesis using assms by (intro read_write_sub [of 2 4]) simp_all
  next
    case 3 then show ?thesis using assms by (intro read_write_sub [of 4 2]) simp_all
  next
    case 4 then show ?thesis using assms read_write_8 by simp
  next
    case 5 then show ?thesis using assms read_write_16 by simp
  next
    case 6 then show ?thesis using assms read_write_32 by simp
  next
    case 7 then show ?thesis using assms read_write_64 by simp
  qed
qed

text \<open>
  At every width, reading a refcount after writing one gives the written value at its own index and
  the old value at every other, for the entries a block has room for and a value of that width.
\<close>

theorem refcount_roundtrip:
  "bits \<in> widths \<Longrightarrow> fits b i bits \<Longrightarrow> fits b j bits \<Longrightarrow> unat v < 2 ^ unat bits \<Longrightarrow>
   readRefcount (writeRefcount b i v bits) j bits = (if i = j then ucast v else readRefcount b j bits)"
  by (rule read_writeRefcount)

theorem refcount_roundtrip_witness:
  "readRefcount (writeRefcount [0xFF, 0x00] 2 1 4) 2 4 = 1 \<and> readRefcount (writeRefcount [0xFF, 0x00] 2 1 4) 1 4 = 15"
proof -
  have w: "(4 :: u32) \<in> widths" by (simp add: widths_def)
  have f: "fits [0xFF, 0x00] 2 4" "fits [0xFF, 0x00] 1 4" by (simp_all add: fits_def)
  have "readRefcount [0xFF, 0x00] 1 4 = 15" by code_simp
  then show ?thesis
    using refcount_roundtrip [OF w f(1) f(1), of 1] refcount_roundtrip [OF w f(1) f(2), of 1] by simp
qed

end
