(* ===== verification/Qcow2Check.thy ===== *)
theory Qcow2Check
  imports Qcow2Refcount
begin

text \<open>
  The consistency check of an image, \<^verbatim>\<open>internal/qcow2/check.go\<close>: it walks the L1 table, the L2 tables and
  the refcount table, counts how often each cluster of the file is referenced, and compares
  the counts with the recorded refcounts. The list \<open>expected\<close> of the source is the list of counters here;
  the cache of refcount blocks is left out, since the file does not change under the check.
\<close>

datatype cerr =
    BadHeader qerr
  | VirtualSizeZero
  | InvalidRefcountOrder u32
  | RefcountTableBeyondFile
  | InvalidRefcountGeometry
  | CannotRead string u64
  | L2BeyondFile nat u64
  | CompressedBeyondFile nat nat u64
  | DataBeyondFile nat nat u64
  | BlockBeyondFile nat u64
  | RefcountMismatch nat u64 u64

text \<open>A loop whose body can return an error.\<close>

primrec foldE :: "('a \<Rightarrow> 's \<Rightarrow> 'e + 's) \<Rightarrow> 'a list \<Rightarrow> 's \<Rightarrow> 'e + 's" where
  "foldE body [] s = Inr s"
| "foldE body (x # xs) s = (case body x s of Inl e \<Rightarrow> Inl e | Inr s' \<Rightarrow> foldE body xs s')"

definition entry64 :: "byte list \<Rightarrow> nat \<Rightarrow> u64" where
  "entry64 tab i = Uint64 (bslice tab (i * 8) (i * 8 + 8))"

definition mark :: "u64 \<Rightarrow> u64 list \<Rightarrow> u64 list" where
  "mark cluster expected =
     (if unat cluster < length expected then expected[unat cluster := expected ! unat cluster + 1] else expected)"

definition mark_range :: "u64 \<Rightarrow> nat \<Rightarrow> u64 list \<Rightarrow> u64 list" where
  "mark_range start n = fold (\<lambda>i. mark (start + of_nat i)) [0..<n]"

definition offsetMask :: u64 where
  "offsetMask = 0x00fffffffffffe00"

definition check_l2_entry :: "Header \<Rightarrow> u64 \<Rightarrow> byte list \<Rightarrow> nat \<Rightarrow> nat \<Rightarrow> u64 list \<Rightarrow> cerr + u64 list" where
  "check_l2_entry h fileSize l2 i j expected =
     (let cs = ClusterSize h; l2Entry = entry64 l2 j in
      if l2Entry = 0 then Inr expected
      else if l2Entry AND push_bit 62 1 \<noteq> 0 then
        let csizeShift = unat (62 - (h_ClusterBits h - 8));
            csizeMask = push_bit (unat (h_ClusterBits h - 8)) 1 - 1;
            hostMask = push_bit csizeShift 1 - 1;
            sectors = (drop_bit csizeShift l2Entry AND csizeMask) + 1;
            hostOffset = l2Entry AND hostMask;
            endByte = hostOffset + sectors * 512 in
        if endByte > fileSize then Inl (CompressedBeyondFile i j hostOffset)
        else
          let startCluster = hostOffset div cs; endCluster = (endByte + cs - 1) div cs in
          Inr (mark_range startCluster (unat endCluster - unat startCluster) expected)
      else
        let hostOffset = l2Entry AND offsetMask in
        if hostOffset > 0 then
          if hostOffset + cs > fileSize then Inl (DataBeyondFile i j hostOffset)
          else Inr (mark (hostOffset div cs) expected)
        else Inr expected)"

definition check_l1_entry :: "bfile \<Rightarrow> Header \<Rightarrow> u64 \<Rightarrow> byte list \<Rightarrow> nat \<Rightarrow> u64 list \<Rightarrow> cerr + u64 list" where
  "check_l1_entry f h fileSize l1 i expected =
     (let cs = ClusterSize h; l2Offset = entry64 l1 i AND offsetMask in
      if l2Offset = 0 then Inr expected
      else if l2Offset + cs > fileSize then Inl (L2BeyondFile i l2Offset)
      else
        case ReadAt f (sint l2Offset) (unat cs) of
          None \<Rightarrow> Inl (CannotRead ''L2'' l2Offset)
        | Some l2 \<Rightarrow>
            foldE (check_l2_entry h fileSize l2 i) [0..<unat (cs div 8)] (mark (l2Offset div cs) expected))"

definition check_block_entry :: "Header \<Rightarrow> u64 \<Rightarrow> byte list \<Rightarrow> nat \<Rightarrow> u64 list \<Rightarrow> cerr + u64 list" where
  "check_block_entry h fileSize rcTable i expected =
     (let cs = ClusterSize h; blockOffset = entry64 rcTable i in
      if blockOffset = 0 then Inr expected
      else if blockOffset + cs > fileSize then Inl (BlockBeyondFile i blockOffset)
      else Inr (mark (blockOffset div cs) expected))"

definition check_refcount ::
  "bfile \<Rightarrow> Header \<Rightarrow> u64 \<Rightarrow> u32 \<Rightarrow> byte list \<Rightarrow> u64 \<Rightarrow> u64 list \<Rightarrow> nat \<Rightarrow> unit \<Rightarrow> cerr + unit" where
  "check_refcount f h entriesPerBlock refcountBits rcTable rcEntries expected c u =
     (let blockIdx = of_nat c div entriesPerBlock;
          compare = (\<lambda>actual. if actual \<noteq> expected ! c then Inl (RefcountMismatch c actual (expected ! c)) else Inr ()) in
      if blockIdx < rcEntries \<and> entry64 rcTable (unat blockIdx) \<noteq> 0 then
        case ReadAt f (sint (entry64 rcTable (unat blockIdx))) (unat (ClusterSize h)) of
          None \<Rightarrow> Inl (CannotRead ''refcount block'' blockIdx)
        | Some blk \<Rightarrow> compare (readRefcount blk (of_nat c mod entriesPerBlock) refcountBits)
      else compare 0)"

definition check_tables :: "bfile \<Rightarrow> Header \<Rightarrow> cerr + unit" where
  "check_tables f h =
     (let fileSize = of_nat (length f);
          cs = ClusterSize h;
          l1Bytes = ucast (h_L1Size h) * 8;
          rcTableBytes = ucast (h_RefcountTableClusters h) * cs;
          refcountBits = push_bit (unat (h_RefcountOrder h)) 1;
          entriesPerBlock = cs * 8 div ucast refcountBits;
          totalClusters = (fileSize + cs - 1) div cs;
          l1Clusters = (l1Bytes + cs - 1) div cs in
      if h_RefcountTableOffset h + rcTableBytes > fileSize then Inl RefcountTableBeyondFile
      else if entriesPerBlock = 0 then Inl InvalidRefcountGeometry
      else
        let expected = mark_range (h_L1TableOffset h div cs) (unat l1Clusters)
              (mark_range (h_RefcountTableOffset h div cs) (unat (h_RefcountTableClusters h))
                (mark 0 (replicate (unat totalClusters) 0))) in
        case ReadAt f (sint (h_L1TableOffset h)) (unat l1Bytes) of
          None \<Rightarrow> Inl (CannotRead ''L1 table'' (h_L1TableOffset h))
        | Some l1 \<Rightarrow>
            case foldE (check_l1_entry f h fileSize l1) [0..<unat (h_L1Size h)] expected of
              Inl e \<Rightarrow> Inl e
            | Inr expected \<Rightarrow>
                case ReadAt f (sint (h_RefcountTableOffset h)) (unat rcTableBytes) of
                  None \<Rightarrow> Inl (CannotRead ''refcount table'' (h_RefcountTableOffset h))
                | Some rcTable \<Rightarrow>
                    let rcEntries = rcTableBytes div 8 in
                    case foldE (check_block_entry h fileSize rcTable) [0..<unat rcEntries] expected of
                      Inl e \<Rightarrow> Inl e
                    | Inr expected \<Rightarrow>
                        foldE (check_refcount f h entriesPerBlock refcountBits rcTable rcEntries expected)
                          [0..<unat totalClusters] ())"

definition Check :: "bfile \<Rightarrow> cerr + unit" where
  "Check f =
     (case readHeader f of
        Inl e \<Rightarrow> Inl (BadHeader e)
      | Inr h \<Rightarrow>
          case validateHeaderRanges h (int (length f)) of
            Some e \<Rightarrow> Inl (BadHeader e)
          | None \<Rightarrow>
              if h_Size h = 0 then Inl VirtualSizeZero
              else if h_RefcountOrder h > 6 then Inl (InvalidRefcountOrder (h_RefcountOrder h))
              else check_tables f h)"

section \<open>Loops\<close>

lemma foldE_skip: "(\<And>x. x \<in> set xs \<Longrightarrow> body x s = Inr s) \<Longrightarrow> foldE body xs s = Inr s"
  by (induction xs) auto

lemma foldE_fold:
  "(\<And>x t. x \<in> set xs \<Longrightarrow> length t = length s \<Longrightarrow> body x t = Inr (g x t)) \<Longrightarrow> (\<And>x t. length (g x t) = length t) \<Longrightarrow>
   foldE body xs s = Inr (fold g xs s)"
  by (induction xs arbitrary: s) auto

lemma foldE_ok_iff: "foldE body xs () = Inr () \<longleftrightarrow> (\<forall>x \<in> set xs. body x () = Inr ())"
  by (induction xs) (auto split: sum.splits)

lemma length_mark [simp]: "length (mark c ex) = length ex"
  by (simp add: mark_def)

text \<open>Marking a list of clusters counts how often each one is in it.\<close>

lemma length_fold_mark [simp]: "length (fold mark cs ex) = length ex"
  by (induction cs arbitrary: ex) auto

lemma nth_fold_mark:
  "c < length ex \<Longrightarrow> fold mark cs ex ! c = ex ! c + of_nat (count_list (map unat cs) c)"
proof (induction cs arbitrary: ex)
  case (Cons a cs)
  have "mark a ex ! c = ex ! c + (if unat a = c then 1 else 0)"
    using Cons.prems by (auto simp: mark_def)
  then show ?case using Cons.prems Cons.IH [of "mark a ex"] by auto
qed simp

lemma mark_range_fold: "mark_range start n ex = fold mark (map (\<lambda>i. start + of_nat i) [0..<n]) ex"
  by (simp add: mark_range_def fold_map comp_def)

end
