(* ===== verification/Qcow2Create.thy ===== *)
theory Qcow2Create
  imports Qcow2Check "HOL-Library.Monad_Syntax"
begin

text \<open>
  Creation of images, \<^verbatim>\<open>internal/qcow2/create.go\<close> and \<^verbatim>\<open>publish.go\<close>: the layout whose refcount structures
  must count themselves, the bytes written, the check of the finished file and its publication under
  a name that must be free.

  A file system is a map from paths to contents. The temporary name is an argument, since it is random,
  and so are the calls that fail: \<^verbatim>\<open>os.OpenFile\<close>, \<^verbatim>\<open>os.Link\<close> and \<^verbatim>\<open>os.Remove\<close>. \<^verbatim>\<open>Sync\<close>, \<^verbatim>\<open>Close\<close> and writes
  inside the range of an \<^verbatim>\<open>int64\<close> succeed.
\<close>

section \<open>The layout\<close>

text \<open>
  The loop that sizes the refcount table and its blocks. It is a partial function, so that not ending is the
  value \<open>None\<close>; that it ends is proved below.
\<close>

partial_function (option) rc_layout :: "u64 \<Rightarrow> u64 \<Rightarrow> u64 \<Rightarrow> u64 \<Rightarrow> u64 \<Rightarrow> (u64 \<times> u64) option" where
  "rc_layout cs entriesPerBlock l1Clusters rcTableClusters rcBlocks =
     (let totalMeta = 1 + rcTableClusters + rcBlocks + l1Clusters;
          neededBlocks = (totalMeta + entriesPerBlock - 1) div entriesPerBlock;
          neededTable = (neededBlocks * 8 + cs - 1) div cs in
      if neededBlocks \<le> rcBlocks \<and> neededTable \<le> rcTableClusters then Some (rcTableClusters, rcBlocks)
      else
        rc_layout cs entriesPerBlock l1Clusters
          (if neededTable > rcTableClusters then neededTable else rcTableClusters)
          (if neededBlocks > rcBlocks then neededBlocks else rcBlocks))"

definition l1_clusters :: "u32 \<Rightarrow> u64 \<Rightarrow> u64" where
  "l1_clusters l1Size cs =
     (let n = (ucast l1Size * 8 + cs - 1) div cs in if n = 0 then 1 else n)"

definition refcount_bits :: "Options option \<Rightarrow> u32" where
  "refcount_bits opts = push_bit (unat (refcountOrder opts)) 1"

definition entries_per_block :: "Options option \<Rightarrow> u64" where
  "entries_per_block opts = clusterSize opts * 8 div ucast (refcount_bits opts)"

section \<open>The bytes of an image\<close>

datatype ierr =
    SizeRequired
  | BackingRequired
  | BadBackingFormat string
  | BackingUnreadable
  | WriteError string
  | BackingPathTooLong
  | CreateFile
  | PostCheck cerr
  | AlreadyExists
  | PublishFailed
  | TempNotRemoved

definition set_header_backing :: "Header \<Rightarrow> u64 \<Rightarrow> u32 \<Rightarrow> Header" where
  "set_header_backing h off n = h\<lparr>h_BackingFileOffset := off, h_BackingFileSize := n\<rparr>"

definition image_header :: "Options option \<Rightarrow> u64 \<Rightarrow> u64 \<Rightarrow> u64 \<Rightarrow> Header" where
  "image_header opts sizeBytes rcTableClusters rcBlocks =
     (let cs = clusterSize opts in
      \<lparr>h_Magic = Magic, h_Version = Version, h_BackingFileOffset = 0, h_BackingFileSize = 0,
       h_ClusterBits = clusterBits opts, h_Size = sizeBytes, h_CryptMethod = 0,
       h_L1Size = l1Entries sizeBytes cs, h_L1TableOffset = (1 + rcTableClusters + rcBlocks) * cs,
       h_RefcountTableOffset = cs, h_RefcountTableClusters = ucast rcTableClusters,
       h_NbSnapshots = 0, h_SnapshotsOffset = 0, h_IncompatibleFeatures = 0, h_CompatibleFeatures = 0,
       h_AutoclearFeatures = 0, h_RefcountOrder = refcountOrder opts, h_HeaderLength = 104\<rparr>)"

text \<open>The header, its extensions and the backing path, all in cluster 0. A failure carries what was written.\<close>

definition wr :: "string \<Rightarrow> bfile \<Rightarrow> bfile option \<Rightarrow> (ierr \<times> bfile) + bfile" where
  "wr what f r = (case r of None \<Rightarrow> Inl (WriteError what, f) | Some f' \<Rightarrow> Inr f')"

definition write_cluster0 :: "Header \<Rightarrow> string \<Rightarrow> string \<Rightarrow> u64 \<Rightarrow> bfile \<Rightarrow> (ierr \<times> bfile) + bfile" where
  "write_cluster0 h backingPath backingFormat cs f =
     (case wr ''header'' f (writeHeader f h) of Inl e \<Rightarrow> Inl e | Inr f \<Rightarrow>
      if backingPath = '''' then wr ''end-of-extensions'' f (writeEndOfExtensions f 104)
      else
        let bf = (if backingFormat = '''' then ''qcow2'' else backingFormat) in
        case writeHeaderExtension f 104 ExtBackingFormat (to_bytes bf) of
          None \<Rightarrow> Inl (WriteError ''backing format ext'', f)
        | Some (f, n) \<Rightarrow>
            case wr ''end-of-extensions'' f (writeEndOfExtensions f (104 + n)) of Inl e \<Rightarrow> Inl e | Inr f \<Rightarrow>
            let extOffset = 104 + n + 8; backingBytes = to_bytes backingPath in
            if word_of_int extOffset + of_nat (length backingBytes) > cs then Inl (BackingPathTooLong, f)
            else
              case wr ''backing file path'' f (WriteAt f extOffset backingBytes) of Inl e \<Rightarrow> Inl e | Inr f \<Rightarrow>
              let h = set_header_backing h (word_of_int extOffset) (of_nat (length backingBytes)) in
              wr ''header'' f (writeHeader f h))"

definition rc_table :: "u64 \<Rightarrow> u64 \<Rightarrow> u64 \<Rightarrow> byte list" where
  "rc_table cs rcTableClusters rcBlocks =
     (let rcBlockBase = (1 + rcTableClusters) * cs in
      fold (\<lambda>b tab. bsplice tab (b * 8) (PutUint64 (rcBlockBase + of_nat b * cs)))
        [0..<unat rcBlocks] (replicate (unat (rcTableClusters * cs)) 0))"

definition set_one :: "u64 \<Rightarrow> u64 \<Rightarrow> u32 \<Rightarrow> nat \<Rightarrow> byte list \<Rightarrow> byte list" where
  "set_one cs entriesPerBlock refcountBits i blocks =
     (let b = unat (of_nat i div entriesPerBlock); e = of_nat i mod entriesPerBlock;
          lo = b * unat cs; hi = (b + 1) * unat cs in
      bsplice blocks lo (writeRefcount (bslice blocks lo hi) e 1 refcountBits))"

definition rc_blocks :: "u64 \<Rightarrow> u64 \<Rightarrow> u32 \<Rightarrow> u64 \<Rightarrow> u64 \<Rightarrow> byte list" where
  "rc_blocks cs entriesPerBlock refcountBits rcBlocks totalMeta =
     fold (set_one cs entriesPerBlock refcountBits) [0..<unat totalMeta] (replicate (unat (rcBlocks * cs)) 0)"

definition write_image ::
  "Options option \<Rightarrow> string \<Rightarrow> string \<Rightarrow> u64 \<Rightarrow> u64 \<Rightarrow> u64 \<Rightarrow> (ierr \<times> bfile) + bfile" where
  "write_image opts backingPath backingFormat sizeBytes rcTableClusters rcBlocks =
     (let cs = clusterSize opts;
          l1Clusters = l1_clusters (l1Entries sizeBytes cs) cs;
          totalMeta = 1 + rcTableClusters + rcBlocks + l1Clusters;
          h = image_header opts sizeBytes rcTableClusters rcBlocks in
      case write_cluster0 h backingPath backingFormat cs [] of Inl e \<Rightarrow> Inl e | Inr f \<Rightarrow>
      case wr ''refcount table'' f (WriteAt f (sint cs) (rc_table cs rcTableClusters rcBlocks)) of Inl e \<Rightarrow> Inl e | Inr f \<Rightarrow>
      case wr ''refcount blocks'' f (WriteAt f (sint ((1 + rcTableClusters) * cs))
             (rc_blocks cs (entries_per_block opts) (refcount_bits opts) rcBlocks totalMeta)) of Inl e \<Rightarrow> Inl e | Inr f \<Rightarrow>
      wr ''L1 table'' f (WriteAt f (sint ((1 + rcTableClusters + rcBlocks) * cs))
        (replicate (unat (l1Clusters * cs)) 0)))"

section \<open>Publication\<close>

type_synonym fs = "string \<rightharpoonup> bfile"

record io =
  io_open_fails :: bool
  io_link_fails :: bool
  io_remove_fails :: "string \<Rightarrow> bool"

definition remove :: "io \<Rightarrow> string \<Rightarrow> fs \<Rightarrow> fs" where
  "remove io p fs = (if io_remove_fails io p then fs else fs(p := None))"

definition publishNoReplace :: "io \<Rightarrow> string \<Rightarrow> string \<Rightarrow> fs \<Rightarrow> ierr option \<times> fs" where
  "publishNoReplace io tmpPath path fs =
     (if fs path \<noteq> None then (Some AlreadyExists, fs)
      else if io_link_fails io then (Some PublishFailed, fs)
      else
        let fs' = fs(path := fs tmpPath) in
        if io_remove_fails io tmpPath then (Some TempNotRemoved, remove io path fs')
        else (None, fs'(tmpPath := None)))"

definition createImage ::
  "io \<Rightarrow> string \<Rightarrow> string \<Rightarrow> string \<Rightarrow> string \<Rightarrow> u64 \<Rightarrow> Options option \<Rightarrow> fs \<Rightarrow> (ierr option \<times> fs) option" where
  "createImage io tmpPath path backingPath backingFormat sizeBytes opts fs = do {
     let cs = clusterSize opts;
     (rcTableClusters, rcBlocks) \<leftarrow>
       rc_layout cs (entries_per_block opts) (l1_clusters (l1Entries sizeBytes cs) cs) 1 1;
     Some (if io_open_fails io \<or> fs tmpPath \<noteq> None then (Some CreateFile, fs)
       else
         case write_image opts backingPath backingFormat sizeBytes rcTableClusters rcBlocks of
           Inl (e, f) \<Rightarrow> (Some e, remove io tmpPath (fs(tmpPath := Some f)))
         | Inr f \<Rightarrow>
             let fs1 = fs(tmpPath := Some f) in
             case Check f of
               Inl e \<Rightarrow> (Some (PostCheck e), remove io tmpPath fs1)
             | Inr _ \<Rightarrow>
                 case publishNoReplace io tmpPath path fs1 of
                   (None, fs2) \<Rightarrow> (None, fs2)
                 | (Some e, fs2) \<Rightarrow> (Some e, remove io tmpPath fs2))
   }"

definition Create :: "io \<Rightarrow> string \<Rightarrow> string \<Rightarrow> u64 \<Rightarrow> Options option \<Rightarrow> fs \<Rightarrow> (ierr option \<times> fs) option" where
  "Create io tmpPath path sizeBytes opts fs =
     (if sizeBytes = 0 then Some (Some SizeRequired, fs)
      else createImage io tmpPath path '''' '''' sizeBytes opts fs)"

definition info_size :: "fs \<Rightarrow> string \<Rightarrow> u64 option" where
  "info_size fs p =
     (case fs p of None \<Rightarrow> None
      | Some f \<Rightarrow> (case Info f of Inl e \<Rightarrow> None | Inr i \<Rightarrow> Some (i_VirtualSize i)))"

definition CreateWithBackingFormat ::
  "io \<Rightarrow> string \<Rightarrow> string \<Rightarrow> string \<Rightarrow> string \<Rightarrow> u64 \<Rightarrow> Options option \<Rightarrow> fs \<Rightarrow> (ierr option \<times> fs) option" where
  "CreateWithBackingFormat io tmpPath path backingPath backingFormat sizeBytes opts fs =
     (if backingPath = '''' then Some (Some BackingRequired, fs)
      else if backingFormat \<noteq> ''qcow2'' \<and> backingFormat \<noteq> ''raw'' then Some (Some (BadBackingFormat backingFormat), fs)
      else
        let inherited =
              (if sizeBytes \<noteq> 0 then Some sizeBytes
               else if backingFormat = ''qcow2'' then info_size fs backingPath
               else map_option (\<lambda>f. of_nat (length f)) (fs backingPath)) in
        case inherited of
          None \<Rightarrow> Some (Some BackingUnreadable, fs)
        | Some n \<Rightarrow>
            if n = 0 then Some (Some SizeRequired, fs)
            else createImage io tmpPath path backingPath backingFormat n opts fs)"

definition CreateWithBacking ::
  "io \<Rightarrow> string \<Rightarrow> string \<Rightarrow> string \<Rightarrow> u64 \<Rightarrow> Options option \<Rightarrow> fs \<Rightarrow> (ierr option \<times> fs) option" where
  "CreateWithBacking io tmpPath path backingPath sizeBytes opts fs =
     (if backingPath = '''' then Some (Some BackingRequired, fs)
      else
        case (if sizeBytes \<noteq> 0 then Some sizeBytes else info_size fs backingPath) of
          None \<Rightarrow> Some (Some BackingUnreadable, fs)
        | Some n \<Rightarrow>
            if n = 0 then Some (Some SizeRequired, fs)
            else createImage io tmpPath path backingPath ''qcow2'' n opts fs)"

definition CreateWithBackingURI ::
  "io \<Rightarrow> string \<Rightarrow> string \<Rightarrow> string \<Rightarrow> u64 \<Rightarrow> Options option \<Rightarrow> fs \<Rightarrow> (ierr option \<times> fs) option" where
  "CreateWithBackingURI io tmpPath path backingURI sizeBytes opts fs =
     (if backingURI = '''' then Some (Some BackingRequired, fs)
      else if sizeBytes = 0 then Some (Some SizeRequired, fs)
      else createImage io tmpPath path backingURI ''raw'' sizeBytes opts fs)"

section \<open>The layout loop ends\<close>

text \<open>The geometry a layout starts from: large enough blocks, and not too many clusters to count.\<close>

definition rc_geometry :: "u64 \<Rightarrow> u64 \<Rightarrow> u64 \<Rightarrow> bool" where
  "rc_geometry cs epb l1 \<longleftrightarrow> 512 \<le> unat cs \<and> unat cs \<le> 2 ^ 21 \<and> 64 \<le> unat epb \<and> unat epb \<le> 2 ^ 24 \<and> unat l1 \<le> 2 ^ 40"

lemma ceil_le:
  fixes x d m :: nat
  assumes "x \<le> m * d" "0 < d" shows "(x + d - 1) div d \<le> m"
proof -
  have "x + d - 1 < (m + 1) * d" using assms by (simp add: algebra_simps)
  then have "(x + d - 1) div d < m + 1" by (rule less_mult_imp_div_less)
  then show ?thesis by simp
qed

lemma rc_layout_step:
  assumes g: "rc_geometry cs epb l1" and T: "unat T \<le> unat l1 + 3" and B: "unat B \<le> unat l1 + 3"
  defines "tot \<equiv> 1 + T + B + l1"
  defines "nb \<equiv> (tot + epb - 1) div epb"
  defines "nt \<equiv> (nb * 8 + cs - 1) div cs"
  shows "unat tot = 1 + unat T + unat B + unat l1"
    and "unat nb = (unat tot + unat epb - 1) div unat epb" and "unat nb \<le> unat l1 + 3"
    and "unat nt = (unat nb * 8 + unat cs - 1) div unat cs" and "unat nt \<le> unat l1 + 3"
proof -
  have b: "512 \<le> unat cs" "unat cs \<le> 2097152" "64 \<le> unat epb" "unat epb \<le> 16777216" "unat l1 \<le> 1099511627776"
    using g by (simp_all add: rc_geometry_def)
  have 1: "unat (1 + T) = 1 + unat T" using T b by (simp add: unat_add_lem [THEN iffD1])
  have 2: "unat (1 + T + B) = 1 + unat T + unat B" using T B b by (subst unat_add_lem [THEN iffD1]) (simp_all add: 1)
  show tot: "unat tot = 1 + unat T + unat B + unat l1"
    unfolding tot_def using T B b by (subst unat_add_lem [THEN iffD1]) (simp_all add: 2)
  show nb: "unat nb = (unat tot + unat epb - 1) div unat epb"
    unfolding nb_def using T B b tot by (intro unat_ceil) simp_all
  have "unat tot \<le> (unat l1 + 3) * 64" using tot T B by simp
  also have "\<dots> \<le> (unat l1 + 3) * unat epb" using b by (intro mult_le_mono2)
  finally show nbl: "unat nb \<le> unat l1 + 3" unfolding nb using b by (intro ceil_le) simp_all
  have n8: "unat (nb * 8) = unat nb * 8" using unat_times [of nb 8] nbl b by simp
  show nt: "unat nt = (unat nb * 8 + unat cs - 1) div unat cs"
    unfolding nt_def using nbl b n8 unat_ceil [of "nb * 8" cs] by simp
  have "unat nb * 8 \<le> (unat l1 + 3) * 8" using nbl by simp
  also have "\<dots> \<le> (unat l1 + 3) * unat cs" using b by (intro mult_le_mono2) simp
  finally show "unat nt \<le> unat l1 + 3" unfolding nt using b by (intro ceil_le) simp_all
qed

definition needed_blocks :: "nat \<Rightarrow> nat \<Rightarrow> nat \<Rightarrow> nat \<Rightarrow> nat" where
  "needed_blocks l e t b = (1 + t + b + l + e - 1) div e"

lemma needed_blocks_mono: "t \<le> t' \<Longrightarrow> b \<le> b' \<Longrightarrow> needed_blocks l e t b \<le> needed_blocks l e t' b'"
  unfolding needed_blocks_def by (rule div_le_mono) simp

lemma rc_layout_ends:
  assumes g: "rc_geometry cs epb l1" and "unat T \<le> unat l1 + 3" "unat B \<le> unat l1 + 3" "1 \<le> unat T" "1 \<le> unat B"
    "unat B \<le> needed_blocks (unat l1) (unat epb) (unat T) (unat B)"
  shows "\<exists>T' B'. rc_layout cs epb l1 T B = Some (T', B') \<and> 1 \<le> unat T' \<and> 1 \<le> unat B' \<and>
    unat T' \<le> unat l1 + 3 \<and> unat B' \<le> unat l1 + 3 \<and>
    1 + unat T' + unat B' + unat l1 \<le> unat B' * unat epb \<and> unat B' * 8 \<le> unat T' * unat cs"
  using assms(2-)
proof (induction "2 * (unat l1 + 3) - (unat T + unat B)" arbitrary: T B rule: less_induct)
  case less
  define nb where "nb = (1 + T + B + l1 + epb - 1) div epb"
  define nt where "nt = (nb * 8 + cs - 1) div cs"
  note st = rc_layout_step [OF g less.prems(1,2), folded nb_def, folded nt_def]
  have pos: "0 < unat epb" "0 < unat cs" using g by (auto simp: rc_geometry_def)
  have nbn: "unat nb = needed_blocks (unat l1) (unat epb) (unat T) (unat B)"
    by (simp only: st(1,2) needed_blocks_def)
  define T2 B2 where "T2 = (if nt > T then nt else T)" and "B2 = (if nb > B then nb else B)"
  have unf: "rc_layout cs epb l1 T B = (if nb \<le> B \<and> nt \<le> T then Some (T, B) else rc_layout cs epb l1 T2 B2)"
    by (subst rc_layout.simps) (simp only: Let_def nb_def nt_def T2_def B2_def)
  show ?case
  proof (cases "nb \<le> B \<and> nt \<le> T")
    case True
    then have le: "unat nb \<le> unat B" "unat nt \<le> unat T" by (simp_all add: word_le_nat_alt)
    then have eq: "unat B = unat nb" using less.prems(5) nbn by simp
    have "1 + unat T + unat B + unat l1 \<le> unat nb * unat epb"
      using le_ceil_mult [OF pos(1), of "1 + unat T + unat B + unat l1"] unfolding st(1) [symmetric] st(2) [symmetric] .
    moreover
    have "unat nb * 8 \<le> unat nt * unat cs"
      using le_ceil_mult [OF pos(2), of "unat nb * 8"] unfolding st(4) [symmetric] .
    then have "unat nb * 8 \<le> unat T * unat cs" using mult_le_mono1 [OF le(2), of "unat cs"] by (rule order_trans)
    ultimately show ?thesis using less.prems unf True eq by auto
  next
    case False
    have grow: "unat T2 + unat B2 > unat T + unat B" "unat T2 \<ge> unat T" "unat B2 \<ge> unat B"
      using False by (auto simp: T2_def B2_def word_less_nat_alt word_le_nat_alt not_le)
    have "unat B2 \<le> needed_blocks (unat l1) (unat epb) (unat T) (unat B)" using less.prems(5) nbn by (simp add: B2_def)
    also have "\<dots> \<le> needed_blocks (unat l1) (unat epb) (unat T2) (unat B2)" using grow by (intro needed_blocks_mono)
    finally have inv: "unat B2 \<le> needed_blocks (unat l1) (unat epb) (unat T2) (unat B2)" .
    have bnd: "unat T2 \<le> unat l1 + 3" "unat B2 \<le> unat l1 + 3" using st(3,5) less.prems by (auto simp: T2_def B2_def)
    have "rc_layout cs epb l1 T B = rc_layout cs epb l1 T2 B2" using unf unfolding if_not_P [OF False] .
    moreover have "2 * (unat l1 + 3) - (unat T2 + unat B2) < 2 * (unat l1 + 3) - (unat T + unat B)"
    proof (rule diff_less_mono2)
      show "unat T + unat B < 2 * (unat l1 + 3)" using grow(1) bnd by simp
    qed (rule grow(1))
    moreover have "1 \<le> unat T2" "1 \<le> unat B2" using grow less.prems(3,4) by linarith+
    ultimately show ?thesis using less.hyps [of T2 B2, OF _ bnd _ _ inv] by (simp only:)
  qed
qed

text \<open>The geometry every set of options and every size gives.\<close>

lemma unat_clusterSize: "unat (clusterSize opts) = 2 ^ unat (clusterBits opts)"
  using clusterBits_bounds [of opts] by (simp add: clusterSize_def)

lemma clusterSize_bounds: "512 \<le> unat (clusterSize opts)" "unat (clusterSize opts) \<le> 2 ^ 21"
proof -
  note b = clusterBits_bounds [of opts]
  have "(2 :: nat) ^ 9 \<le> 2 ^ unat (clusterBits opts)" by (rule power_increasing) (use b in simp_all)
  then show "512 \<le> unat (clusterSize opts)" by (simp add: unat_clusterSize)
  show "unat (clusterSize opts) \<le> 2 ^ 21" unfolding unat_clusterSize by (rule power_increasing) (use b in simp_all)
qed

lemma unat_refcount_bits: "unat (refcount_bits opts) = 2 ^ unat (refcountOrder opts)"
proof -
  have o: "unat (refcountOrder opts) \<le> 6" using refcountOrder_bounds [of opts] by simp
  then have "(2 :: nat) ^ unat (refcountOrder opts) \<le> 2 ^ 6" by (rule power_increasing) simp
  moreover have "refcount_bits opts = of_nat (2 ^ unat (refcountOrder opts))" by (simp add: refcount_bits_def)
  ultimately show ?thesis by (simp only: unat_of_nat) simp
qed

lemma refcount_bits_widths: "refcount_bits opts \<in> widths"
proof -
  have "unat (refcountOrder opts) \<in> {1, 2, 3, 4, 5, 6}" using refcountOrder_bounds [of opts] by auto
  then show ?thesis by (auto simp: refcount_bits_def widths_def)
qed

lemma unat_entries_per_block:
  "unat (entries_per_block opts) = 2 ^ (unat (clusterBits opts) + 3 - unat (refcountOrder opts))"
proof -
  let ?k = "unat (clusterBits opts)" and ?r = "unat (refcountOrder opts)"
  note b = clusterBits_bounds [of opts] refcountOrder_bounds [of opts]
  have "unat (clusterSize opts * 8) = 2 ^ ?k * 8"
    using unat_times [of "clusterSize opts" 8] clusterSize_bounds(2) [of opts] by (simp add: unat_clusterSize)
  then have "unat (entries_per_block opts) = 2 ^ (?k + 3) div 2 ^ ?r"
    by (simp add: entries_per_block_def unat_div unat_refcount_bits power_add)
  also have "\<dots> = 2 ^ (?k + 3 - ?r)" using b by (intro power_diff [symmetric]) simp_all
  finally show ?thesis .
qed

lemma entries_per_block_bounds: "64 \<le> unat (entries_per_block opts)" "unat (entries_per_block opts) \<le> 2 ^ 24"
proof -
  note b = clusterBits_bounds [of opts] refcountOrder_bounds [of opts]
  have "(2 :: nat) ^ 6 \<le> 2 ^ (unat (clusterBits opts) + 3 - unat (refcountOrder opts))"
    by (rule power_increasing) (use b in linarith, simp)
  then show "64 \<le> unat (entries_per_block opts)" by (simp add: unat_entries_per_block)
  show "unat (entries_per_block opts) \<le> 2 ^ 24"
    unfolding unat_entries_per_block by (rule power_increasing) (use b in linarith, simp)
qed

lemma unat_l1_clusters:
  assumes "512 \<le> unat cs" "unat cs \<le> 2 ^ 21"
  shows "unat (l1_clusters n cs) = max 1 ((unat n * 8 + unat cs - 1) div unat cs)"
    and "unat (l1_clusters n cs) \<le> 2 ^ 40"
proof -
  have n: "unat n < 2 ^ 32" using unsigned_less [of n] by simp
  have u: "unat ((ucast n * 8 + cs - 1) div cs) = (unat n * 8 + unat cs - 1) div unat cs"
    using unat_ceil [of "ucast n * 8" cs] n assms by (simp add: unat_l1_bytes)
  then show v: "unat (l1_clusters n cs) = max 1 ((unat n * 8 + unat cs - 1) div unat cs)"
    by (auto simp: l1_clusters_def Let_def max_def word_unat_eq_iff simp del: unat_eq_zero)
  have "(unat n * 8 + unat cs - 1) div unat cs \<le> unat n * 8 + unat cs - 1" by simp
  also have "\<dots> \<le> 2 ^ 40" using n assms by simp
  finally show "unat (l1_clusters n cs) \<le> 2 ^ 40" by (simp add: v)
qed

lemma rc_geometry_all: "rc_geometry (clusterSize opts) (entries_per_block opts) (l1_clusters n (clusterSize opts))"
  using clusterSize_bounds [of opts] entries_per_block_bounds [of opts] unat_l1_clusters(2) [OF clusterSize_bounds, of n opts]
  by (simp add: rc_geometry_def)

lemma rc_layout_all:
  "\<exists>T B. rc_layout (clusterSize opts) (entries_per_block opts) l1 1 1 = Some (T, B) \<and> 1 \<le> unat T \<and> 1 \<le> unat B \<and>
    unat T \<le> unat l1 + 3 \<and> unat B \<le> unat l1 + 3 \<and>
    1 + unat T + unat B + unat l1 \<le> unat B * unat (entries_per_block opts) \<and> unat B * 8 \<le> unat T * unat (clusterSize opts)"
  if "l1 = l1_clusters n (clusterSize opts)"
  using rc_layout_ends [OF rc_geometry_all, of 1 n opts 1] entries_per_block_bounds [of opts]
  by (simp add: that needed_blocks_def Suc_leI div_greater_zero_iff)

text \<open>
  For every choice of options and every virtual size the loop that sizes the refcount table and its blocks
  ends, and what it settles on counts every metadata cluster, the table and the blocks included, and
  has a table entry for every block.
\<close>

theorem rc_layout_terminates:
  "\<exists>T B. rc_layout (clusterSize opts) (entries_per_block opts) (l1_clusters (l1Entries sizeBytes (clusterSize opts)) (clusterSize opts)) 1 1 = Some (T, B) \<and>
    1 + unat T + unat B + unat (l1_clusters (l1Entries sizeBytes (clusterSize opts)) (clusterSize opts)) \<le> unat B * unat (entries_per_block opts) \<and>
    unat B * 8 \<le> unat T * unat (clusterSize opts)"
  using rc_layout_all [OF refl] by blast

section \<open>The refcount table and its blocks\<close>

lemma fold_splice_length:
  "(\<And>b. b < n \<Longrightarrow> length (g b) = 8) \<Longrightarrow> n * 8 \<le> length t \<Longrightarrow>
   length (fold (\<lambda>b tab. bsplice tab (b * 8) (g b)) [0..<n] t) = length t"
  by (induction n) auto

lemma entry64_bsplice:
  assumes "(i + 1) * 8 \<le> length t" "(j + 1) * 8 \<le> length t"
  shows "entry64 (bsplice t (i * 8) (PutUint64 v)) j = (if i = j then v else entry64 t j)"
  using bslice_bsplice [OF assms, of "PutUint64 v"] by (simp add: entry64_def)

lemma entry64_zeros: "(j + 1) * 8 \<le> n \<Longrightarrow> entry64 (replicate n 0) j = 0"
  by (simp add: entry64_def bslice_def Uint64_def)

lemma fold_entries:
  assumes "n * 8 \<le> length t" "(j + 1) * 8 \<le> length t"
  shows "entry64 (fold (\<lambda>b tab. bsplice tab (b * 8) (PutUint64 (g b))) [0..<n] t) j = (if j < n then g j else entry64 t j)"
  using assms(1)
proof (induction n)
  case (Suc n)
  let ?t = "fold (\<lambda>b tab. bsplice tab (b * 8) (PutUint64 (g b))) [0..<n] t"
  have l: "length ?t = length t" using Suc.prems by (intro fold_splice_length) simp_all
  have "entry64 (bsplice ?t (n * 8) (PutUint64 (g n))) j = (if n = j then g n else entry64 ?t j)"
    using Suc.prems assms(2) by (intro entry64_bsplice) (simp_all add: l)
  then show ?case using Suc by auto
qed simp

lemma rc_table_props:
  assumes "unat (T * cs) = t * 8" "unat B \<le> t"
  shows "length (rc_table cs T B) = t * 8"
    and "j < t \<Longrightarrow> entry64 (rc_table cs T B) j = (if j < unat B then (1 + T) * cs + of_nat j * cs else 0)"
proof -
  show "length (rc_table cs T B) = t * 8"
    using assms by (simp add: rc_table_def Let_def fold_splice_length)
  show "j < t \<Longrightarrow> entry64 (rc_table cs T B) j = (if j < unat B then (1 + T) * cs + of_nat j * cs else 0)"
    using assms fold_entries [of "unat B" "replicate (t * 8) 0" j "\<lambda>b. (1 + T) * cs + of_nat b * cs"]
    by (simp add: rc_table_def Let_def entry64_zeros)
qed

lemma bslice_replicate: "j \<le> n \<Longrightarrow> bslice (replicate n 0) i j = replicate (j - i) 0"
  by (simp add: bslice_def)

lemma readRefcount_zeros:
  assumes "bits \<in> widths" "fits (replicate n 0) i bits"
  shows "readRefcount (replicate n 0) i bits = 0"
proof -
  have n: "unat (of_nat n :: u64) = n" using assms(2) by (simp add: fits_def unat_of_nat)
  have b: "unat (i * 2) + 2 \<le> n" if "bits = 16"
    using that assms(2) bytes_entry(1) [of 2 i "replicate n 0"] by (simp add: fits_def)
  have c: "unat (i * 4) + 4 \<le> n" if "bits = 32"
    using that assms(2) bytes_entry(1) [of 4 i "replicate n 0"] by (simp add: fits_def)
  have d: "unat (i * 8) + 8 \<le> n" if "bits = 64"
    using that assms(2) bytes_entry(1) [of 8 i "replicate n 0"] by (simp add: fits_def)
  show ?thesis
    using assms(1) b c d
    by (auto simp: widths_def readRefcount_def Let_def bslice_replicate Uint16_def Uint32_def Uint64_def word_less_nat_alt n)
qed

lemma fits_block: "unat epb * unat bits = 8 * length blk \<Longrightarrow> length blk < 2 ^ 32 \<Longrightarrow> unat e < unat epb \<Longrightarrow> fits blk e bits"
  unfolding fits_def by (metis Suc_eq_plus1 Suc_leI mult_le_mono1)

lemma div_mod_unique: "b * E + e = n \<longleftrightarrow> b = n div E \<and> e = n mod E" if "e < E" for b e n E :: nat
  using that by auto

lemma set_one_read:
  assumes geo: "unat epb * unat bits = 8 * unat cs" "bits \<in> widths" "unat cs < 2 ^ 32"
    and len: "length bl = nB * unat cs" and n: "n < nB * unat epb" "n < 2 ^ 64"
    and be: "b < nB" "unat e < unat epb"
  shows "length (set_one cs epb bits n bl) = length bl"
    and "readRefcount (bslice (set_one cs epb bits n bl) (b * unat cs) ((b + 1) * unat cs)) e bits =
      (if b * unat epb + unat e = n then 1 else readRefcount (bslice bl (b * unat cs) ((b + 1) * unat cs)) e bits)"
proof -
  let ?C = "unat cs" and ?E = "unat epb"
  have E: "0 < ?E" using be(2) by simp
  have nw: "unat (of_nat n :: u64) = n" using n(2) by (simp add: unat_of_nat)
  define b0 e0 where "b0 = n div ?E" and "e0 = (of_nat n mod epb :: u64)"
  have ub: "unat (of_nat n div epb) = b0" and ue: "unat e0 = n mod ?E"
    by (simp_all add: b0_def e0_def unat_div unat_mod nw)
  have b0: "b0 < nB" unfolding b0_def using n(1) by (simp add: less_mult_imp_div_less)
  have blk: "(x + 1) * ?C \<le> length bl" if "x < nB" for x
    unfolding len using that by (intro mult_le_mono1) simp
  define blk0 where "blk0 = bslice bl (b0 * ?C) ((b0 + 1) * ?C)"
  have l0: "length blk0 = ?C" using blk [OF b0] by (simp add: blk0_def)
  have f0: "fits blk0 e0 bits" using mod_less_divisor [OF E, of n] geo by (intro fits_block) (simp_all add: l0 ue)
  have fe: "fits blk0 e bits" using be(2) geo by (intro fits_block) (simp_all add: l0)
  define new where "new = writeRefcount blk0 e0 1 bits"
  have ln: "length new = ?C" unfolding new_def using f0 geo(2) by (simp add: l0)
  have set: "set_one cs epb bits n bl = bsplice bl (b0 * ?C) new"
    by (simp add: set_one_def Let_def ub e0_def [symmetric] blk0_def new_def)
  show "length (set_one cs epb bits n bl) = length bl"
    unfolding set using blk [OF b0] by (intro length_bsplice) (simp add: ln algebra_simps)
  have add: "(b + 1) * ?C = b * ?C + ?C" by simp
  have sl: "bslice (set_one cs epb bits n bl) (b * ?C) ((b + 1) * ?C) =
      (if b0 = b then new else bslice bl (b * ?C) ((b + 1) * ?C))"
    unfolding set add using bslice_bsplice [OF blk [OF b0] blk [OF be(1)] ln] .
  have "1 \<le> unat bits" using geo(2) by (auto simp: widths_def)
  then have "(1 :: nat) < 2 ^ unat bits" by (intro one_less_power) simp_all
  then have "unat (1 :: u16) < 2 ^ unat bits" by simp
  then have rd: "readRefcount new e bits = (if e0 = e then 1 else readRefcount blk0 e bits)"
    unfolding new_def using read_writeRefcount [OF geo(2) f0 fe, of 1] by simp
  have "b * ?E + unat e = n \<longleftrightarrow> b = b0 \<and> e = e0"
    using div_mod_unique [OF be(2), of b n] by (simp add: b0_def ue word_unat_eq_iff)
  then show "readRefcount (bslice (set_one cs epb bits n bl) (b * ?C) ((b + 1) * ?C)) e bits =
      (if b * ?E + unat e = n then 1 else readRefcount (bslice bl (b * ?C) ((b + 1) * ?C)) e bits)"
    unfolding sl using rd by (auto simp: blk0_def)
qed

lemma rc_blocks_read:
  assumes geo: "unat epb * unat bits = 8 * unat cs" "bits \<in> widths" "unat cs < 2 ^ 32"
    and n: "n \<le> nB * unat epb" "n < 2 ^ 64" and be: "b < nB" "unat e < unat epb"
  shows "length (fold (set_one cs epb bits) [0..<n] (replicate (nB * unat cs) 0)) = nB * unat cs"
    and "readRefcount (bslice (fold (set_one cs epb bits) [0..<n] (replicate (nB * unat cs) 0)) (b * unat cs) ((b + 1) * unat cs)) e bits =
      (if b * unat epb + unat e < n then 1 else 0)"
proof -
  let ?f = "\<lambda>n. fold (set_one cs epb bits) [0..<n] (replicate (nB * unat cs) 0)"
  have "length (?f n) = nB * unat cs \<and>
      readRefcount (bslice (?f n) (b * unat cs) ((b + 1) * unat cs)) e bits = (if b * unat epb + unat e < n then 1 else 0)"
    using n
  proof (induction n)
    case 0
    have "(b + 1) * unat cs \<le> nB * unat cs" using be(1) by (intro mult_le_mono1) simp
    then have "bslice (replicate (nB * unat cs) 0) (b * unat cs) ((b + 1) * unat cs) = replicate (unat cs) 0"
      by (simp add: bslice_replicate)
    moreover have "fits (replicate (unat cs) 0) e bits" using geo be(2) by (intro fits_block) simp_all
    ultimately show ?case using readRefcount_zeros [OF geo(2)] by simp
  next
    case (Suc n)
    then have IH: "length (?f n) = nB * unat cs"
      "readRefcount (bslice (?f n) (b * unat cs) ((b + 1) * unat cs)) e bits = (if b * unat epb + unat e < n then 1 else 0)"
      by simp_all
    have "n < nB * unat epb" "n < 2 ^ 64" using Suc.prems by simp_all
    note st = set_one_read [OF geo IH(1) this be]
    have "?f (Suc n) = set_one cs epb bits n (?f n)" by simp
    then show ?case using st IH by auto
  qed
  then show "length (?f n) = nB * unat cs"
    "readRefcount (bslice (?f n) (b * unat cs) ((b + 1) * unat cs)) e bits = (if b * unat epb + unat e < n then 1 else 0)"
    by blast+
qed

end
