(* ===== verification/Qcow2Created.thy ===== *)
theory Qcow2Created
  imports Qcow2Create
begin

text \<open>
  What a created image is: its bytes laid out, its header accepted by the reader, its
  refcounts accepted by the check, and its metadata read back. On top of that, the file system
  before and after a creation.
\<close>

section \<open>Writing at the end of a file\<close>

lemma file_write_end: "d \<noteq> [] \<Longrightarrow> length f \<le> p \<Longrightarrow> file_write f p d = f @ replicate (p - length f) 0 @ d"
  by (simp add: file_write_def)

lemma file_write_over: "d \<noteq> [] \<Longrightarrow> length d \<le> length f \<Longrightarrow> file_write f 0 d = d @ drop (length d) f"
  by (simp add: file_write_def)

lemma sint_small: "unat (w :: u64) < 2 ^ 63 \<Longrightarrow> sint w = int (unat w)"
proof -
  assume "unat w < 2 ^ 63"
  moreover have u: "int (unat w) = uint w" by simp
  ultimately have "uint w < 2 ^ 63" by (metis of_nat_less_iff of_nat_numeral of_nat_power)
  then have "signed_take_bit 63 (uint w) = uint w" by (intro signed_take_bit_int_eq_self) (simp_all add: order_trans [of _ 0])
  then show ?thesis by (simp add: sint_uint)
qed

lemma length_extension_bytes: "length (extension_bytes t d) = 8 + (length d + 7) div 8 * 8"
proof -
  have "length d \<le> (length d + 7) div 8 * 8" by presburger
  then show ?thesis by (simp add: extension_bytes_def Let_def)
qed

lemma encode_header_ne [simp]: "encode_header h \<noteq> []"
  by (metis length_encode_header list.size(3) zero_neq_numeral)

section \<open>Cluster 0\<close>

definition format_of :: "string \<Rightarrow> string" where
  "format_of fmt = (if fmt = '''' then ''qcow2'' else fmt)"

definition format_ext :: "string \<Rightarrow> byte list" where
  "format_ext fmt = extension_bytes ExtBackingFormat (to_bytes (format_of fmt))"

definition backed_header :: "Header \<Rightarrow> string \<Rightarrow> string \<Rightarrow> Header" where
  "backed_header h backing fmt =
     (if backing = '''' then h
      else set_header_backing h (of_nat (112 + length (format_ext fmt))) (of_nat (length backing)))"

definition cluster0 :: "Header \<Rightarrow> string \<Rightarrow> string \<Rightarrow> byte list" where
  "cluster0 h backing fmt =
     encode_header (backed_header h backing fmt) @
     (if backing = '''' then replicate 8 0 else format_ext fmt @ replicate 8 0 @ to_bytes backing)"

definition backing_fits :: "string \<Rightarrow> string \<Rightarrow> nat \<Rightarrow> bool" where
  "backing_fits backing fmt c \<longleftrightarrow> backing = '''' \<or> 112 + length (format_ext fmt) + length backing \<le> c"

lemma length_cluster0:
  "length (cluster0 h backing fmt) =
     (if backing = '''' then 112 else 112 + length (format_ext fmt) + length backing)"
  by (simp add: cluster0_def)

lemma write_cluster0_plain: "write_cluster0 h '''' fmt cs [] = Inr (cluster0 h '''' fmt)"
  by (simp add: write_cluster0_def wr_def writeHeader_def writeEndOfExtensions_def WriteAt_def max_i64_def
      file_write_end cluster0_def backed_header_def)

lemma write_cluster0_backed:
  assumes "backing \<noteq> ''''" "112 + length (format_ext fmt) + length backing \<le> unat cs" "unat cs \<le> 2 ^ 21"
  shows "write_cluster0 h backing fmt cs [] = Inr (cluster0 h backing fmt)"
proof -
  let ?e = "format_ext fmt" and ?p = "to_bytes backing"
  define n where "n = length ?e"
  have e: "?e \<noteq> []" by (simp add: format_ext_def extension_bytes_def Let_def PutUint32_def flip: length_greater_0_conv)
  have p: "?p \<noteq> []" using assms(1) by simp
  have small: "112 + n + length backing \<le> 2097152" using assms(2,3) by (simp add: n_def)
  have 1: "writeHeader [] h = Some (encode_header h)"
    by (simp add: writeHeader_def WriteAt_def max_i64_def file_write_end)
  have 2: "writeHeaderExtension (encode_header h) 104 ExtBackingFormat (to_bytes (format_of fmt)) = Some (encode_header h @ ?e, int n)"
    using e small by (simp add: writeHeaderExtension_def WriteAt_def max_i64_def file_write_end format_ext_def n_def)
  have 3: "writeEndOfExtensions (encode_header h @ ?e) (104 + int n) = Some (encode_header h @ ?e @ replicate 8 0)"
    using small by (simp add: writeEndOfExtensions_def WriteAt_def max_i64_def file_write_end n_def nat_add_distrib)
  have 4: "WriteAt (encode_header h @ ?e @ replicate 8 0) (104 + int n + 8) ?p = Some (encode_header h @ ?e @ replicate 8 0 @ ?p)"
    using small p by (simp add: WriteAt_def max_i64_def file_write_end n_def nat_add_distrib)
  let ?h = "set_header_backing h (word_of_int (104 + int n + 8)) (of_nat (length ?p))"
  have 5: "writeHeader (encode_header h @ ?e @ replicate 8 0 @ ?p) ?h = Some (encode_header ?h @ ?e @ replicate 8 0 @ ?p)"
    by (simp add: writeHeader_def WriteAt_def max_i64_def file_write_over)
  have off: "(word_of_int (104 + int n + 8) :: u64) = of_nat (112 + n)"
    by simp
  have room: "\<not> (word_of_int (104 + int n + 8) + of_nat (length ?p) > cs)"
  proof -
    have "unat (of_nat (112 + n + length backing) :: u64) = 112 + n + length backing"
      using small by (simp only: unat_of_nat) simp
    then show ?thesis
      using assms(2) by (simp only: off length_to_bytes of_nat_add [symmetric] word_less_nat_alt n_def [symmetric] not_less)
  qed
  show ?thesis
    using assms(1) 1 2 3 4 5 room off
    by (simp add: write_cluster0_def wr_def Let_def format_of_def [symmetric] cluster0_def backed_header_def n_def)
qed

section \<open>The numbers of a layout\<close>

definition opt_coverage :: "Options option \<Rightarrow> nat" where
  "opt_coverage opts = 2 ^ (2 * unat (clusterBits opts) - 3)"

text \<open>Sizes whose L1 table stays within the 64 MiB the reader accepts.\<close>

definition size_ok :: "Options option \<Rightarrow> u64 \<Rightarrow> bool" where
  "size_ok opts sz \<longleftrightarrow> 0 < unat sz \<and> unat sz \<le> 8388608 * opt_coverage opts"

abbreviation l1_size :: "Options option \<Rightarrow> u64 \<Rightarrow> u32" where
  "l1_size opts sz \<equiv> l1Entries sz (clusterSize opts)"

abbreviation l1_cl :: "Options option \<Rightarrow> u64 \<Rightarrow> u64" where
  "l1_cl opts sz \<equiv> l1_clusters (l1_size opts sz) (clusterSize opts)"

definition settled :: "Options option \<Rightarrow> u64 \<Rightarrow> u64 \<Rightarrow> u64 \<Rightarrow> bool" where
  "settled opts sz T B \<longleftrightarrow> rc_layout (clusterSize opts) (entries_per_block opts) (l1_cl opts sz) 1 1 = Some (T, B)"

lemma opt_coverage_bounds: "32768 \<le> opt_coverage opts" "opt_coverage opts \<le> 549755813888"
proof -
  note b = clusterBits_bounds [of opts]
  have "(2 :: nat) ^ 15 \<le> opt_coverage opts" unfolding opt_coverage_def by (rule power_increasing) (use b in linarith, simp)
  then show "32768 \<le> opt_coverage opts" by simp
  have "opt_coverage opts \<le> 2 ^ 39" unfolding opt_coverage_def by (rule power_increasing) (use b in linarith, simp)
  then show "opt_coverage opts \<le> 549755813888" by simp
qed

lemma unat_opt_coverage: "unat (clusterSize opts * (clusterSize opts div 8)) = opt_coverage opts"
  unfolding clusterSize_def opt_coverage_def using clusterBits_bounds [of opts] by (intro unat_coverage) simp_all

lemma l1Entries_ok:
  assumes "size_ok opts sz"
  shows "unat (l1_size opts sz) = (unat sz + opt_coverage opts - 1) div opt_coverage opts"
    "1 \<le> unat (l1_size opts sz)" "unat (l1_size opts sz) \<le> 8388608"
proof -
  let ?c = "clusterSize opts * (clusterSize opts div 8)" and ?v = "opt_coverage opts"
  note b = opt_coverage_bounds [of opts]
  define n where "n = (sz + ?c - 1) div ?c"
  have un: "unat n = (unat sz + ?v - 1) div ?v"
    unfolding n_def using unat_ceil [of sz ?c] assms b by (simp add: unat_opt_coverage size_ok_def)
  have le: "unat n \<le> 8388608"
    unfolding un using assms b by (intro ceil_le) (simp_all add: size_ok_def)
  have ge: "1 \<le> unat n"
  proof -
    have "0 < unat sz" using assms by (simp add: size_ok_def)
    then have "?v \<le> unat sz + ?v - 1" by linarith
    then have "?v div ?v \<le> (unat sz + ?v - 1) div ?v" by (rule div_le_mono)
    then show ?thesis unfolding un using b by simp
  qed
  then have "n \<noteq> 0" by auto
  then have l: "l1_size opts sz = ucast n" by (simp add: l1Entries_def n_def [symmetric])
  have "unat (ucast n :: u32) = unat n"
    using le by (simp add: unsigned_ucast_eq unsigned_take_bit_eq take_bit_nat_eq_self)
  then show "unat (l1_size opts sz) = (unat sz + ?v - 1) div ?v" "1 \<le> unat (l1_size opts sz)" "unat (l1_size opts sz) \<le> 8388608"
    using un le ge by (simp_all add: l)
qed

lemma unat_mult_small:
  fixes a c :: u64
  assumes "unat a \<le> 1048576" "unat c \<le> 2097152"
  shows "unat (a * c) = unat a * unat c" "unat a * unat c \<le> 2199023255552"
proof -
  show le: "unat a * unat c \<le> 2199023255552" using mult_le_mono [OF assms] by simp
  then show "unat (a * c) = unat a * unat c" by (intro unat_mult_lem [THEN iffD1]) simp
qed

lemma settled_facts:
  assumes s: "size_ok opts sz" and lay: "settled opts sz T B"
  shows "1 \<le> unat (l1_cl opts sz)" "unat (l1_cl opts sz) \<le> 200000"
    "unat (l1_cl opts sz) = (unat (l1_size opts sz) * 8 + unat (clusterSize opts) - 1) div unat (clusterSize opts)"
    "1 \<le> unat T" "unat T \<le> 200003" "1 \<le> unat B" "unat B \<le> 200003"
    "1 + unat T + unat B + unat (l1_cl opts sz) \<le> unat B * unat (entries_per_block opts)"
    "unat B * 8 \<le> unat T * unat (clusterSize opts)"
proof -
  let ?C = "unat (clusterSize opts)" and ?n = "unat (l1_size opts sz)"
  note c = clusterSize_bounds [of opts] and n = l1Entries_ok [OF s]
  have "?C \<le> ?n * 8 + ?C - 1" using n(2) by linarith
  then have "?C div ?C \<le> (?n * 8 + ?C - 1) div ?C" by (rule div_le_mono)
  then have one: "1 \<le> (?n * 8 + ?C - 1) div ?C" using c by simp
  then show L: "unat (l1_cl opts sz) = (?n * 8 + ?C - 1) div ?C"
    using unat_l1_clusters(1) [OF c, of "l1_size opts sz"] by simp
  then show "1 \<le> unat (l1_cl opts sz)" using one by simp
  have "?n * 8 \<le> 200000 * 512" using n(3) by simp
  also have "\<dots> \<le> 200000 * ?C" using c by (intro mult_le_mono2)
  finally show le: "unat (l1_cl opts sz) \<le> 200000" unfolding L using c by (intro ceil_le) simp_all
  obtain T' B' where r: "rc_layout (clusterSize opts) (entries_per_block opts) (l1_cl opts sz) 1 1 = Some (T', B')"
    "1 \<le> unat T'" "1 \<le> unat B'" "unat T' \<le> unat (l1_cl opts sz) + 3" "unat B' \<le> unat (l1_cl opts sz) + 3"
    "1 + unat T' + unat B' + unat (l1_cl opts sz) \<le> unat B' * unat (entries_per_block opts)" "unat B' * 8 \<le> unat T' * ?C"
    using rc_layout_all [OF refl, of opts "l1_size opts sz"] by blast
  have "T' = T" "B' = B" using lay r(1) by (simp_all add: settled_def)
  then show "1 \<le> unat T" "unat T \<le> 200003" "1 \<le> unat B" "unat B \<le> 200003"
    "1 + unat T + unat B + unat (l1_cl opts sz) \<le> unat B * unat (entries_per_block opts)" "unat B * 8 \<le> unat T * ?C"
    using r le by simp_all
qed

text \<open>The offsets of a settled layout, none of which wraps.\<close>

lemma settled_words:
  assumes s: "size_ok opts sz" and lay: "settled opts sz T B"
  defines "C \<equiv> unat (clusterSize opts)"
  shows "unat (T * clusterSize opts) = unat T * C" "unat (B * clusterSize opts) = unat B * C"
    "unat (l1_cl opts sz * clusterSize opts) = unat (l1_cl opts sz) * C"
    "unat ((1 + T) * clusterSize opts) = (1 + unat T) * C"
    "unat ((1 + T + B) * clusterSize opts) = (1 + unat T + unat B) * C"
    "unat (1 + T + B + l1_cl opts sz) = 1 + unat T + unat B + unat (l1_cl opts sz)"
    "(1 + unat T + unat B + unat (l1_cl opts sz)) * C \<le> 2199023255552"
    "unat (1 + T) = 1 + unat T" "unat (1 + T + B) = 1 + unat T + unat B"
proof -
  note f = settled_facts [OF s lay]
  have c: "unat (clusterSize opts) \<le> 2097152" using clusterSize_bounds(2) [of opts] by simp
  show 1: "unat (1 + T) = 1 + unat T" using f by (simp add: unat_add_lem [THEN iffD1])
  show 2: "unat (1 + T + B) = 1 + unat T + unat B" using f by (subst unat_add_lem [THEN iffD1]) (simp_all add: 1)
  show 3: "unat (1 + T + B + l1_cl opts sz) = 1 + unat T + unat B + unat (l1_cl opts sz)"
    using f by (subst unat_add_lem [THEN iffD1]) (simp_all add: 2)
  show "unat (T * clusterSize opts) = unat T * C" unfolding C_def using f by (intro unat_mult_small c) simp
  show "unat (B * clusterSize opts) = unat B * C" unfolding C_def using f by (intro unat_mult_small c) simp
  show "unat (l1_cl opts sz * clusterSize opts) = unat (l1_cl opts sz) * C" unfolding C_def using f by (intro unat_mult_small c) simp
  show "unat ((1 + T) * clusterSize opts) = (1 + unat T) * C"
    unfolding C_def 1 [symmetric] using f by (intro unat_mult_small c) (simp add: 1)
  show "unat ((1 + T + B) * clusterSize opts) = (1 + unat T + unat B) * C"
    unfolding C_def 2 [symmetric] using f by (intro unat_mult_small c) (simp add: 2)
  show "(1 + unat T + unat B + unat (l1_cl opts sz)) * C \<le> 2199023255552"
    unfolding C_def 3 [symmetric] using f by (intro unat_mult_small(2) c) (simp add: 3)
qed

section \<open>The file\<close>

abbreviation blocks_of :: "Options option \<Rightarrow> u64 \<Rightarrow> u64 \<Rightarrow> u64 \<Rightarrow> byte list" where
  "blocks_of opts sz T B \<equiv>
     rc_blocks (clusterSize opts) (entries_per_block opts) (refcount_bits opts) B (1 + T + B + l1_cl opts sz)"

definition image_bytes :: "Options option \<Rightarrow> string \<Rightarrow> string \<Rightarrow> u64 \<Rightarrow> u64 \<Rightarrow> u64 \<Rightarrow> bfile" where
  "image_bytes opts backing fmt sz T B =
     (let c0 = cluster0 (image_header opts sz T B) backing fmt; C = unat (clusterSize opts) in
      c0 @ replicate (C - length c0) 0 @ rc_table (clusterSize opts) T B @ blocks_of opts sz T B @
      replicate (unat (l1_cl opts sz) * C) 0)"

lemma block_geometry: "unat (entries_per_block opts) * unat (refcount_bits opts) = 8 * unat (clusterSize opts)"
proof -
  let ?k = "unat (clusterBits opts)" and ?r = "unat (refcountOrder opts)"
  have le: "?r \<le> ?k + 3" using clusterBits_bounds [of opts] refcountOrder_bounds [of opts] by simp
  have "(2 :: nat) ^ (?k + 3 - ?r) * 2 ^ ?r = 2 ^ (?k + 3)" using le by (simp add: power_add [symmetric])
  then show ?thesis by (simp add: unat_entries_per_block unat_refcount_bits unat_clusterSize power_add)
qed

lemma settled_blocks:
  assumes s: "size_ok opts sz" and lay: "settled opts sz T B"
  shows "length (blocks_of opts sz T B) = unat B * unat (clusterSize opts)"
    and "b < unat B \<Longrightarrow> unat e < unat (entries_per_block opts) \<Longrightarrow>
      readRefcount (bslice (blocks_of opts sz T B) (b * unat (clusterSize opts)) ((b + 1) * unat (clusterSize opts))) e (refcount_bits opts) =
        (if b * unat (entries_per_block opts) + unat e < 1 + unat T + unat B + unat (l1_cl opts sz) then 1 else 0)"
proof -
  note f = settled_facts [OF s lay] and w = settled_words [OF s lay] and c = clusterSize_bounds [of opts]
  have C: "unat (clusterSize opts) < 2 ^ 32" using c by simp
  have n: "unat (1 + T + B + l1_cl opts sz) \<le> unat B * unat (entries_per_block opts)" "unat (1 + T + B + l1_cl opts sz) < 2 ^ 64"
    using f w unsigned_less [of "1 + T + B + l1_cl opts sz"] by simp_all
  have e0: "unat (0 :: u64) < unat (entries_per_block opts)" "0 < unat B" using entries_per_block_bounds [of opts] f by simp_all
  note r = rc_blocks_read [OF block_geometry refcount_bits_widths C n]
  show "length (blocks_of opts sz T B) = unat B * unat (clusterSize opts)"
    using r(1) [OF e0(2,1)] by (simp add: rc_blocks_def w)
  show "b < unat B \<Longrightarrow> unat e < unat (entries_per_block opts) \<Longrightarrow>
      readRefcount (bslice (blocks_of opts sz T B) (b * unat (clusterSize opts)) ((b + 1) * unat (clusterSize opts))) e (refcount_bits opts) =
        (if b * unat (entries_per_block opts) + unat e < 1 + unat T + unat B + unat (l1_cl opts sz) then 1 else 0)"
    using r(2) [of b e] by (simp add: rc_blocks_def w)
qed

lemma cluster_mult_8: "unat (clusterSize opts) = unat (clusterSize opts) div 8 * 8"
proof -
  have "3 \<le> unat (clusterBits opts)" using clusterBits_bounds [of opts] by simp
  then have "(2 :: nat) ^ 3 dvd 2 ^ unat (clusterBits opts)" by (rule le_imp_power_dvd)
  then show ?thesis by (simp add: unat_clusterSize)
qed

lemma settled_table:
  assumes s: "size_ok opts sz" and lay: "settled opts sz T B"
  shows "length (rc_table (clusterSize opts) T B) = unat T * unat (clusterSize opts)"
    and "j < unat T * unat (clusterSize opts) div 8 \<Longrightarrow> entry64 (rc_table (clusterSize opts) T B) j =
      (if j < unat B then (1 + T) * clusterSize opts + of_nat j * clusterSize opts else 0)"
proof -
  note f = settled_facts [OF s lay] and w = settled_words [OF s lay]
  define t where "t = unat T * (unat (clusterSize opts) div 8)"
  have t8: "unat T * unat (clusterSize opts) = t * 8"
    unfolding t_def by (subst cluster_mult_8 [of opts]) (simp only: mult.assoc)
  have a: "unat (T * clusterSize opts) = t * 8" "unat B \<le> t" using w(1) f(9) t8 by simp_all
  show "length (rc_table (clusterSize opts) T B) = unat T * unat (clusterSize opts)"
    using rc_table_props(1) [OF a] t8 by simp
  show "j < unat T * unat (clusterSize opts) div 8 \<Longrightarrow> entry64 (rc_table (clusterSize opts) T B) j =
      (if j < unat B then (1 + T) * clusterSize opts + of_nat j * clusterSize opts else 0)"
    using rc_table_props(2) [OF a, of j] t8 by simp
qed

lemma backing_fits_length: "backing_fits backing fmt c \<Longrightarrow> 512 \<le> c \<Longrightarrow> length (cluster0 h backing fmt) \<le> c"
  by (auto simp: backing_fits_def length_cluster0)

lemma length_image_bytes:
  assumes s: "size_ok opts sz" and lay: "settled opts sz T B" and bk: "backing_fits backing fmt (unat (clusterSize opts))"
  shows "length (image_bytes opts backing fmt sz T B) = (1 + unat T + unat B + unat (l1_cl opts sz)) * unat (clusterSize opts)"
  using backing_fits_length [OF bk clusterSize_bounds(1), of "image_header opts sz T B"]
    settled_table(1) [OF s lay] settled_blocks(1) [OF s lay]
  by (simp add: image_bytes_def Let_def distrib_right)

lemma WriteAt_pad:
  "d \<noteq> [] \<Longrightarrow> length f \<le> p \<Longrightarrow> p + length d \<le> 2199023255552 \<Longrightarrow>
   WriteAt f (int p) d = Some (f @ replicate (p - length f) 0 @ d)"
  by (simp add: WriteAt_def max_i64_def file_write_end)

lemma WriteAt_append:
  "d \<noteq> [] \<Longrightarrow> p = int (length f) \<Longrightarrow> length f + length d \<le> 2199023255552 \<Longrightarrow> WriteAt f p d = Some (f @ d)"
  by (simp add: WriteAt_def max_i64_def file_write_end)

lemma write_image_ok:
  assumes s: "size_ok opts sz" and lay: "settled opts sz T B" and bk: "backing_fits backing fmt (unat (clusterSize opts))"
  shows "write_image opts backing fmt sz T B = Inr (image_bytes opts backing fmt sz T B)"
proof -
  let ?cs = "clusterSize opts" and ?C = "unat (clusterSize opts)" and ?h = "image_header opts sz T B"
  define c0 where "c0 = cluster0 ?h backing fmt"
  define t bl where "t = rc_table ?cs T B" and "bl = blocks_of opts sz T B"
  note f = settled_facts [OF s lay] and w = settled_words [OF s lay] and c = clusterSize_bounds [of opts]
  have l0: "length c0 \<le> ?C" unfolding c0_def using bk c(1) by (rule backing_fits_length)
  have lt: "length t = unat T * ?C" and lb: "length bl = unat B * ?C"
    using settled_table(1) [OF s lay] settled_blocks(1) [OF s lay] by (simp_all add: t_def bl_def)
  have pos: "0 < unat T * ?C" "0 < unat B * ?C" "0 < unat (l1_cl opts sz) * ?C" using f c by simp_all
  then have ne: "t \<noteq> []" "bl \<noteq> []" "replicate (unat (l1_cl opts sz) * ?C) (0 :: byte) \<noteq> []"
    using lt lb by (auto simp flip: length_greater_0_conv)
  have tot: "(1 + unat T + unat B + unat (l1_cl opts sz)) * ?C \<le> 2199023255552" by (rule w(7))
  have si: "sint ?cs = int ?C" "sint ((1 + T) * ?cs) = int ((1 + unat T) * ?C)"
    "sint ((1 + T + B) * ?cs) = int ((1 + unat T + unat B) * ?C)"
    using tot w c by (simp_all add: sint_small distrib_right)
  have w0: "write_cluster0 ?h backing fmt ?cs [] = Inr c0"
    unfolding c0_def using bk c(2) by (cases "backing = ''''") (auto simp: backing_fits_def write_cluster0_plain write_cluster0_backed)
  define f1 f2 where "f1 = c0 @ replicate (?C - length c0) 0 @ t" and "f2 = f1 @ bl"
  have w1: "WriteAt c0 (sint ?cs) t = Some f1"
  proof -
    have "?C + unat T * ?C \<le> 2199023255552" using tot by (simp add: distrib_right)
    then show ?thesis unfolding si(1) f1_def using l0 ne(1) lt by (intro WriteAt_pad) simp_all
  qed
  have len1: "length f1 = (1 + unat T) * ?C" using l0 lt by (simp add: f1_def distrib_right)
  have len2: "length f2 = (1 + unat T + unat B) * ?C" using len1 lb by (simp add: f2_def distrib_right)
  have w2: "WriteAt f1 (sint ((1 + T) * ?cs)) bl = Some f2"
    unfolding si(2) len1 [symmetric] f2_def
    by (rule WriteAt_append [OF ne(2) refl]) (use tot in \<open>simp add: len1 lb distrib_right\<close>)
  have w3: "WriteAt f2 (sint ((1 + T + B) * ?cs)) (replicate (unat (l1_cl opts sz) * ?C) 0) =
      Some (f2 @ replicate (unat (l1_cl opts sz) * ?C) 0)"
    unfolding si(3) len2 [symmetric]
    by (rule WriteAt_append [OF ne(3) refl]) (use tot in \<open>simp add: len2 distrib_right\<close>)
  show ?thesis
    unfolding write_image_def Let_def
    by (simp only: w0 sum.case w1 [unfolded t_def] wr_def option.case w2 [unfolded bl_def] w3 w(3))
      (simp only: image_bytes_def Let_def c0_def f1_def f2_def t_def bl_def append_assoc)
qed

section \<open>The header is accepted\<close>

abbreviation final_header :: "Options option \<Rightarrow> string \<Rightarrow> string \<Rightarrow> u64 \<Rightarrow> u64 \<Rightarrow> u64 \<Rightarrow> Header" where
  "final_header opts backing fmt sz T B \<equiv> backed_header (image_header opts sz T B) backing fmt"

lemma final_header_fields [simp]:
  "h_Magic (final_header opts backing fmt sz T B) = Magic"
  "h_Version (final_header opts backing fmt sz T B) = 3"
  "h_ClusterBits (final_header opts backing fmt sz T B) = clusterBits opts"
  "h_Size (final_header opts backing fmt sz T B) = sz"
  "h_L1Size (final_header opts backing fmt sz T B) = l1_size opts sz"
  "h_L1TableOffset (final_header opts backing fmt sz T B) = (1 + T + B) * clusterSize opts"
  "h_RefcountTableOffset (final_header opts backing fmt sz T B) = clusterSize opts"
  "h_RefcountTableClusters (final_header opts backing fmt sz T B) = ucast T"
  "h_RefcountOrder (final_header opts backing fmt sz T B) = refcountOrder opts"
  "h_HeaderLength (final_header opts backing fmt sz T B) = 104"
  "h_BackingFileOffset (final_header opts backing fmt sz T B) = (if backing = '''' then 0 else of_nat (112 + length (format_ext fmt)))"
  "h_BackingFileSize (final_header opts backing fmt sz T B) = (if backing = '''' then 0 else of_nat (length backing))"
  by (simp_all add: backed_header_def set_header_backing_def image_header_def Version_def Let_def)

lemma ClusterSize_final [simp]: "ClusterSize (final_header opts backing fmt sz T B) = clusterSize opts"
  by (simp add: ClusterSize_def clusterSize_def)

text \<open>The backing range of the final header, as numbers.\<close>

lemma backing_range:
  assumes "backing \<noteq> ''''" "backing_fits backing fmt (unat (clusterSize opts))"
  shows "unat (of_nat (112 + length (format_ext fmt)) :: u64) = 112 + length (format_ext fmt)"
    "unat (of_nat (length backing) :: u32) = length backing"
    "unat (of_nat (112 + length (format_ext fmt)) + ucast (of_nat (length backing) :: u32) :: u64) = 112 + length (format_ext fmt) + length backing"
proof -
  have le: "112 + length (format_ext fmt) + length backing \<le> 2097152"
    using assms clusterSize_bounds(2) [of opts] by (simp add: backing_fits_def)
  show a: "unat (of_nat (112 + length (format_ext fmt)) :: u64) = 112 + length (format_ext fmt)"
    using le by (simp only: unat_of_nat) simp
  show b: "unat (of_nat (length backing) :: u32) = length backing" using le by (simp add: unat_of_nat)
  show "unat (of_nat (112 + length (format_ext fmt)) + ucast (of_nat (length backing) :: u32) :: u64) = 112 + length (format_ext fmt) + length backing"
    using le by (subst unat_add_lem [THEN iffD1]) (simp_all only: a b unat_ucast_32_64, simp_all)
qed

lemma final_header_ok:
  assumes s: "size_ok opts sz" and bk: "backing_fits backing fmt (unat (clusterSize opts))"
  shows "header_error (final_header opts backing fmt sz T B) = None"
proof -
  let ?h = "final_header opts backing fmt sz T B" and ?c = "clusterSize opts * (clusterSize opts div 8)"
  define req where "req = sz div ?c + (if sz mod ?c \<noteq> 0 then 1 else 0)"
  note cb = clusterBits_bounds [of opts] and n = l1Entries_ok [OF s] and ov = opt_coverage_bounds [of opts]
  have "unat req = (unat sz + opt_coverage opts - 1) div opt_coverage opts"
    unfolding req_def using unat_required [of ?c sz] ov by (simp only: unat_opt_coverage)
  then have req: "unat req = unat (l1_size opts sz)" using n(1) by simp
  have bits: "\<not> (clusterBits opts < 9 \<or> clusterBits opts > 21)"
    using cb by (simp add: word_less_nat_alt not_less)
  have l1: "\<not> (ucast (l1_size opts sz) * 8 > maxL1TableBytes)"
    using n(3) by (simp add: word_less_nat_alt unat_l1_bytes maxL1TableBytes_def not_less)
  have r1: "\<not> (req > ucast (NOT 0 :: u32) \<or> ucast (l1_size opts sz) < req)"
  proof -
    have "unat (ucast (NOT 0 :: u32) :: u64) = 4294967295"
      by (simp add: unsigned_minus_1_eq_mask mask_eq_exp_minus_1)
    then show ?thesis using n(3) by (simp add: word_less_nat_alt req not_less)
  qed
  have b: "\<not> (h_BackingFileSize ?h > 0 \<and>
      (h_BackingFileOffset ?h = 0 \<or> h_BackingFileOffset ?h + ucast (h_BackingFileSize ?h) < h_BackingFileOffset ?h \<or>
       h_BackingFileOffset ?h + ucast (h_BackingFileSize ?h) > clusterSize opts))"
  proof (cases "backing = ''''")
    case False
    note r = backing_range [OF False bk]
    have "(of_nat (112 + length (format_ext fmt)) :: u64) \<noteq> 0" using r(1) by (metis add_is_0 unat_0 zero_neq_numeral)
    then show ?thesis using False bk r by (simp add: word_less_nat_alt backing_fits_def del: of_nat_add)
  qed simp
  show ?thesis
    unfolding header_error_def Let_def ClusterSize_final final_header_fields(4) req_def [symmetric]
    using bits l1 r1 b by (simp add: Magic_def del: of_nat_add)
qed

section \<open>The regions of the file\<close>

lemma bslice_skip: "length xs \<le> i \<Longrightarrow> bslice (xs @ ys) i j = bslice ys (i - length xs) (j - length xs)"
  by (simp add: bslice_def)

lemma bslice_front: "j \<le> length xs \<Longrightarrow> bslice (xs @ ys) i j = bslice xs i j"
  by (simp add: bslice_def)

lemma bslice_all: "length xs = n \<Longrightarrow> bslice xs 0 n = xs"
  by (simp add: bslice_def)

lemma image_regions:
  assumes s: "size_ok opts sz" and lay: "settled opts sz T B" and bk: "backing_fits backing fmt (unat (clusterSize opts))"
  defines "C \<equiv> unat (clusterSize opts)" and "F \<equiv> image_bytes opts backing fmt sz T B"
  shows "take 104 F = encode_header (final_header opts backing fmt sz T B)"
    "bslice F C (C + unat T * C) = rc_table (clusterSize opts) T B"
    "b < unat B \<Longrightarrow> bslice F ((1 + unat T + b) * C) ((1 + unat T + b) * C + C) = bslice (blocks_of opts sz T B) (b * C) ((b + 1) * C)"
    "m \<le> unat (l1_cl opts sz) * C \<Longrightarrow> bslice F ((1 + unat T + unat B) * C) ((1 + unat T + unat B) * C + m) = replicate m 0"
proof -
  define c0 where "c0 = cluster0 (image_header opts sz T B) backing fmt"
  define t bl where "t = rc_table (clusterSize opts) T B" and "bl = blocks_of opts sz T B"
  have l0: "length c0 \<le> C" unfolding c0_def C_def using bk clusterSize_bounds(1) by (rule backing_fits_length)
  have lt: "length t = unat T * C" and lb: "length bl = unat B * C"
    using settled_table(1) [OF s lay] settled_blocks(1) [OF s lay] by (simp_all add: t_def bl_def C_def)
  define p where "p = c0 @ replicate (C - length c0) 0"
  have lp: "length p = C" using l0 by (simp add: p_def)
  have F: "F = p @ t @ bl @ replicate (unat (l1_cl opts sz) * C) 0"
    by (simp add: F_def image_bytes_def Let_def p_def c0_def t_def bl_def C_def)
  show "take 104 F = encode_header (final_header opts backing fmt sz T B)"
    by (simp add: F p_def c0_def cluster0_def)
  show "bslice F C (C + unat T * C) = rc_table (clusterSize opts) T B"
    using lt by (simp add: F bslice_skip lp bslice_front bslice_all t_def)
  show "bslice F ((1 + unat T + b) * C) ((1 + unat T + b) * C + C) = bslice (blocks_of opts sz T B) (b * C) ((b + 1) * C)"
    if "b < unat B"
  proof -
    have "(b + 1) * C \<le> length bl" unfolding lb using that by (intro mult_le_mono1) simp
    then show ?thesis
      by (simp add: F bslice_skip lp lt bslice_front bl_def [symmetric] distrib_right)
  qed
  show "bslice F ((1 + unat T + unat B) * C) ((1 + unat T + unat B) * C + m) = replicate m 0"
    if "m \<le> unat (l1_cl opts sz) * C"
    using that by (simp add: F bslice_skip lp lt lb bslice_replicate distrib_right)
qed

lemma readHeader_image:
  assumes s: "size_ok opts sz" and lay: "settled opts sz T B" and bk: "backing_fits backing fmt (unat (clusterSize opts))"
  shows "readHeader (image_bytes opts backing fmt sz T B) = Inr (final_header opts backing fmt sz T B)"
proof -
  have len: "length (image_bytes opts backing fmt sz T B) = (1 + unat T + unat B + unat (l1_cl opts sz)) * unat (clusterSize opts)"
    using s lay bk by (rule length_image_bytes)
  have "104 \<le> length (image_bytes opts backing fmt sz T B)"
    unfolding len using clusterSize_bounds(1) [of opts] by (simp add: distrib_right)
  then show ?thesis
    unfolding readHeader_ok image_regions(1) [OF s lay bk] decode_encode_header using final_header_ok [OF s bk] by simp
qed

lemma checkRange_ok:
  "unat off + unat n \<le> m \<Longrightarrow> m < 2 ^ 63 \<Longrightarrow> checkRange (int m) name off n = None"
proof -
  assume a: "unat off + unat n \<le> m" "m < 2 ^ 63"
  have w: "unat (of_nat m :: u64) = m" using a(2) by (simp add: unat_of_nat)
  have "unat (off + n) = unat off + unat n" using a by (intro unat_add_lem [THEN iffD1]) simp
  then show ?thesis using a by (simp add: checkRange_def word_less_nat_alt w)
qed

lemma validate_image:
  assumes s: "size_ok opts sz" and lay: "settled opts sz T B" and bk: "backing_fits backing fmt (unat (clusterSize opts))"
  shows "validateHeaderRanges (final_header opts backing fmt sz T B) (int (length (image_bytes opts backing fmt sz T B))) = None"
proof -
  let ?h = "final_header opts backing fmt sz T B" and ?C = "unat (clusterSize opts)"
  let ?n = "length (image_bytes opts backing fmt sz T B)"
  note f = settled_facts [OF s lay] and w = settled_words [OF s lay] and n1 = l1Entries_ok [OF s]
  have len: "?n = (1 + unat T + unat B + unat (l1_cl opts sz)) * ?C" using s lay bk by (rule length_image_bytes)
  have small: "?n < 2 ^ 63" using w(7) unfolding len by simp
  have "unat (l1_size opts sz) * 8 \<le> unat (l1_cl opts sz) * ?C"
    unfolding f(3) using clusterSize_bounds(1) [of opts] by (intro le_ceil_mult) simp
  then have "unat ((1 + T + B) * clusterSize opts) + unat (ucast (l1_size opts sz) * 8 :: u64) \<le> ?n"
    unfolding w(5) unat_l1_bytes len by (simp add: distrib_right)
  then have "checkRange (int ?n) ''L1 table'' ((1 + T + B) * clusterSize opts) (ucast (l1_size opts sz) * 8) = None"
    using small by (rule checkRange_ok)
  moreover have "(1 + T + B) * clusterSize opts \<noteq> 0"
    using w(5) clusterSize_bounds(1) [of opts] by (metis add_is_0 mult_is_0 one_neq_zero unat_0 not_numeral_le_zero)
  moreover have "checkRange (int ?n) ''backing file path'' (h_BackingFileOffset ?h) (ucast (h_BackingFileSize ?h)) = None"
    if "backing \<noteq> ''''"
  proof -
    have "112 + length (format_ext fmt) + length backing \<le> ?C" using that bk by (simp add: backing_fits_def)
    also have "?C \<le> ?n" unfolding len by (simp add: distrib_right)
    finally show ?thesis
      using that backing_range(1,2) [OF that bk] small by (intro checkRange_ok) (simp_all del: of_nat_add)
  qed
  ultimately show ?thesis
    by (cases "backing = ''''") (simp_all add: validateHeaderRanges_def del: of_nat_add)
qed

end
