(* ===== verification/Qcow2SelfCheck.thy ===== *)
theory Qcow2SelfCheck
  imports Qcow2Created
begin

text \<open>
  A created image passes the consistency check: the reference counts the check reconstructs are the recorded
  ones, one for every cluster of the file.
\<close>

lemma count_list_distinct: "distinct xs \<Longrightarrow> count_list xs c = (if c \<in> set xs then 1 else 0)"
  by (induction xs) auto

lemma fold_upt_cut: "n \<le> m \<Longrightarrow> fold (\<lambda>j s. if j < n then g j s else s) [0..<m] s = fold g [0..<n] s" for n m :: nat
proof (induction m)
  case (Suc m)
  show ?case
  proof (cases "n \<le> m")
    case True
    then show ?thesis using Suc by simp
  next
    case False
    then have "n = Suc m" using Suc.prems by simp
    then show ?thesis by (simp only:) (rule fold_cong, auto)
  qed
qed simp

lemma map_unat_upt:
  "unat a + n < 2 ^ 64 \<Longrightarrow> map (\<lambda>i. unat (a + of_nat i)) [0..<n] = [unat a..<unat a + n]" for a :: u64
proof -
  assume le: "unat a + n < 2 ^ 64"
  have "unat (a + of_nat i) = unat a + i" if "i < n" for i
  proof -
    have "unat (of_nat i :: u64) = i" using le that by (simp add: unat_of_nat)
    then show ?thesis using le that by (subst unat_add_lem [THEN iffD1]) simp_all
  qed
  then have "map (\<lambda>i. unat (a + of_nat i)) [0..<n] = map (\<lambda>i. i + unat a) [0..<n]" by simp
  then show ?thesis by (simp only: map_add_upt add_0 add.commute)
qed

text \<open>Marking the three ranges of clusters and cluster 0 counts every cluster of the layout once.\<close>

lemma marks_once:
  fixes t b l a2 a3 :: u64 and T B L :: nat
  assumes "unat a2 = 1 + T + B" "unat a3 = 1 + T" "1 + T + B + L < 2 ^ 63" "c < 1 + T + B + L"
  shows "fold mark (map (\<lambda>i. a3 + of_nat i) [0..<B])
      (mark_range a2 L (mark_range 1 T (mark 0 (replicate (1 + T + B + L) 0)))) ! c = 1"
proof -
  let ?marks = "[0] @ map (\<lambda>i. 1 + of_nat i) [0..<T] @ map (\<lambda>i. a2 + of_nat i) [0..<L] @ map (\<lambda>i. a3 + of_nat i) [0..<B] :: u64 list"
  have "fold mark (map (\<lambda>i. a3 + of_nat i) [0..<B])
      (mark_range a2 L (mark_range 1 T (mark 0 (replicate (1 + T + B + L) 0)))) = fold mark ?marks (replicate (1 + T + B + L) 0)"
    by (simp add: mark_range_fold)
  moreover have "map unat ?marks = [0] @ [1..<1 + T] @ [1 + T + B..<1 + T + B + L] @ [1 + T..<1 + T + B]"
    using map_unat_upt [of 1 T] map_unat_upt [of a2 L] map_unat_upt [of a3 B] assms
    by (simp add: comp_def)
  moreover have "count_list ([0] @ [1..<1 + T] @ [1 + T + B..<1 + T + B + L] @ [1 + T..<1 + T + B]) c = 1"
  proof (subst count_list_distinct)
    show "distinct ([0] @ [1..<1 + T] @ [1 + T + B..<1 + T + B + L] @ [1 + T..<1 + T + B])" by auto
    show "(if c \<in> set ([0] @ [1..<1 + T] @ [1 + T + B..<1 + T + B + L] @ [1 + T..<1 + T + B]) then 1 else 0) = (1 :: nat)"
      using assms(4) by auto
  qed
  moreover have "fold mark ?marks (replicate (1 + T + B + L) 0) ! c =
      replicate (1 + T + B + L) 0 ! c + of_nat (count_list (map unat ?marks) c)"
    using assms(4) by (intro nth_fold_mark) simp
  ultimately show ?thesis using nth_replicate [OF assms(4), of "0 :: u64"] by (simp only: of_nat_1 add_0)
qed

section \<open>The walks of the check\<close>

definition laid_out :: "Options option \<Rightarrow> string \<Rightarrow> string \<Rightarrow> u64 \<Rightarrow> u64 \<Rightarrow> u64 \<Rightarrow> bool" where
  "laid_out opts backing fmt sz T B \<longleftrightarrow>
     size_ok opts sz \<and> settled opts sz T B \<and> backing_fits backing fmt (unat (clusterSize opts))"

lemma laid_outD:
  assumes "laid_out opts backing fmt sz T B"
  shows "size_ok opts sz" "settled opts sz T B" "backing_fits backing fmt (unat (clusterSize opts))"
  using assms by (simp_all add: laid_out_def)

abbreviation total :: "Options option \<Rightarrow> u64 \<Rightarrow> u64 \<Rightarrow> u64 \<Rightarrow> nat" where
  "total opts sz T B \<equiv> 1 + unat T + unat B + unat (l1_cl opts sz)"

lemma file_size:
  assumes "laid_out opts backing fmt sz T B"
  shows "unat (of_nat (length (image_bytes opts backing fmt sz T B)) :: u64) = total opts sz T B * unat (clusterSize opts)"
  using length_image_bytes [OF laid_outD [OF assms]] settled_words(7) [OF laid_outD(1,2) [OF assms]]
  by (simp only: unat_of_nat) simp

text \<open>The offset of block \<open>j\<close>, its cluster, and that it ends inside the file.\<close>

lemma block_offset:
  assumes l: "laid_out opts backing fmt sz T B" and j: "j < unat B"
  defines "off \<equiv> (1 + T) * clusterSize opts + of_nat j * clusterSize opts"
  shows "unat off = (1 + unat T + j) * unat (clusterSize opts)" "off div clusterSize opts = 1 + T + of_nat j"
    "sint off = int ((1 + unat T + j) * unat (clusterSize opts))" "off \<noteq> 0"
    "\<not> (off + clusterSize opts > of_nat (length (image_bytes opts backing fmt sz T B)))"
proof -
  let ?C = "unat (clusterSize opts)"
  note f = settled_facts [OF laid_outD(1,2) [OF l]] and w = settled_words [OF laid_outD(1,2) [OF l]]
  have C: "512 \<le> ?C" "?C \<le> 2097152" using clusterSize_bounds [of opts] by simp_all
  have uj: "unat (of_nat j :: u64) = j" using j f by (simp add: unat_of_nat)
  have ua: "unat (1 + T + of_nat j) = 1 + unat T + j"
    using j f by (subst unat_add_lem [THEN iffD1]) (simp_all add: uj w(8))
  have eq: "off = (1 + T + of_nat j) * clusterSize opts" by (simp add: off_def distrib_right)
  have "unat (1 + T + of_nat j) \<le> 1048576" using ua j f(5,7) by simp
  note u = unat_mult_small(1) [OF this C(2)] and le = unat_mult_small(2) [OF this C(2)]
  show off: "unat off = (1 + unat T + j) * ?C" unfolding eq u ua ..
  have "unat (off div clusterSize opts) = unat (1 + T + of_nat j)"
    using C unfolding unat_div off ua by simp
  then show "off div clusterSize opts = 1 + T + of_nat j" by (simp only: word_unat_eq_iff)
  show "sint off = int ((1 + unat T + j) * ?C)" using le unfolding ua by (simp add: sint_small off)
  show "off \<noteq> 0" using off C by (metis add_is_0 mult_is_0 one_neq_zero unat_0 not_numeral_le_zero)
  have "(1 + unat T + j) * ?C + ?C \<le> total opts sz T B * ?C"
    using mult_le_mono1 [of "1 + unat T + j + 1" "total opts sz T B" ?C] j by simp
  moreover have "unat (off + clusterSize opts) = (1 + unat T + j) * ?C + ?C"
    using le C by (subst unat_add_lem [THEN iffD1]) (simp_all add: off ua)
  ultimately show "\<not> (off + clusterSize opts > of_nat (length (image_bytes opts backing fmt sz T B)))"
    by (simp only: word_less_nat_alt file_size [OF l] not_less)
qed

lemma ReadAt_nat: "p + n \<le> length f \<Longrightarrow> ReadAt f (int p) n = Some (bslice f p (p + n))"
  by (simp add: ReadAt_def)

lemma walk_blocks:
  assumes l: "laid_out opts backing fmt sz T B"
  defines "F \<equiv> image_bytes opts backing fmt sz T B" and "h \<equiv> final_header opts backing fmt sz T B"
  shows "foldE (check_block_entry h (of_nat (length F)) (rc_table (clusterSize opts) T B)) [0..<unat T * unat (clusterSize opts) div 8] ex =
    Inr (fold mark (map (\<lambda>i. (1 + T) + of_nat i) [0..<unat B]) ex)"
proof -
  let ?m = "unat T * unat (clusterSize opts) div 8"
  let ?g = "\<lambda>j s. if j < unat B then mark (1 + T + of_nat j) s else s"
  note d = laid_outD [OF l]
  have "unat B * 8 div 8 \<le> ?m" using settled_facts(9) [OF d(1,2)] by (rule div_le_mono)
  then have Bm: "unat B \<le> ?m" by simp
  have "foldE (check_block_entry h (of_nat (length F)) (rc_table (clusterSize opts) T B)) [0..<?m] ex = Inr (fold ?g [0..<?m] ex)"
  proof (rule foldE_fold)
    fix j t assume "j \<in> set [0..<?m]"
    then have "j < ?m" by simp
    note e = settled_table(2) [OF d(1,2) this]
    show "check_block_entry h (of_nat (length F)) (rc_table (clusterSize opts) T B) j t = Inr (?g j t)"
    proof (cases "j < unat B")
      case True
      note b = block_offset [OF l True]
      have e': "entry64 (rc_table (clusterSize opts) T B) j = (1 + T) * clusterSize opts + of_nat j * clusterSize opts"
        using e True by simp
      show ?thesis
        unfolding check_block_entry_def Let_def h_def ClusterSize_final e' F_def b(2)
        using b(4,5) True by simp
    next
      case False
      then show ?thesis using e by (simp add: check_block_entry_def Let_def)
    qed
  qed simp
  then show ?thesis using fold_upt_cut [OF Bm, of "\<lambda>j. mark (1 + T + of_nat j)"] by (simp add: fold_map comp_def)
qed

lemma recorded_counts:
  assumes l: "laid_out opts backing fmt sz T B" and c: "c < total opts sz T B" and one: "ex ! c = 1"
  defines "F \<equiv> image_bytes opts backing fmt sz T B" and "h \<equiv> final_header opts backing fmt sz T B"
  assumes n: "unat rcEntries = unat T * unat (clusterSize opts) div 8"
  shows "check_refcount F h (entries_per_block opts) (refcount_bits opts) (rc_table (clusterSize opts) T B) rcEntries ex c () = Inr ()"
proof -
  let ?E = "unat (entries_per_block opts)" and ?C = "unat (clusterSize opts)"
  note d = laid_outD [OF l] note f = settled_facts [OF d(1,2)] and w = settled_words [OF d(1,2)]
  have E: "0 < ?E" using entries_per_block_bounds(1) [of opts] by simp
  have uc: "unat (of_nat c :: u64) = c" using c f by (simp add: unat_of_nat)
  define b where "b = c div ?E"
  have ub: "unat (of_nat c div entries_per_block opts) = b" by (simp add: unat_div uc b_def)
  have ue: "unat (of_nat c mod entries_per_block opts) = c mod ?E" by (simp add: unat_mod uc)
  have bB: "b < unat B" unfolding b_def using c f(8) by (intro less_mult_imp_div_less) simp
  have "unat B * 8 div 8 \<le> unat T * ?C div 8" using f(9) by (rule div_le_mono)
  then have bm: "b < unat T * ?C div 8" using bB by simp
  have ent: "entry64 (rc_table (clusterSize opts) T B) b = (1 + T) * clusterSize opts + of_nat b * clusterSize opts"
    using settled_table(2) [OF d(1,2) bm] bB by simp
  note o = block_offset [OF l bB]
  have "(1 + unat T + b) * ?C + ?C \<le> length F"
    using mult_le_mono1 [of "1 + unat T + b + 1" "total opts sz T B" ?C] bB length_image_bytes [OF d] by (simp add: F_def)
  then have rd: "ReadAt F (int ((1 + unat T + b) * ?C)) ?C = Some (bslice F ((1 + unat T + b) * ?C) ((1 + unat T + b) * ?C + ?C))"
    by (rule ReadAt_nat)
  have rec: "readRefcount (bslice F ((1 + unat T + b) * ?C) ((1 + unat T + b) * ?C + ?C)) (of_nat c mod entries_per_block opts) (refcount_bits opts) = 1"
  proof -
    have "b * ?E + c mod ?E = c" by (simp add: b_def)
    then show ?thesis
      unfolding F_def image_regions(3) [OF d bB]
      using settled_blocks(2) [OF d(1,2) bB, of "of_nat c mod entries_per_block opts"] E c by (simp add: ue)
  qed
  have lt: "of_nat c div entries_per_block opts < rcEntries" using bm by (simp add: word_less_nat_alt ub n)
  show ?thesis
    unfolding check_refcount_def Let_def ub ent h_def ClusterSize_final o(3) rd option.case rec one
    using lt o(4) by simp
qed

lemma ceil_mult: "0 < d \<Longrightarrow> (q * d + d - 1) div d = q" for q d :: nat
  using ceil_div_eq [of d "q * d"] by simp

text \<open>The derived quantities of the check on a created image.\<close>

lemma check_numbers:
  assumes l: "laid_out opts backing fmt sz T B"
  defines "cs \<equiv> clusterSize opts" and "n \<equiv> (of_nat (length (image_bytes opts backing fmt sz T B)) :: u64)"
  shows "ucast (ucast T :: u32) = T" "unat (ucast T :: u32) = unat T"
    "unat ((n + cs - 1) div cs) = total opts sz T B"
    "unat ((ucast (l1_size opts sz) * 8 + cs - 1) div cs) = unat (l1_cl opts sz)"
    "\<not> (cs + T * cs > n)" "cs div cs = 1"
    "unat ((1 + T + B) * cs div cs) = 1 + unat T + unat B" "unat (T * cs div 8) = unat T * unat cs div 8"
proof -
  note d = laid_outD [OF l] note f = settled_facts [OF d(1,2)] and w = settled_words [OF d(1,2)]
  have C: "512 \<le> unat cs" "unat cs \<le> 2097152" using clusterSize_bounds [of opts] by (simp_all add: cs_def)
  show t: "unat (ucast T :: u32) = unat T"
    using f(5) by (simp add: unsigned_ucast_eq unsigned_take_bit_eq take_bit_nat_eq_self)
  then show "ucast (ucast T :: u32) = T" by (simp add: word_unat_eq_iff)
  have n: "unat n = total opts sz T B * unat cs" unfolding n_def cs_def using l by (rule file_size)
  have tot: "total opts sz T B * unat cs \<le> 2199023255552" using w(7) by (simp add: cs_def)
  have "unat ((n + cs - 1) div cs) = (total opts sz T B * unat cs + unat cs - 1) div unat cs"
    using unat_ceil [of n cs] tot C by (simp add: n)
  also have "\<dots> = total opts sz T B" using C by (intro ceil_mult) simp
  finally show "unat ((n + cs - 1) div cs) = total opts sz T B" .
  show "unat ((ucast (l1_size opts sz) * 8 + cs - 1) div cs) = unat (l1_cl opts sz)"
    using unat_ceil [of "ucast (l1_size opts sz) * 8" cs] l1Entries_ok(3) [OF d(1)] C f(3) by (simp add: unat_l1_bytes cs_def)
  have "unat (cs + T * cs) = unat cs + unat T * unat cs"
    using w(1) tot by (subst unat_add_lem [THEN iffD1]) (simp_all add: cs_def distrib_right)
  then show "\<not> (cs + T * cs > n)" by (simp add: word_less_nat_alt n distrib_right)
  have "cs \<noteq> 0" using C by auto
  then show "cs div cs = 1" by (simp add: word_unat_eq_iff unat_div)
  show "unat ((1 + T + B) * cs div cs) = 1 + unat T + unat B" using w(5) C by (simp add: unat_div cs_def)
  show "unat (T * cs div 8) = unat T * unat cs div 8" using w(1) by (simp add: unat_div cs_def)
qed

lemma Check_image:
  assumes l: "laid_out opts backing fmt sz T B"
  shows "Check (image_bytes opts backing fmt sz T B) = Inr ()"
proof -
  define F h where "F = image_bytes opts backing fmt sz T B" and "h = final_header opts backing fmt sz T B"
  let ?cs = "clusterSize opts"
  note d = laid_outD [OF l] note f = settled_facts [OF d(1,2)] and w = settled_words [OF d(1,2)]
  note k = check_numbers [OF l, folded F_def]
  define ex0 where "ex0 = mark_range ((1 + T + B) * ?cs div ?cs) (unat (l1_cl opts sz)) (mark_range 1 (unat T) (mark 0 (replicate (total opts sz T B) 0)))"
  define ex1 where "ex1 = fold mark (map (\<lambda>i. (1 + T) + of_nat i) [0..<unat B]) ex0"
  have one: "ex1 ! c = 1" if "c < total opts sz T B" for c
    unfolding ex1_def ex0_def using f k(7) w(8) that by (intro marks_once) simp_all
  have len: "length F = total opts sz T B * unat ?cs" unfolding F_def using d by (rule length_image_bytes)
  have l1le: "unat (l1_size opts sz) * 8 \<le> unat (l1_cl opts sz) * unat ?cs"
    unfolding f(3) using clusterSize_bounds(1) [of opts] by (intro le_ceil_mult) simp
  have s1: "sint ((1 + T + B) * ?cs) = int ((1 + unat T + unat B) * unat ?cs)"
    using w(5,7) by (simp add: sint_small distrib_right)
  have r1: "ReadAt F (sint ((1 + T + B) * ?cs)) (unat (ucast (l1_size opts sz) * 8 :: u64)) = Some (replicate (unat (l1_size opts sz) * 8) 0)"
  proof -
    have "(1 + unat T + unat B) * unat ?cs + unat (l1_size opts sz) * 8 \<le> length F"
      unfolding len using l1le by (simp add: distrib_right)
    then show ?thesis
      unfolding s1 unat_l1_bytes using image_regions(4) [OF d, folded F_def, OF l1le] by (simp only: ReadAt_nat)
  qed
  have r2: "ReadAt F (sint ?cs) (unat (T * ?cs)) = Some (rc_table ?cs T B)"
  proof -
    have "sint ?cs = int (unat ?cs)" using clusterSize_bounds(2) [of opts] by (intro sint_small) (simp add:)
    moreover have "unat ?cs + unat T * unat ?cs \<le> length F" unfolding len by (simp add: distrib_right)
    ultimately show ?thesis using w(1) image_regions(2) [OF d, folded F_def] by (simp only: ReadAt_nat )
  qed
  have walk1: "foldE (check_l1_entry F h (of_nat (length F)) (replicate (unat (l1_size opts sz) * 8) 0)) [0..<unat (l1_size opts sz)] ex0 = Inr ex0"
    by (rule foldE_skip) (simp add: check_l1_entry_def Let_def entry64_zeros)
  have walk2: "foldE (check_block_entry h (of_nat (length F)) (rc_table ?cs T B)) [0..<unat (T * ?cs div 8)] ex0 = Inr ex1"
    unfolding k(8) ex1_def using walk_blocks [OF l, of ex0] by (simp only: F_def h_def)
  have walk3: "foldE (check_refcount F h (entries_per_block opts) (refcount_bits opts) (rc_table ?cs T B) (T * ?cs div 8) ex1) [0..<total opts sz T B] () = Inr ()"
    unfolding foldE_ok_iff F_def h_def
    using recorded_counts [OF l _ one] k(8) by (simp add:)
  have epb: "entries_per_block opts \<noteq> 0" using entries_per_block_bounds(1) [of opts] by auto
  have fields: "h_L1Size h = l1_size opts sz" "h_L1TableOffset h = (1 + T + B) * ?cs" "h_RefcountTableOffset h = ?cs"
    "h_RefcountTableClusters h = ucast T" "h_RefcountOrder h = refcountOrder opts" "ClusterSize h = ?cs"
    unfolding h_def by (rule final_header_fields ClusterSize_final)+
  have tables: "check_tables F h = Inr ()"
    unfolding check_tables_def Let_def fields refcount_bits_def [symmetric] entries_per_block_def [symmetric]
      k(1-4) k(6) if_not_P [OF k(5)] if_not_P [OF epb] ex0_def [symmetric] r1 option.case walk1 sum.case r2 walk2 walk3 ..
  have "sz \<noteq> 0" using d(1) by (auto simp: size_ok_def)
  then show ?thesis
    using tables readHeader_image [OF d] validate_image [OF d] refcountOrder_bounds [of opts]
    by (simp add: Check_def F_def h_def word_less_nat_alt)
qed

section \<open>The metadata read back\<close>

lemma image_prefix: "\<exists>rest. image_bytes opts backing fmt sz T B = cluster0 (image_header opts sz T B) backing fmt @ rest"
  by (simp add: image_bytes_def Let_def)

lemma readBackingFormat_image:
  assumes "length fmt < 256"
  shows "readBackingFormat (image_bytes opts backing fmt sz T B) (final_header opts backing fmt sz T B) =
    (if backing = '''' then '''' else format_of fmt)"
proof -
  define F where "F = image_bytes opts backing fmt sz T B"
  obtain rest where F: "F = cluster0 (image_header opts sz T B) backing fmt @ rest"
    unfolding F_def using image_prefix by blast
  have "512 \<le> unat (clusterSize opts)" by (rule clusterSize_bounds)
  moreover have "uint (clusterSize opts) = int (unat (clusterSize opts))" by simp
  ultimately have e: "104 + 8 \<le> uint (clusterSize opts)" by linarith
  have start: "extensions_start 3 104 = 104" by (simp add: extensions_start_def)
  show ?thesis
  proof (cases "backing = ''''")
    case True
    have "ReadAt F 104 8 = Some (replicate 8 0)"
      using ReadAt_nat [of 104 8 F] True
      by (simp add: F cluster0_def bslice_skip bslice_front bslice_all)
    then show ?thesis
      using e True unfolding F_def [symmetric]
      by (simp add: readBackingFormat_def start scan_extensions.simps [of _ 104] bslice_replicate Uint32_def ExtEndOfArea_def Let_def)
  next
    case False
    let ?d = "to_bytes (format_of fmt)"
    have n: "0 < length (format_of fmt)" "length (format_of fmt) < 256" using assms by (auto simp: format_of_def)
    then have un: "unat (of_nat (length (format_of fmt)) :: u32) = length (format_of fmt)" by (simp add: unat_of_nat)
    define hd where "hd = PutUint32 ExtBackingFormat @ PutUint32 (of_nat (length ?d))"
    have ext: "format_ext fmt = hd @ ?d @ replicate ((length ?d + 7) div 8 * 8 - length ?d) 0"
      by (simp add: format_ext_def extension_bytes_def Let_def hd_def)
    have lh: "length hd = 8" by (simp add: hd_def)
    have r1: "ReadAt F 104 8 = Some hd"
      using ReadAt_nat [of 104 8 F] False lh
      by (simp add: F cluster0_def ext bslice_skip bslice_front bslice_all)
    have r2: "ReadAt F 112 (length (format_of fmt)) = Some ?d"
      using ReadAt_nat [of 112 "length (format_of fmt)" F] False lh
      by (simp add: F cluster0_def ext bslice_skip bslice_front bslice_all)
    have h: "Uint32 (bslice hd 0 4) = ExtBackingFormat" "Uint32 (bslice hd 4 8) = of_nat (length (format_of fmt))"
      by (simp_all add: hd_def bslice_def)
    have "(of_nat (length (format_of fmt)) :: u32) > 0" "(of_nat (length (format_of fmt)) :: u32) < 256"
      using n by (simp_all add: word_less_nat_alt un)
    then show ?thesis
      using e False r1 r2 h un unfolding F_def [symmetric]
      by (simp add: readBackingFormat_def start scan_extensions.simps [of _ 104] ExtEndOfArea_def Let_def ExtBackingFormat_def)
  qed
qed

lemma Info_image:
  assumes l: "laid_out opts backing fmt sz T B" and "length fmt < 256"
  shows "Info (image_bytes opts backing fmt sz T B) = Inr
    \<lparr>i_VirtualSize = sz, i_ClusterSize = ucast (clusterSize opts), i_BackingFile = backing,
     i_BackingFormat = (if backing = '''' then '''' else format_of fmt),
     i_ActualSize = int (length (image_bytes opts backing fmt sz T B))\<rparr>"
proof -
  note d = laid_outD [OF l] and bf = readBackingFormat_image [OF assms(2), of opts backing sz T B]
  show ?thesis
  proof (cases "backing = ''''")
    case True
    then show ?thesis
      using readHeader_image [OF d] validate_image [OF d] bf by (simp add: Info_def)
  next
    case False
    note r = backing_range [OF False d(3)]
    let ?p = "112 + length (format_ext fmt)"
    define F where "F = image_bytes opts backing fmt sz T B"
    obtain rest where F: "F = cluster0 (image_header opts sz T B) backing fmt @ rest"
      unfolding F_def using image_prefix by blast
    have si: "sint (of_nat ?p :: u64) = int ?p"
    proof -
      have "?p < 2 ^ 63" using False d(3) clusterSize_bounds(2) [of opts] by (simp add: backing_fits_def)
      then show ?thesis using sint_small [of "of_nat ?p"] r(1) by (simp only:)
    qed
    have "ReadAt F (int ?p) (length backing) = Some (to_bytes backing)"
      using ReadAt_nat [of ?p "length backing" F] False
      by (simp add: F cluster0_def bslice_skip bslice_front bslice_all del: of_nat_add)
    moreover have "(of_nat ?p :: u64) > 0" "(of_nat (length backing) :: u32) > 0"
      using False by (simp_all only: word_less_nat_alt r(1,2)) simp_all
    ultimately show ?thesis
      using readHeader_image [OF d] validate_image [OF d] bf False
      by (simp add: Info_def Let_def si r(2) F_def [symmetric] del: of_nat_add)
  qed
qed

section \<open>Creation\<close>

lemma createImage_settled:
  obtains T B where "settled opts sz T B"
  using rc_layout_all [OF refl, of opts "l1_size opts sz"] unfolding settled_def by blast

lemma createImage_unfold:
  assumes "settled opts sz T B"
  shows "createImage io tmp path backing fmt sz opts fs =
    Some (if io_open_fails io \<or> fs tmp \<noteq> None then (Some CreateFile, fs)
       else
         case write_image opts backing fmt sz T B of
           Inl (e, f) \<Rightarrow> (Some e, remove io tmp (fs(tmp := Some f)))
         | Inr f \<Rightarrow>
             (case Check f of
                Inl e \<Rightarrow> (Some (PostCheck e), remove io tmp (fs(tmp := Some f)))
              | Inr _ \<Rightarrow>
                  (case publishNoReplace io tmp path (fs(tmp := Some f)) of
                    (None, fs2) \<Rightarrow> (None, fs2)
                  | (Some e, fs2) \<Rightarrow> (Some e, remove io tmp fs2))))"
  using assms unfolding createImage_def settled_def Let_def by simp

lemma createImage_published:
  assumes "fs tmp = None" "fs path = None" "tmp \<noteq> path"
    and "\<not> io_open_fails io" "\<not> io_link_fails io" "\<not> io_remove_fails io tmp"
    and "laid_out opts backing fmt sz T B"
  shows "createImage io tmp path backing fmt sz opts fs = Some (None, fs(path \<mapsto> image_bytes opts backing fmt sz T B))"
proof -
  let ?f = "image_bytes opts backing fmt sz T B"
  note d = laid_outD [OF assms(7)]
  have "createImage io tmp path backing fmt sz opts fs = Some (None, (fs(tmp \<mapsto> ?f, path \<mapsto> ?f))(tmp := None))"
    using assms by (simp add: createImage_unfold [OF d(2)] write_image_ok [OF d] Check_image [OF assms(7)] publishNoReplace_def)
  also have "(fs(tmp \<mapsto> ?f, path \<mapsto> ?f))(tmp := None) = fs(path \<mapsto> ?f)" using assms(1,3) by auto
  finally show ?thesis .
qed

text \<open>C11: Creating an image of any size whose L1 table the reader accepts, with any options and an optional backing
  reference that fits in the first cluster, succeeds where the file system lets it: the file
  published at the path passes the consistency check, and \<open>Info\<close> reads back the virtual size, the cluster size,
  the backing reference and its format.
\<close>

theorem created_image_reads_back:
  assumes "fs tmp = None" "fs path = None" "tmp \<noteq> path"
    and "\<not> io_open_fails io" "\<not> io_link_fails io" "\<not> io_remove_fails io tmp"
    and "size_ok opts sz" "backing_fits backing fmt (unat (clusterSize opts))" "length fmt < 256"
  shows "\<exists>f i. createImage io tmp path backing fmt sz opts fs = Some (None, fs(path \<mapsto> f)) \<and>
    Check f = Inr () \<and> Info f = Inr i \<and> i_VirtualSize i = sz \<and> i_ClusterSize i = ucast (clusterSize opts) \<and>
    i_BackingFile i = backing \<and> i_BackingFormat i = (if backing = '''' then '''' else format_of fmt)"
proof -
  obtain T B where lay: "settled opts sz T B" by (rule createImage_settled)
  have l: "laid_out opts backing fmt sz T B" using assms lay by (simp add: laid_out_def)
  have "createImage io tmp path backing fmt sz opts fs = Some (None, fs(path \<mapsto> image_bytes opts backing fmt sz T B))"
    by (rule createImage_published) (use assms l in simp_all)
  then show ?thesis
    using Check_image [OF l] Info_image [OF l assms(9)]
    by (intro exI [of _ "image_bytes opts backing fmt sz T B"]) (simp add: fun_eq_iff)
qed

definition default_io :: io where
  "default_io = \<lparr>io_open_fails = False, io_link_fails = False, io_remove_fails = (\<lambda>_. False)\<rparr>"

theorem created_image_reads_back_witness:
  "\<exists>f i. createImage default_io ''.d.tmp'' ''/d'' ''/base.img'' ''raw'' 21474836480 None Map.empty = Some (None, [''/d'' \<mapsto> f]) \<and>
    Check f = Inr () \<and> Info f = Inr i \<and> i_VirtualSize i = 21474836480 \<and> i_BackingFile i = ''/base.img'' \<and> i_BackingFormat i = ''raw''"
proof -
  have c: "unat (clusterBits None) = 16" by (simp add: clusterBits_def DefaultClusterBits_def)
  have s: "size_ok None 21474836480" by (simp add: size_ok_def opt_coverage_def c)
  have b: "backing_fits ''/base.img'' ''raw'' (unat (clusterSize None))"
    by (simp add: backing_fits_def format_ext_def length_extension_bytes format_of_def unat_clusterSize c)
  show ?thesis
    using created_image_reads_back [of Map.empty "''.d.tmp''" "''/d''" default_io None 21474836480 "''/base.img''" "''raw''", OF _ _ _ _ _ _ s b]
    by (auto simp: default_io_def format_of_def)
qed



end
