(* ===== verification/Qcow2Resize.thy ===== *)
theory Qcow2Resize
  imports Qcow2Check
begin

text \<open>
  Growing an image in place, \<^verbatim>\<open>internal/qcow2/resize.go\<close>. An operation returns an error, if any, together with
  the file as it left it, since nothing is rolled back. An integer division by zero is the runtime
  panic of Go, a value of the error type here.
\<close>

datatype rerr =
    HeaderError qerr
  | CannotShrink u64 u64
  | RefcountTableTooSmall u64 u64
  | ReadError string
  | WriteFail string
  | DivideByZero
  | PostResize cerr

section \<open>Refcounts on disk\<close>

definition rc_entry_offset :: "Header \<Rightarrow> u64 \<Rightarrow> int" where
  "rc_entry_offset h a = wrap64 (sint (h_RefcountTableOffset h) + sint a)"

text \<open>
  \<^verbatim>\<open>setRefcount\<close> calls itself for the cluster of a refcount block it allocates. As a partial function its not
  ending would be \<open>None\<close>; that it ends is proved below.
\<close>

partial_function (option) setRefcount ::
  "bfile \<Rightarrow> Header \<Rightarrow> u64 \<Rightarrow> u16 \<Rightarrow> u32 \<Rightarrow> (rerr option \<times> bfile) option" where
  "setRefcount f h clusterIdx val refcountBits =
     (let cs = ClusterSize h; entriesPerBlock = cs * 8 div ucast refcountBits in
      if refcountBits = 0 \<or> entriesPerBlock = 0 then Some (Some DivideByZero, f)
      else
        let blockIdx = clusterIdx div entriesPerBlock;
            entryIdx = clusterIdx mod entriesPerBlock;
            rcTableBytes = ucast (h_RefcountTableClusters h) * cs;
            off = rc_entry_offset h (blockIdx * 8) in
        if blockIdx * 8 + 8 > rcTableBytes then Some (Some (RefcountTableTooSmall clusterIdx blockIdx), f)
        else
          case ReadAt f off 8 of
            None \<Rightarrow> Some (Some (ReadError ''rctable entry''), f)
          | Some rcEntry \<Rightarrow>
              if Uint64 rcEntry = 0 then
                let blockOffset = (of_nat (length f) + cs - 1) div cs * cs;
                    newBlockCluster = blockOffset div cs;
                    block = writeRefcount (replicate (unat cs) 0) entryIdx val refcountBits;
                    selfBlockIdx = newBlockCluster div entriesPerBlock;
                    block = (if selfBlockIdx = blockIdx
                             then writeRefcount block (newBlockCluster mod entriesPerBlock) 1 refcountBits else block) in
                case WriteAt f (sint blockOffset) block of
                  None \<Rightarrow> Some (Some (WriteFail ''refcount block''), f)
                | Some f1 \<Rightarrow>
                    (case WriteAt f1 off (PutUint64 blockOffset) of
                       None \<Rightarrow> Some (Some (WriteFail ''refcount table''), f1)
                     | Some f2 \<Rightarrow>
                         if selfBlockIdx \<noteq> blockIdx then setRefcount f2 h newBlockCluster 1 refcountBits
                         else Some (None, f2))
              else
                case ReadAt f (sint (Uint64 rcEntry)) (unat cs) of
                  None \<Rightarrow> Some (Some (ReadError ''refcount block''), f)
                | Some block \<Rightarrow>
                    (case WriteAt f (sint (Uint64 rcEntry)) (writeRefcount block entryIdx val refcountBits) of
                       None \<Rightarrow> Some (Some (WriteFail ''refcount block''), f)
                     | Some f' \<Rightarrow> Some (None, f')))"

text \<open>The two loops of \<^verbatim>\<open>expandL1\<close> over the clusters of a table.\<close>

primrec set_refcounts :: "nat list \<Rightarrow> bfile \<Rightarrow> Header \<Rightarrow> u64 \<Rightarrow> u16 \<Rightarrow> u32 \<Rightarrow> (rerr option \<times> bfile) option" where
  "set_refcounts [] f h start val refcountBits = Some (None, f)"
| "set_refcounts (i # is) f h start val refcountBits =
     (case setRefcount f h (start + of_nat i) val refcountBits of
        None \<Rightarrow> None
      | Some (Some e, f') \<Rightarrow> Some (Some e, f')
      | Some (None, f') \<Rightarrow> set_refcounts is f' h start val refcountBits)"

section \<open>Resize\<close>

definition expandL1 :: "bfile \<Rightarrow> Header \<Rightarrow> u32 \<Rightarrow> (rerr option \<times> bfile) option" where
  "expandL1 f h newL1Size =
     (let cs = ClusterSize h;
          refcountBits = push_bit (unat (h_RefcountOrder h)) 1;
          oldL1Bytes = ucast (h_L1Size h) * 8 in
      case ReadAt f (sint (h_L1TableOffset h)) (unat oldL1Bytes) of
        None \<Rightarrow> Some (Some (ReadError ''old L1''), f)
      | Some oldL1 \<Rightarrow>
          let newL1Bytes = ucast newL1Size * 8;
              newL1Clusters = (newL1Bytes + cs - 1) div cs;
              newL1Offset = (of_nat (length f) + cs - 1) div cs * cs;
              newL1 = bsplice (replicate (unat (newL1Clusters * cs)) 0) 0 oldL1 in
          case WriteAt f (sint newL1Offset) newL1 of
            None \<Rightarrow> Some (Some (WriteFail ''new L1''), f)
          | Some f \<Rightarrow>
              case set_refcounts [0..<unat newL1Clusters] f h (newL1Offset div cs) 1 refcountBits of
                None \<Rightarrow> None
              | Some (Some e, f) \<Rightarrow> Some (Some e, f)
              | Some (None, f) \<Rightarrow>
                  case set_refcounts [0..<unat ((oldL1Bytes + cs - 1) div cs)] f h (h_L1TableOffset h div cs) 0 refcountBits of
                    None \<Rightarrow> None
                  | Some (Some e, f) \<Rightarrow> Some (Some e, f)
                  | Some (None, f) \<Rightarrow>
                      case WriteAt f 40 (PutUint64 newL1Offset) of
                        None \<Rightarrow> Some (Some (WriteFail ''L1 offset''), f)
                      | Some f \<Rightarrow> Some (None, f))"

definition finish_resize :: "bfile \<Rightarrow> u64 \<Rightarrow> u32 \<Rightarrow> rerr option \<times> bfile" where
  "finish_resize f newSizeBytes newL1Size =
     (case WriteAt f 24 (PutUint64 newSizeBytes) of
        None \<Rightarrow> (Some (WriteFail ''virtual size''), f)
      | Some f \<Rightarrow>
          case WriteAt f 36 (PutUint32 newL1Size) of
            None \<Rightarrow> (Some (WriteFail ''L1 size''), f)
          | Some f \<Rightarrow> (case Check f of Inl e \<Rightarrow> (Some (PostResize e), f) | Inr _ \<Rightarrow> (None, f)))"

definition Resize :: "bfile \<Rightarrow> u64 \<Rightarrow> (rerr option \<times> bfile) option" where
  "Resize f newSizeBytes =
     (case readHeader f of
        Inl e \<Rightarrow> Some (Some (HeaderError e), f)
      | Inr h \<Rightarrow>
          if newSizeBytes < h_Size h then Some (Some (CannotShrink (h_Size h) newSizeBytes), f)
          else if newSizeBytes = h_Size h then Some (None, f)
          else
            let newL1Size = l1Entries newSizeBytes (ClusterSize h) in
            if newL1Size > h_L1Size h then
              case expandL1 f h newL1Size of
                None \<Rightarrow> None
              | Some (Some e, f) \<Rightarrow> Some (Some e, f)
              | Some (None, f) \<Rightarrow> Some (finish_resize f newSizeBytes newL1Size)
            else Some (finish_resize f newSizeBytes newL1Size))"

section \<open>Resizing ends\<close>

lemma shift_mod_cong: "(x + c) mod m - c = (y + c) mod m - c \<longleftrightarrow> x mod m = y mod m" for x y c m :: int
proof -
  have "(x + c) mod m = (y + c) mod m \<longleftrightarrow> x mod m = y mod m" by (simp add: mod_eq_dvd_iff)
  then show ?thesis by simp
qed

lemma wrap64_cong: "wrap64 x = wrap64 y \<longleftrightarrow> x mod 2 ^ 64 = y mod 2 ^ 64"
  unfolding wrap64_def by (rule shift_mod_cong)

lemma shift_mod_8: "8 dvd m \<Longrightarrow> ((x + c) mod m - c) mod 8 = x mod 8" for x c m :: int
proof -
  assume m: "8 dvd m"
  have "((x + c) mod m - c) mod 8 = ((x + c) mod m mod 8 - c) mod 8" by (rule mod_diff_left_eq [symmetric])
  also have "(x + c) mod m mod 8 = (x + c) mod 8" using m by (rule mod_mod_cancel)
  also have "((x + c) mod 8 - c) mod 8 = (x + c - c) mod 8" by (rule mod_diff_left_eq)
  finally show ?thesis by simp
qed

lemma wrap64_mod_8: "wrap64 x mod 8 = x mod 8"
  unfolding wrap64_def by (rule shift_mod_8) simp

lemma sint_mod: "sint (a :: u64) mod 2 ^ 64 = uint a"
  using uint_sint [of a] by (simp add: take_bit_eq_mod)

text \<open>Two entries of the refcount table lie at least eight bytes apart.\<close>

lemma entries_apart:
  assumes "8 dvd unat a" "8 dvd unat b" "a \<noteq> b"
  shows "rc_entry_offset h a + 8 \<le> rc_entry_offset h b \<or> rc_entry_offset h b + 8 \<le> rc_entry_offset h a"
proof -
  let ?r = "sint (h_RefcountTableOffset h)"
  have m8: "sint x mod 8 = 0" if "8 dvd unat x" for x :: u64
  proof -
    have "sint x mod 8 = sint x mod 2 ^ 64 mod 8" by (simp add: mod_mod_cancel)
    also have "\<dots> = int (unat x) mod 8" unfolding sint_mod by simp
    also have "\<dots> = int (unat x mod 8)" by (simp only: of_nat_mod of_nat_numeral)
    also have "\<dots> = 0" using that by simp
    finally show ?thesis .
  qed
  have "rc_entry_offset h a mod 8 = ?r mod 8" "rc_entry_offset h b mod 8 = ?r mod 8"
    unfolding rc_entry_offset_def wrap64_mod_8 using m8 assms by (metis add.right_neutral mod_add_right_eq)+
  then have d: "(rc_entry_offset h a - rc_entry_offset h b) mod 8 = 0" by (simp add: mod_diff_cong [of _ 8 "?r"])
  have "rc_entry_offset h a \<noteq> rc_entry_offset h b"
  proof
    assume "rc_entry_offset h a = rc_entry_offset h b"
    then have "(?r + sint a) mod 2 ^ 64 = (?r + sint b) mod 2 ^ 64" by (simp add: rc_entry_offset_def wrap64_cong)
    then have "sint a mod 2 ^ 64 = sint b mod 2 ^ 64" unfolding mod_eq_dvd_iff by (simp only: add_diff_cancel_left)
    then have "uint a = uint b" unfolding sint_mod .
    then show False using assms(3) by (metis word_of_int_uint)
  qed
  then show ?thesis using d by presburger
qed

text \<open>The entries of the table that are not set, as addresses relative to it.\<close>

definition unset :: "Header \<Rightarrow> bfile \<Rightarrow> u64 set" where
  "unset h f = {a. 8 dvd unat a \<and> \<not> (\<exists>d. ReadAt f (rc_entry_offset h a) 8 = Some d \<and> Uint64 d \<noteq> 0)}"

lemma ReadAt_kept:
  assumes "ReadAt f o1 n = Some d" "0 < n" "e \<noteq> []" "0 \<le> o2" "o2 + int (length e) \<le> o1 \<or> o1 + int n \<le> o2"
  shows "ReadAt (file_write f (nat o2) e) o1 n = Some d"
proof -
  have l: "length d = n" "0 \<le> o1" using ReadAt_SomeD [OF assms(1)] by simp_all
  have h: "bf.holds f (nat o1) d" using assms(1,2) by (rule ReadAt_Some_holds)
  have "nat o2 + length e \<le> nat o1 \<or> nat o1 + length d \<le> nat o2" using assms(4,5) l by linarith
  then have "bf.holds (file_write f (nat o2) e) (nat o1) d" using h assms(3) by (intro bf.holds_kept)
  from ReadAt_holds [OF this] show ?thesis using l by simp
qed

lemma ReadAt_written: "e \<noteq> [] \<Longrightarrow> 0 \<le> p \<Longrightarrow> ReadAt (file_write f (nat p) e) p (length e) = Some e"
  using ReadAt_holds [OF bf.holds_written, of e f "nat p"] by simp

lemma PutUint64_ne [simp]: "PutUint64 v \<noteq> []"
  by (metis length_Put(3) list.size(3) zero_neq_numeral)

lemma set_entry_shrinks:
  assumes a: "8 dvd unat a" and rd: "ReadAt f (rc_entry_offset h a) 8 = Some ent" "Uint64 ent = 0"
    and p: "int (length f) \<le> p" "blk \<noteq> []" and v: "v \<noteq> 0"
  defines "f2 \<equiv> file_write (file_write f (nat p) blk) (nat (rc_entry_offset h a)) (PutUint64 v)"
  shows "unset h f2 \<subset> unset h f"
proof
  have o: "0 \<le> rc_entry_offset h a" "rc_entry_offset h a + 8 \<le> int (length f)"
    using rd(1) by (auto simp: ReadAt_def split: if_splits)
  have set: "a \<notin> unset h f2"
    using ReadAt_written [OF PutUint64_ne o(1), of "file_write f (nat p) blk" v] v by (simp add: unset_def f2_def)
  show "unset h f2 \<subseteq> unset h f"
  proof
    fix b assume b: "b \<in> unset h f2"
    then have b8: "8 dvd unat b" and ne: "b \<noteq> a" using set by (auto simp: unset_def)
    show "b \<in> unset h f"
    proof (rule ccontr)
      assume "b \<notin> unset h f"
      then obtain d where d: "ReadAt f (rc_entry_offset h b) 8 = Some d" "Uint64 d \<noteq> 0" using b8 by (auto simp: unset_def)
      have ob: "rc_entry_offset h b + 8 \<le> int (length f)" using d(1) by (auto simp: ReadAt_def split: if_splits)
      have r1: "ReadAt (file_write f (nat p) blk) (rc_entry_offset h b) 8 = Some d"
        by (rule ReadAt_kept [OF d(1)]) (use p ob in auto)
      have "ReadAt f2 (rc_entry_offset h b) 8 = Some d"
        unfolding f2_def
        by (rule ReadAt_kept [OF r1]) (use o entries_apart [OF a b8 ne [symmetric], of h] in auto)
      then show False using b d(2) by (auto simp: unset_def)
    qed
  qed
  have "a \<in> unset h f" using a rd by (auto simp: unset_def)
  then show "unset h f2 \<noteq> unset h f" using set by blast
qed

lemma bsplice_ne: "d \<noteq> [] \<Longrightarrow> bsplice b i d \<noteq> []"
  by (simp add: bsplice_def)

lemma Put_ne [simp]: "PutUint16 v \<noteq> []" "PutUint32 w \<noteq> []"
  by (metis length_Put(1,2) list.size(3) zero_neq_numeral)+

lemma writeRefcount_ne: "b \<noteq> [] \<Longrightarrow> writeRefcount b i v bits \<noteq> []"
  by (auto simp: writeRefcount_def Let_def bsplice_ne)

lemma WriteAt_SomeD:
  "WriteAt f p d = Some f' \<Longrightarrow> f' = file_write f (nat p) d \<and> 0 \<le> p \<and> p + int (length d) < 2 ^ 63"
  by (auto simp: WriteAt_def max_i64_def split: if_splits)

lemma WriteAt_length: "WriteAt f p d = Some f' \<Longrightarrow> length f < 2 ^ 63 \<Longrightarrow> length f' < 2 ^ 63"
  by (drule WriteAt_SomeD) (auto simp: max_def)

text \<open>The offset of an appended cluster: the file size rounded up.\<close>

lemma append_offset:
  assumes "length f < 2 ^ 63" "0 < length f" "header_error h = None"
    and "0 \<le> sint ((of_nat (length f) + ClusterSize h - 1) div ClusterSize h * ClusterSize h)"
  shows "int (length f) \<le> sint ((of_nat (length f) + ClusterSize h - 1) div ClusterSize h * ClusterSize h)"
    "(of_nat (length f) + ClusterSize h - 1) div ClusterSize h * ClusterSize h \<noteq> 0"
proof -
  let ?cs = "ClusterSize h" and ?n = "length f"
  note c = ClusterSize_bounds(2,3) [OF assms(3)]
  have un: "unat (of_nat ?n :: u64) = ?n" using assms(1) by (simp add: unat_of_nat)
  define q where "q = (of_nat ?n + ?cs - 1) div ?cs"
  have uq: "unat q = (?n + unat ?cs - 1) div unat ?cs"
    unfolding q_def using unat_ceil [of "of_nat ?n" ?cs] assms(1) c by (simp add: un)
  have ge: "?n \<le> unat q * unat ?cs" unfolding uq using c by (intro le_ceil_mult) simp
  have "unat q * unat ?cs \<le> ?n + unat ?cs - 1" unfolding uq by (rule div_times_less_eq_dividend)
  then have "unat q * unat ?cs < 2 ^ 64" using assms(1) c by simp
  then have um: "unat (q * ?cs) = unat q * unat ?cs" by (intro unat_mult_lem [THEN iffD1]) simp
  show "q * ?cs \<noteq> 0" using um ge assms(2) by (metis le_zero_eq less_numeral_extra(3) unat_0)
  have "sint (q * ?cs) mod 2 ^ 64 = uint (q * ?cs)" by (rule sint_mod)
  moreover have "sint (q * ?cs) < 2 ^ 63" using sint_lt [of "q * ?cs"] by simp
  ultimately have "sint (q * ?cs) = int (unat (q * ?cs))" using assms(4) by (simp add: q_def [symmetric])
  then show "int ?n \<le> sint (q * ?cs)" using ge um by (simp only: of_nat_le_iff)
qed

lemma setRefcount_ends:
  assumes "header_error h = None" "length f < 2 ^ 63"
  shows "\<exists>r f'. setRefcount f h c v bits = Some (r, f') \<and> length f' < 2 ^ 63"
  using assms(2)
proof (induction "card (unset h f)" arbitrary: f c v rule: less_induct)
  case less
  define cs where "cs = ClusterSize h"
  define epb where "epb = cs * 8 div ucast bits"
  define bi where "bi = c div epb"
  define off where "off = rc_entry_offset h (bi * 8)"
  define bo where "bo = (of_nat (length f) + cs - 1) div cs * cs"
  define blk where "blk = (let b = writeRefcount (replicate (unat cs) 0) (c mod epb) v bits in
    if bo div cs div epb = bi then writeRefcount b (bo div cs mod epb) 1 bits else b)"
  note unf = setRefcount.simps [of f h c v bits, folded cs_def, unfolded Let_def, folded epb_def, folded bi_def,
    folded off_def bo_def, unfolded Let_def]
  have blk: "blk \<noteq> []"
    using ClusterSize_bounds(2) [OF assms(1)] by (auto simp: blk_def Let_def cs_def intro!: writeRefcount_ne)
  show ?case
  proof (cases "(bits = 0 \<or> epb = 0) \<or> bi * 8 + 8 > ucast (h_RefcountTableClusters h) * cs \<or> ReadAt f off 8 = None")
    case True
    then show ?thesis using less.prems by (subst unf) (auto split: option.splits)
  next
    case False
    then obtain ent where ent: "ReadAt f off 8 = Some ent" by auto
    show ?thesis
    proof (cases "Uint64 ent = 0")
      case nz: False
      then show ?thesis
        using False ent less.prems by (subst unf) (auto split: option.splits dest: WriteAt_length)
    next
      case z: True
      have unf2: "setRefcount f h c v bits =
          (case WriteAt f (sint bo) blk of None \<Rightarrow> Some (Some (WriteFail ''refcount block''), f)
           | Some f1 \<Rightarrow> (case WriteAt f1 off (PutUint64 bo) of None \<Rightarrow> Some (Some (WriteFail ''refcount table''), f1)
             | Some f2 \<Rightarrow> if bo div cs div epb \<noteq> bi then setRefcount f2 h (bo div cs) 1 bits else Some (None, f2)))"
        using False ent z by (subst unf) (simp add: blk_def Let_def)
      show ?thesis
      proof (cases "WriteAt f (sint bo) blk")
        case None
        then show ?thesis using unf2 less.prems by simp
      next
        case (Some f1)
        note w1 = WriteAt_SomeD [OF Some] and len1 = WriteAt_length [OF Some less.prems]
        show ?thesis
        proof (cases "WriteAt f1 off (PutUint64 bo)")
          case None
          then show ?thesis using unf2 Some len1 by simp
        next
          case s2: (Some f2)
          note w2 = WriteAt_SomeD [OF s2] and len2 = WriteAt_length [OF s2 len1]
          have f0: "0 < length f" using ent by (auto simp: ReadAt_def split: if_splits)
          note ao = append_offset [OF less.prems f0 assms(1), folded cs_def, folded bo_def]
          have "8 dvd unat (bi * 8)"
          proof -
            have "unat (bi * 8) = unat bi * 8 mod 2 ^ 64" by (simp add: unat_word_ariths(2))
            moreover have "(8 :: nat) dvd 2 ^ 64" by simp
            ultimately show ?thesis by (metis dvd_mod_iff dvd_triv_right)
          qed
          then have "unset h f2 \<subset> unset h f"
            using set_entry_shrinks [of "bi * 8" f h ent "sint bo" blk bo] ent z ao blk w1 w2 by (simp add: off_def)
          then have "card (unset h f2) < card (unset h f)" by (intro psubset_card_mono) simp_all
          then show ?thesis using less.hyps [OF _ len2] unf2 Some s2 len2 by auto
        qed
      qed
    qed
  qed
qed

lemma set_refcounts_ends:
  "header_error h = None \<Longrightarrow> length f < 2 ^ 63 \<Longrightarrow>
   \<exists>r f'. set_refcounts is f h start v bits = Some (r, f') \<and> length f' < 2 ^ 63"
proof (induction "is" arbitrary: f)
  case (Cons i "is")
  obtain r f' where s: "setRefcount f h (start + of_nat i) v bits = Some (r, f')" "length f' < 2 ^ 63"
    using setRefcount_ends [OF Cons.prems] by blast
  then show ?case using Cons.IH [OF Cons.prems(1) s(2)] by (cases r) auto
qed simp

lemma expandL1_ends:
  assumes "header_error h = None" "length f < 2 ^ 63"
  shows "\<exists>r f'. expandL1 f h n = Some (r, f') \<and> length f' < 2 ^ 63"
proof -
  let ?bits = "push_bit (unat (h_RefcountOrder h)) 1 :: u32"
  have two: "\<exists>r f'. (case set_refcounts is g h s 1 ?bits of None \<Rightarrow> None | Some (Some e, f) \<Rightarrow> Some (Some e, f)
       | Some (None, f) \<Rightarrow> case set_refcounts js f h t 0 ?bits of None \<Rightarrow> None | Some (Some e, f) \<Rightarrow> Some (Some e, f)
         | Some (None, f) \<Rightarrow> case WriteAt f 40 d of None \<Rightarrow> Some (Some (WriteFail ''L1 offset''), f)
           | Some f \<Rightarrow> Some (None, f)) = Some (r, f') \<and> length f' < 2 ^ 63"
    if g: "length g < 2 ^ 63" for g "is" s js t d
  proof -
    obtain r1 g1 where g1: "set_refcounts is g h s 1 ?bits = Some (r1, g1)" "length g1 < 2 ^ 63"
      using set_refcounts_ends [OF assms(1) g] by blast
    obtain r2 g2 where "set_refcounts js g1 h t 0 ?bits = Some (r2, g2)" "length g2 < 2 ^ 63"
      using set_refcounts_ends [OF assms(1) g1(2)] by blast
    then show ?thesis using g1 by (auto split: option.splits dest: WriteAt_length)
  qed
  show ?thesis
    unfolding expandL1_def Let_def
    using assms(2) two WriteAt_length [OF _ assms(2)] by (auto split: option.split)
qed

text \<open>C32: Growing an image ends on every file a 64-bit offset can address and for every requested size, crafted
  refcount tables included: each refcount block the recursion allocates sets a table entry that
  was not set, and no write in between clears one. A refused request leaves the file as it was.
\<close>

theorem Resize_ends:
  assumes "length f < 2 ^ 63"
  shows "\<exists>r f'. Resize f n = Some (r, f') \<and>
    (\<forall>e. readHeader f = Inl e \<longrightarrow> r = Some (HeaderError e) \<and> f' = f) \<and>
    (\<forall>h. readHeader f = Inr h \<and> n < h_Size h \<longrightarrow> r = Some (CannotShrink (h_Size h) n) \<and> f' = f)"
proof (cases "readHeader f")
  case (Inr h)
  then have "header_error h = None" by (auto simp: readHeader_ok)
  from expandL1_ends [OF this assms, of "l1Entries n (ClusterSize h)"] show ?thesis
    using Inr by (auto simp: Resize_def Let_def split: option.split)
qed (simp add: Resize_def)

theorem Resize_ends_witness: "\<exists>r f'. Resize sample_image 70000 = Some (r, f')"
  using Resize_ends [of sample_image 70000] by (auto simp: length_sample)

section \<open>What a resize leaves behind\<close>

lemma bslice_file_write:
  assumes "p + length d \<le> length f" "d \<noteq> []" "j \<le> length f"
  shows "j \<le> p \<or> p + length d \<le> i \<Longrightarrow> bslice (file_write f p d) i j = bslice f i j"
    "bslice (file_write f p d) p (p + length d) = d"
proof -
  have l: "length (file_write f p d) = length f" using assms by simp
  show "bslice (file_write f p d) i j = bslice f i j" if "j \<le> p \<or> p + length d \<le> i"
    by (rule nth_equalityI) (use assms l that in \<open>auto simp: nth_file_write\<close>)
  show "bslice (file_write f p d) p (p + length d) = d"
    by (rule nth_equalityI) (use assms l in \<open>auto simp: nth_file_write\<close>)
qed

definition resized :: "bfile \<Rightarrow> u64 \<Rightarrow> u32 \<Rightarrow> bfile" where
  "resized f n l1 = file_write (file_write f 24 (PutUint64 n)) 36 (PutUint32 l1)"

lemma length_resized: "104 \<le> length f \<Longrightarrow> length (resized f n l1) = length f"
  by (simp add: resized_def)

lemma nth_resized:
  assumes "104 \<le> length f" "i < length f"
  shows "resized f n l1 ! i = (if 24 \<le> i \<and> i < 32 then PutUint64 n ! (i - 24)
    else if 36 \<le> i \<and> i < 40 then PutUint32 l1 ! (i - 36) else f ! i)"
  using assms by (simp add: resized_def nth_file_write)

lemma bslice_resized:
  assumes "104 \<le> length f"
  shows "j \<le> 104 \<Longrightarrow> j \<le> 24 \<or> 40 \<le> i \<or> 32 \<le> i \<and> j \<le> 36 \<Longrightarrow> bslice (resized f n l1) i j = bslice f i j"
    "bslice (resized f n l1) 24 32 = PutUint64 n"
    "bslice (resized f n l1) 36 40 = PutUint32 l1"
proof -
  let ?g = "file_write f 24 (PutUint64 n)"
  note w1 = bslice_file_write [of 24 "PutUint64 n" f] and w2 = bslice_file_write [of 36 "PutUint32 l1" ?g]
  show "bslice (resized f n l1) i j = bslice f i j" if "j \<le> 104" "j \<le> 24 \<or> 40 \<le> i \<or> 32 \<le> i \<and> j \<le> 36"
    using assms that w1(1) [of j i] w2(1) [of j i] by (auto simp: resized_def)
  show "bslice (resized f n l1) 24 32 = PutUint64 n"
    using assms w1(2) [of 32] w2(1) [of 32 24] by (simp add: resized_def)
  show "bslice (resized f n l1) 36 40 = PutUint32 l1"
    using assms w2(2) [of 40] by (simp add: resized_def)
qed

lemma decode_resized:
  assumes "104 \<le> length f"
  shows "decode_header (take 104 (resized f n l1)) = (decode_header (take 104 f))\<lparr>h_Size := n, h_L1Size := l1\<rparr>"
  using assms by (simp add: decode_header_def bslice_resized)

lemma WriteAt_header:
  assumes "104 \<le> length f" "p + length d \<le> 104" "d \<noteq> []"
  shows "WriteAt f (int p) d = Some (file_write f p d)"
  using assms by (subst WriteAt_Some) (simp_all add: max_i64_def)

lemma finish_resize_eq:
  assumes "104 \<le> length f"
  shows "finish_resize f n l1 = (case Check (resized f n l1) of Inl e \<Rightarrow> (Some (PostResize e), resized f n l1)
    | Inr _ \<Rightarrow> (None, resized f n l1))"
  using assms WriteAt_header [of f 24 "PutUint64 n"] WriteAt_header [of "file_write f 24 (PutUint64 n)" 36 "PutUint32 l1"]
  by (simp add: finish_resize_def resized_def split: sum.split)

lemma Check_reads: "Check f = Inr () \<Longrightarrow> \<exists>h. readHeader f = Inr h"
  by (auto simp: Check_def split: sum.splits)

lemma finish_resize_ok:
  assumes "finish_resize f n l1 = (None, f')"
  shows "104 \<le> length f" "f' = resized f n l1" "Check f' = Inr ()"
proof -
  obtain g where g: "WriteAt f 24 (PutUint64 n) = Some g" "WriteAt g 36 (PutUint32 l1) = Some f'" and c: "Check f' = Inr ()"
    using assms by (auto simp: finish_resize_def split: option.splits sum.splits)
  show "Check f' = Inr ()" by (rule c)
  show f': "f' = resized f n l1" using WriteAt_SomeD [OF g(1)] WriteAt_SomeD [OF g(2)] by (simp add: resized_def)
  have "104 \<le> length f'" using Check_reads [OF c] by (auto simp: readHeader_ok)
  then show "104 \<le> length f" by (simp add: f' resized_def max_def split: if_splits)
qed



end
