(* ===== verification/Qcow2Grow.thy ===== *)
theory Qcow2Grow
  imports Qcow2SelfCheck Qcow2Resize
begin

text \<open>
  Creation and resize together: what a successful resize guarantees, and that growing a created image within
  its L1 table gives, byte for byte, the image that creation would have written for the larger size.
\<close>

section \<open>Growing within the L1 table\<close>

lemma file_write_middle:
  "d \<noteq> [] \<Longrightarrow> length a = p \<Longrightarrow> length d0 = length d \<Longrightarrow> file_write (a @ d0 @ b) p d = a @ d @ b"
  by (simp add: file_write_def)

lemma resized_encoded: "resized (encode_header h @ r) n l1 = encode_header (h\<lparr>h_Size := n, h_L1Size := l1\<rparr>) @ r"
proof -
  let ?a = "PutUint32 (h_Magic h) @ PutUint32 (h_Version h) @ PutUint64 (h_BackingFileOffset h) @
     PutUint32 (h_BackingFileSize h) @ PutUint32 (h_ClusterBits h)"
  let ?z = "PutUint64 (h_L1TableOffset h) @ PutUint64 (h_RefcountTableOffset h) @ PutUint32 (h_RefcountTableClusters h) @
     PutUint32 (h_NbSnapshots h) @ PutUint64 (h_SnapshotsOffset h) @
     PutUint64 (h_IncompatibleFeatures h) @ PutUint64 (h_CompatibleFeatures h) @
     PutUint64 (h_AutoclearFeatures h) @ PutUint32 (h_RefcountOrder h) @ PutUint32 (h_HeaderLength h) @ r"
  have e: "encode_header h @ r = ?a @ PutUint64 (h_Size h) @ PutUint32 (h_CryptMethod h) @ PutUint32 (h_L1Size h) @ ?z"
    by (simp add: encode_header_def)
  have w1: "file_write (encode_header h @ r) 24 (PutUint64 n) =
      (?a @ PutUint64 n @ PutUint32 (h_CryptMethod h)) @ PutUint32 (h_L1Size h) @ ?z"
    unfolding e by (subst file_write_middle) simp_all
  show ?thesis unfolding resized_def w1 by (subst file_write_middle) (simp_all add: encode_header_def)
qed

lemma resized_image:
  assumes "l1_size opts sz' = l1_size opts sz"
  shows "resized (image_bytes opts backing fmt sz T B) sz' (l1_size opts sz') = image_bytes opts backing fmt sz' T B"
proof -
  have h: "(backed_header (image_header opts sz T B) backing fmt)\<lparr>h_Size := sz', h_L1Size := l1_size opts sz'\<rparr> =
      backed_header (image_header opts sz' T B) backing fmt"
    by (simp add: backed_header_def image_header_def set_header_backing_def Let_def)
  show ?thesis
    unfolding image_bytes_def Let_def cluster0_def append_assoc resized_encoded h using assms by simp
qed

lemma Resize_image:
  assumes "laid_out opts backing fmt sz T B" "laid_out opts backing fmt sz' T B"
    and "sz < sz'" "l1_size opts sz' = l1_size opts sz"
  shows "Resize (image_bytes opts backing fmt sz T B) sz' = Some (None, image_bytes opts backing fmt sz' T B)"
proof -
  let ?f = "image_bytes opts backing fmt sz T B" and ?h = "final_header opts backing fmt sz T B"
  have r: "readHeader ?f = Inr ?h" using laid_outD [OF assms(1)] by (rule readHeader_image)
  have c: "ClusterSize ?h = clusterSize opts" by (simp add: ClusterSize_def clusterSize_def)
  have l: "104 \<le> length ?f" using r by (simp add: readHeader_ok)
  have "finish_resize ?f sz' (l1_size opts sz') = (None, image_bytes opts backing fmt sz' T B)"
    unfolding finish_resize_eq [OF l] resized_image [OF assms(4)] Check_image [OF assms(2)] by simp
  moreover have "\<not> sz' < sz" "sz' \<noteq> sz" "\<not> l1_size opts sz' > l1_size opts sz" using assms(3,4) by auto
  ultimately show ?thesis unfolding Resize_def r by (simp add: c)
qed

text \<open>C13: Creating an image and growing it in place gives exactly the image that creating it with the larger size gives,
  whenever both sizes need the same number of L1 entries; in particular the grown image passes the check.
\<close>

theorem create_then_grow:
  assumes "fs tmp = None" "fs path = None" "tmp \<noteq> path"
    and "\<not> io_open_fails io" "\<not> io_link_fails io" "\<not> io_remove_fails io tmp"
    and "size_ok opts sz" "size_ok opts sz'" "backing_fits backing fmt (unat (clusterSize opts))"
    and "sz < sz'" "l1Entries sz' (clusterSize opts) = l1Entries sz (clusterSize opts)"
  shows "\<exists>f f'. createImage io tmp path backing fmt sz opts fs = Some (None, fs(path \<mapsto> f)) \<and>
    createImage io tmp path backing fmt sz' opts fs = Some (None, fs(path \<mapsto> f')) \<and>
    Resize f sz' = Some (None, f')"
proof -
  obtain T B where lay: "settled opts sz T B" by (rule createImage_settled)
  have l: "laid_out opts backing fmt sz T B" using assms lay by (simp add: laid_out_def)
  have l': "laid_out opts backing fmt sz' T B" using assms lay by (simp add: laid_out_def settled_def)
  show ?thesis
    using createImage_published [OF assms(1-6) l] createImage_published [OF assms(1-6) l'] Resize_image [OF l l' assms(10,11)]
    by blast
qed


lemma small_sizes:
  "size_ok None 1000000" "size_ok None 2000000" "backing_fits '''' '''' (unat (clusterSize None))"
  "l1Entries 2000000 (clusterSize None) = l1Entries 1000000 (clusterSize None)"
  by (simp_all add: size_ok_def opt_coverage_def clusterBits_def DefaultClusterBits_def backing_fits_def) code_simp

theorem create_then_grow_witness:
  "\<exists>f f'. createImage default_io ''.d.tmp'' ''/d'' '''' '''' 1000000 None Map.empty = Some (None, [''/d'' \<mapsto> f]) \<and>
    createImage default_io ''.d.tmp'' ''/d'' '''' '''' 2000000 None Map.empty = Some (None, [''/d'' \<mapsto> f']) \<and>
    Resize f 2000000 = Some (None, f')"
  by (rule create_then_grow) (use small_sizes in \<open>simp_all add: default_io_def\<close>)


end
