(* ===== verification/DiskSizes.thy ===== *)
theory DiskSizes
  imports GoStrings
begin

text \<open>
  Disk sizes as text: \<^verbatim>\<open>ParseSize\<close> of \<^verbatim>\<open>internal/qcow2/header.go\<close>, which every creation of an image goes
  through, and \<^verbatim>\<open>parseDiskSizeBytes\<close> of \<^verbatim>\<open>internal/grpcapi/vm.go\<close>, which a resize request goes through.
\<close>

section \<open>Sizes as text\<close>

definition upper :: "char \<Rightarrow> char" where
  "upper c = (if CHR ''a'' \<le> c \<and> c \<le> CHR ''z'' then char_of (of_char c - 32 :: nat) else c)"

text \<open>\<open>strconv.ParseUint(s, 10, 64)\<close>.\<close>

definition ParseUint64 :: "string \<Rightarrow> u64 option" where
  "ParseUint64 s =
     (if s = [] then None
      else case digits_val 0 s of None \<Rightarrow> None
           | Some n \<Rightarrow> if n < 2 ^ 64 then Some (of_nat n) else None)"

lemma ParseUint64_code [code]:
  "ParseUint64 s =
     (if s = [] then None
      else case digits_int 0 s of None \<Rightarrow> None
           | Some n \<Rightarrow> if n < 18446744073709551616 then Some (word_of_int n) else None)"
proof -
  have "digits_int 0 s = map_option int (digits_val 0 s)" using digits_int_val [of 0 s] by simp
  then show ?thesis by (auto simp: ParseUint64_def split: option.splits)
qed

datatype size_error = EmptySize | BadNumber string | UnknownSuffix string | SizeOverflows string

definition size_unit :: "char \<Rightarrow> u64 option" where
  "size_unit c =
     (if c = CHR ''K'' then Some 1024
      else if c = CHR ''M'' then Some (1024 * 1024)
      else if c = CHR ''G'' then Some (1024 * 1024 * 1024)
      else if c = CHR ''T'' then Some (1024 * 1024 * 1024 * 1024)
      else None)"

definition ParseSize :: "string \<Rightarrow> size_error + u64" where
  "ParseSize t =
     (let s = TrimSpace t in
      if s = [] then Inl EmptySize
      else if is_digit (last s) then
        (case ParseUint64 s of None \<Rightarrow> Inl (BadNumber s) | Some n \<Rightarrow> Inr n)
      else
        case ParseUint64 (TrimSpace (butlast s)) of
          None \<Rightarrow> Inl (BadNumber s)
        | Some num \<Rightarrow>
            (case size_unit (upper (last s)) of
               None \<Rightarrow> Inl (UnknownSuffix s)
             | Some mult \<Rightarrow>
                 if num > 0 \<and> num > (- 1) div mult then Inl (SizeOverflows s) else Inr (num * mult)))"

text \<open>
  \<^verbatim>\<open>parseDiskSizeBytes\<close> of \<^verbatim>\<open>grpcapi/vm.go\<close>, which reads the size of a resize request: only digits count,
  every other character is skipped, and the arithmetic is \<^verbatim>\<open>int64\<close>.
\<close>

fun skip_digits :: "int \<Rightarrow> string \<Rightarrow> int" where
  "skip_digits n [] = n"
| "skip_digits n (c # cs) = skip_digits (if is_digit c then wrap64 (wrap64 (n * 10) + int (digit_val c)) else n) cs"

definition parseDiskSizeBytes :: "string \<Rightarrow> int" where
  "parseDiskSizeBytes s =
     (if s = [] then 0
      else
        let u = map upper s;
            (multiplier, numStr) =
              (if last u = CHR ''G'' then (1024 * 1024 * 1024, butlast u)
               else if last u = CHR ''M'' then (1024 * 1024, butlast u)
               else if last u = CHR ''T'' then (1024 * 1024 * 1024 * 1024, butlast u)
               else (1, u)) in
        wrap64 (skip_digits 0 numStr * multiplier))"

section \<open>Sizes\<close>

lemma strip_prefixes_id: "(\<And>p. p \<in> set ps \<Longrightarrow> p \<noteq> [] \<Longrightarrow> \<not> prefix p s) \<Longrightarrow> strip_prefixes ps s = s"
  by (subst strip_prefixes.simps) (auto simp: find_None_iff split: option.splits dest: find_Some_iff [THEN iffD1])

lemma TrimSpace_id:
  assumes "s \<noteq> []" "\<forall>p \<in> set space_seqs. hd s \<noteq> hd p" "\<forall>p \<in> set space_seqs. last s \<noteq> last p"
  shows "TrimSpace s = s"
proof -
  have ne: "p \<noteq> []" if "p \<in> set space_seqs" for p using that by (auto simp: space_seqs_def)
  have "strip_prefixes space_seqs s = s"
    using assms(2) by (intro strip_prefixes_id) (auto simp: prefix_def)
  moreover have "strip_prefixes (map rev space_seqs) (rev s) = rev s"
  proof (rule strip_prefixes_id)
    fix p assume p: "p \<in> set (map rev space_seqs)" "p \<noteq> []"
    then obtain q where q: "q \<in> set space_seqs" "p = rev q" by auto
    show "\<not> prefix p (rev s)"
    proof
      assume "prefix p (rev s)"
      then have "hd p = hd (rev s)" using p(2) by (auto simp: prefix_def)
      then show False using assms(1,3) q ne [OF q(1)] by (metis hd_rev)
    qed
  qed
  ultimately show ?thesis by (simp add: TrimSpace_def)
qed

lemma digit_not_space: "is_digit c \<Longrightarrow> p \<in> set space_seqs \<Longrightarrow> c \<noteq> hd p \<and> c \<noteq> last p"
  by (auto simp: is_digit_def space_seqs_def)

definition unit_letter :: "char \<Rightarrow> bool" where
  "unit_letter c \<longleftrightarrow> c \<in> set ''GMTgmt''"

lemma unit_not_space: "unit_letter c \<Longrightarrow> p \<in> set space_seqs \<Longrightarrow> c \<noteq> hd p \<and> c \<noteq> last p"
  by (auto simp: unit_letter_def space_seqs_def)

lemma digits_val_is_digit: "digits_val acc ds = Some v \<Longrightarrow> \<forall>c \<in> set ds. is_digit c"
  by (induction acc ds rule: digits_val.induct) (auto split: if_splits)

lemma digits_val_mono: "digits_val acc ds = Some v \<Longrightarrow> acc \<le> v"
  by (induction acc ds rule: digits_val.induct) (fastforce split: if_splits)+

lemma upper_digit [simp]: "is_digit c \<Longrightarrow> upper c = c"
  by (auto simp: upper_def is_digit_def less_eq_char_def)

lemma map_upper_digits: "\<forall>c \<in> set ds. is_digit c \<Longrightarrow> map upper ds = ds"
  by (induction ds) auto

lemma skip_digits_val:
  assumes "digits_val acc ds = Some v" "int v < 2 ^ 63"
  shows "skip_digits (int acc) ds = int v"
  using assms
proof (induction acc ds rule: digits_val.induct)
  case (2 acc c cs)
  then have d: "is_digit c" and r: "digits_val (acc * 10 + digit_val c) cs = Some v" by (auto split: if_splits)
  have "acc * 10 + digit_val c \<le> v" using r by (rule digits_val_mono)
  then have "in_i64 (int acc * 10)" "in_i64 (int acc * 10 + int (digit_val c))"
    using 2(3) by (simp_all add: in_i64_def)
  then have "wrap64 (wrap64 (int acc * 10) + int (digit_val c)) = int (acc * 10 + digit_val c)" by simp
  then show ?case using 2(1) [OF d r 2(3)] d by (simp del: of_nat_add of_nat_mult)
qed simp

lemma skip_digits_append: "skip_digits n (xs @ ys) = skip_digits (skip_digits n xs) ys"
  by (induction n xs rule: skip_digits.induct) auto

lemma skip_digits_junk: "\<not> is_digit x \<Longrightarrow> skip_digits n (xs @ x # ys) = skip_digits n (xs @ ys)"
  by (simp add: skip_digits_append)

text \<open>C38: A size \<open>ParseSize\<close> accepts is the number in the text times its unit, exactly: nothing has wrapped.
\<close>

theorem ParseSize_exact:
  assumes "ParseSize t = Inr n"
  shows "digits_val 0 (TrimSpace t) = Some (unat n) \<or>
    (\<exists>v m. digits_val 0 (TrimSpace (butlast (TrimSpace t))) = Some v \<and>
       size_unit (upper (last (TrimSpace t))) = Some m \<and> unat n = v * unat m)"
proof -
  define s where "s = TrimSpace t"
  have pu: "digits_val 0 x = Some (unat w)" if "ParseUint64 x = Some w" for x w
    using that by (auto simp: ParseUint64_def unat_of_nat split: if_splits option.splits)
  show ?thesis
  proof (cases "is_digit (last s)")
    case True
    then have "ParseUint64 s = Some n"
      using assms by (auto simp: ParseSize_def s_def [symmetric] split: if_splits option.splits)
    then show ?thesis using pu by (simp add: s_def)
  next
    case False
    then obtain num m where p: "ParseUint64 (TrimSpace (butlast s)) = Some num"
      "size_unit (upper (last s)) = Some m" "\<not> (num > 0 \<and> num > (- 1) div m)" "n = num * m"
      using assms by (auto simp: ParseSize_def s_def [symmetric] split: if_splits option.splits)
    have "unat num * unat m < 2 ^ 64"
    proof (cases "num = 0")
      case False
      then have "num \<le> (- 1) div m" using p(3) by (simp add: word_neq_0_conv not_less)
      then have "unat num \<le> unat (- 1 :: u64) div unat m" by (simp add: word_le_nat_alt unat_div)
      then have "unat num * unat m \<le> unat (- 1 :: u64) div unat m * unat m" by (rule mult_le_mono1)
      also have "\<dots> \<le> unat (- 1 :: u64)" by (rule div_times_less_eq_dividend)
      also have "\<dots> < 2 ^ 64" using unsigned_less [of "- 1 :: u64"] by simp
      finally show ?thesis .
    qed simp
    then have "unat n = unat num * unat m" using p(4) by (simp add: unat_mult_lem [THEN iffD1])
    then show ?thesis using pu [OF p(1)] p(2) by (auto simp: s_def)
  qed
qed

theorem ParseSize_exact_witness: "\<exists>n. ParseSize ''20G'' = Inr n \<and> unat n = 21474836480"
proof -
  have "ParseSize ''20G'' = Inr 21474836480" by code_simp
  then show ?thesis using ParseSize_exact [of "''20G''"] by simp
qed

text \<open>The plain form: digits and one of the units both parsers know.\<close>

lemma ParseSize_plain:
  assumes "digits_val 0 ds = Some v" "ds \<noteq> []" "unit_letter c" "size_unit (upper c) = Some m" "v * unat m < 2 ^ 64"
  shows "ParseSize (ds @ [c]) = Inr (of_nat (v * unat m))"
proof -
  have dig: "\<forall>x \<in> set ds. is_digit x" using assms(1) by (rule digits_val_is_digit)
  then have h: "is_digit (hd ds)" "is_digit (last ds)" using assms(2) by simp_all
  have t1: "TrimSpace (ds @ [c]) = ds @ [c]"
    using assms(2) digit_not_space [OF h(1)] unit_not_space [OF assms(3)] by (intro TrimSpace_id) auto
  have t2: "TrimSpace ds = ds"
    using assms(2) digit_not_space [OF h(1)] digit_not_space [OF h(2)] by (intro TrimSpace_id) auto
  have nd: "\<not> is_digit c" using assms(3) by (auto simp: unit_letter_def is_digit_def)
  have m1: "1 \<le> unat m" using assms(4) by (auto simp: size_unit_def split: if_splits)
  have v: "v < 2 ^ 64" using assms(5) m1 by (metis le_trans mult_le_mono2 mult_1_right not_less)
  have p: "ParseUint64 ds = Some (of_nat v)" using assms(1,2) v by (simp add: ParseUint64_def)
  have uv: "unat (of_nat v :: u64) = v" using v by (simp add: unat_of_nat)
  have "v \<le> unat (- 1 :: u64) div unat m"
  proof -
    have "v * unat m \<le> unat (- 1 :: u64)" using assms(5) by (simp add: unsigned_minus_1_eq_mask mask_eq_exp_minus_1)
    then show ?thesis using m1 by (simp add: less_eq_div_iff_mult_less_eq)
  qed
  then have "\<not> (of_nat v > (- 1 :: u64) div m)" by (simp only: word_less_nat_alt unat_div uv not_less)
  then show ?thesis using assms(4) by (simp add: ParseSize_def t1 t2 nd p)
qed

lemma upper_units [simp]:
  "upper (CHR ''G'') = CHR ''G''" "upper (CHR ''M'') = CHR ''M''" "upper (CHR ''T'') = CHR ''T''"
  "upper (CHR ''g'') = CHR ''G''" "upper (CHR ''m'') = CHR ''M''" "upper (CHR ''t'') = CHR ''T''"
  by code_simp+

lemma parseDiskSizeBytes_unit:
  assumes "unit_letter c" "size_unit (upper c) = Some m"
  shows "parseDiskSizeBytes (xs @ [c]) = wrap64 (skip_digits 0 (map upper xs) * int (unat m))"
proof -
  have "c \<in> {CHR ''G'', CHR ''M'', CHR ''T'', CHR ''g'', CHR ''m'', CHR ''t''}"
    using assms(1) by (simp add: unit_letter_def)
  then have "(upper c, m) \<in> {(CHR ''G'', 1024 * 1024 * 1024), (CHR ''M'', 1024 * 1024), (CHR ''T'', 1024 * 1024 * 1024 * 1024)}"
    using assms(2) by (auto simp: size_unit_def)
  then show ?thesis by (auto simp: parseDiskSizeBytes_def butlast_append)
qed

text \<open>
  On a plain size, digits followed by \<open>G\<close>, \<open>M\<close> or \<open>T\<close> in either case whose value fits an \<open>int64\<close>, the
  two parsers agree on the exact number of bytes.
\<close>

theorem size_parsers_agree:
  assumes "digits_val 0 ds = Some v" "ds \<noteq> []" "unit_letter c" "size_unit (upper c) = Some m" "v * unat m < 2 ^ 63"
  shows "ParseSize (ds @ [c]) = Inr (of_nat (v * unat m)) \<and> parseDiskSizeBytes (ds @ [c]) = int (v * unat m)"
proof -
  have m1: "1 \<le> unat m" using assms(4) by (auto simp: size_unit_def split: if_splits)
  have v: "v < 2 ^ 63" using assms(5) m1 by (metis le_trans mult_le_mono2 mult_1_right not_less)
  have "skip_digits 0 ds = int v" using skip_digits_val [OF assms(1)] v by simp
  moreover have "map upper ds = ds" using digits_val_is_digit [OF assms(1)] by (rule map_upper_digits)
  moreover have "in_i64 (int v * int (unat m))"
    using assms(5) unfolding in_i64_def by (simp flip: of_nat_mult del: of_nat_unat)
  ultimately have "parseDiskSizeBytes (ds @ [c]) = int (v * unat m)"
    unfolding parseDiskSizeBytes_unit [OF assms(3,4)] by simp
  moreover have "ParseSize (ds @ [c]) = Inr (of_nat (v * unat m))"
    using assms by (intro ParseSize_plain) simp_all
  ultimately show ?thesis by blast
qed

theorem size_parsers_agree_witness: "ParseSize ''40g'' = Inr 42949672960 \<and> parseDiskSizeBytes ''40g'' = 42949672960"
proof -
  have "digits_val 0 ''40'' = Some 40" by code_simp
  moreover have "unit_letter (CHR ''g'')" by code_simp
  moreover have "size_unit (upper (CHR ''g'')) = Some 1073741824" by code_simp
  ultimately show ?thesis using size_parsers_agree [of "''40''" 40 "CHR ''g''" 1073741824] by simp
qed

text \<open>
  A resize request skips what is not a digit, so a decimal point, a sign or a separator in the size
  silently changes it by powers of ten, where \<open>ParseSize\<close> refuses the text: \<open>1.5G\<close> asks for fifteen.
\<close>

theorem resize_size_skips_punctuation:
  assumes "digits_val 0 d1 = Some v1" "d1 \<noteq> []" "digits_val 0 d2 = Some v2" "d2 \<noteq> []"
    "\<not> is_digit x" "\<not> is_digit (upper x)" "unit_letter c" "size_unit (upper c) = Some m"
  shows "parseDiskSizeBytes (d1 @ x # d2 @ [c]) = parseDiskSizeBytes (d1 @ d2 @ [c]) \<and>
    (\<exists>e. ParseSize (d1 @ x # d2 @ [c]) = Inl e)"
proof -
  note dig = digits_val_is_digit [OF assms(1)] digits_val_is_digit [OF assms(3)]
  have h: "is_digit (hd d1)" "is_digit (last d2)" using dig assms(2,4) by simp_all
  have "parseDiskSizeBytes ((d1 @ x # d2) @ [c]) = parseDiskSizeBytes ((d1 @ d2) @ [c])"
    unfolding parseDiskSizeBytes_unit [OF assms(7,8)] using assms(6) by (simp add: skip_digits_junk)
  moreover have t1: "TrimSpace (d1 @ x # d2 @ [c]) = d1 @ x # d2 @ [c]"
    using assms(2) digit_not_space [OF h(1)] unit_not_space [OF assms(7)] by (intro TrimSpace_id) auto
  have t2: "TrimSpace (d1 @ x # d2) = d1 @ x # d2"
    using assms(2,4) digit_not_space [OF h(1)] digit_not_space [OF h(2)] by (intro TrimSpace_id) auto
  have nd: "\<not> is_digit c" using assms(7) by (auto simp: unit_letter_def is_digit_def)
  have bl: "butlast (d1 @ x # d2 @ [c]) = d1 @ x # d2" "last (d1 @ x # d2 @ [c]) = c" by (simp_all add: butlast_append)
  have "digits_val 0 (d1 @ x # d2) = None" using assms(1,5) by (simp add: digits_val_append)
  then have "ParseUint64 (d1 @ x # d2) = None" by (simp add: ParseUint64_def)
  then have "\<exists>e. ParseSize (d1 @ x # d2 @ [c]) = Inl e"
    unfolding ParseSize_def Let_def t1 bl t2 using nd by simp
  ultimately show ?thesis by simp
qed

theorem resize_size_skips_punctuation_witness:
  "parseDiskSizeBytes ''1.5G'' = 16106127360 \<and> (\<exists>e. ParseSize ''1.5G'' = Inl e)"
proof -
  have "digits_val 0 ''1'' = Some 1" "digits_val 0 ''5'' = Some 5" by code_simp+
  moreover have "unit_letter (CHR ''G'')" "\<not> is_digit (CHR ''.'')" "\<not> is_digit (upper (CHR ''.''))" by code_simp+
  moreover have "size_unit (upper (CHR ''G'')) = Some 1073741824" by code_simp
  moreover have "parseDiskSizeBytes ''15G'' = 16106127360" by code_simp
  ultimately show ?thesis
    using resize_size_skips_punctuation [of "''1''" 1 "''5''" 5 "CHR ''.''" "CHR ''G''" 1073741824] by simp
qed

end
