(* ===== verification/Cron.thy ===== *)
theory Cron
  imports GoStrings
begin

text \<open>
  Cron expressions, \<^verbatim>\<open>internal/scheduler/cron.go\<close>: five fields parsed to bit masks, and the test of a time against
  them. The loop that fills a mask runs on a wrapping 64-bit integer and is a partial function, proved total
  below. Of \<^verbatim>\<open>time.Time\<close> the model has what the test reads.
\<close>

unbundle bit_operations_syntax

section \<open>Terms and fields\<close>

datatype term_error =
    EmptyField
  | BadStep string
  | BadRange string
  | RangeOutside int int int int
  | BadValue string
  | ValueOutside int int int

datatype cron_error =
    FieldCount nat
  | FieldError string term_error

type_synonym fieldMask = "64 word"

text \<open>\<^verbatim>\<open>1 << uint(i)\<close> on 64 bits: a negative \<^verbatim>\<open>i\<close> is a shift count past the width.\<close>

definition shl1 :: "int \<Rightarrow> fieldMask" where
  "shl1 i = (if 0 \<le> i \<and> i < 64 then push_bit (nat i) 1 else 0)"

definition term_step :: "string \<Rightarrow> term_error + int \<times> string" where
  "term_step t =
     (case indexByte (CHR ''/'') t of
        None \<Rightarrow> Inr (1, t)
      | Some i \<Rightarrow>
          case ParseInt (drop (i + 1) t) of
            None \<Rightarrow> Inl (BadStep (drop (i + 1) t))
          | Some s \<Rightarrow> if s \<le> 0 then Inl (BadStep (drop (i + 1) t)) else Inr (s, take i t))"

definition term_range :: "string \<Rightarrow> int \<Rightarrow> int \<Rightarrow> term_error + int \<times> int" where
  "term_range t lo hi =
     (if t = ''*'' then Inr (lo, hi)
      else case indexByte (CHR ''-'') t of
        Some i \<Rightarrow>
          (case (ParseInt (take i t), ParseInt (drop (i + 1) t)) of
             (Some a, Some b) \<Rightarrow> if a < lo \<or> b > hi \<or> a > b then Inl (RangeOutside a b lo hi) else Inr (a, b)
           | _ \<Rightarrow> Inl (BadRange t))
      | None \<Rightarrow>
          (case ParseInt t of
             None \<Rightarrow> Inl (BadValue t)
           | Some v \<Rightarrow> if v < lo \<or> v > hi then Inl (ValueOutside v lo hi) else Inr (v, v)))"

partial_function (option) mask_loop :: "int \<Rightarrow> int \<Rightarrow> int \<Rightarrow> fieldMask \<Rightarrow> fieldMask option" where
  "mask_loop i rHi step acc =
     (if i \<le> rHi then mask_loop (wrap64 (i + step)) rHi step (acc OR shl1 i) else Some acc)"

declare mask_loop.simps [code]

definition parseTerm :: "string \<Rightarrow> int \<Rightarrow> int \<Rightarrow> (term_error + fieldMask) option" where
  "parseTerm t lo hi =
     (case term_step t of
        Inl e \<Rightarrow> Some (Inl e)
      | Inr (step, t) \<Rightarrow>
          case term_range t lo hi of
            Inl e \<Rightarrow> Some (Inl e)
          | Inr (rLo, rHi) \<Rightarrow> map_option Inr (mask_loop rLo rHi step 0))"

primrec parse_terms :: "string list \<Rightarrow> int \<Rightarrow> int \<Rightarrow> fieldMask \<Rightarrow> (term_error + fieldMask) option" where
  "parse_terms [] lo hi acc = Some (Inr acc)"
| "parse_terms (t # ts) lo hi acc =
     (case parseTerm t lo hi of
        None \<Rightarrow> None
      | Some (Inl e) \<Rightarrow> Some (Inl e)
      | Some (Inr m) \<Rightarrow> parse_terms ts lo hi (acc OR m))"

definition parseField :: "string \<Rightarrow> int \<Rightarrow> int \<Rightarrow> (term_error + fieldMask) option" where
  "parseField spec lo hi =
     (if spec = [] then Some (Inl EmptyField) else parse_terms (split_on (CHR '','') spec) lo hi 0)"

section \<open>Expressions\<close>

record Cron =
  c_expr :: string
  c_min :: fieldMask
  c_hour :: fieldMask
  c_dom :: fieldMask
  c_month :: fieldMask
  c_dow :: fieldMask
  c_rawDOM :: bool
  c_rawDOW :: bool

text \<open>One field of \<^verbatim>\<open>ParseCron\<close>, its error labelled, and then the rest.\<close>

definition with_field ::
  "string \<Rightarrow> (term_error + fieldMask) option \<Rightarrow> (fieldMask \<Rightarrow> (cron_error + 'a) option) \<Rightarrow> (cron_error + 'a) option" where
  "with_field what r k =
     (case r of None \<Rightarrow> None | Some (Inl e) \<Rightarrow> Some (Inl (FieldError what e)) | Some (Inr m) \<Rightarrow> k m)"

text \<open>Sunday may be written 7; the test of a time sees 0 only.\<close>

definition sunday0 :: "fieldMask \<Rightarrow> fieldMask" where
  "sunday0 dow = (if dow AND push_bit 7 1 \<noteq> 0 then (dow AND NOT (push_bit 7 1)) OR 1 else dow)"

definition ParseCron :: "string \<Rightarrow> (cron_error + Cron) option" where
  "ParseCron expr =
     (let parts = Fields expr in
      if length parts \<noteq> 5 then Some (Inl (FieldCount (length parts)))
      else
        with_field ''minute'' (parseField (parts ! 0) 0 59) (\<lambda>mn.
        with_field ''hour'' (parseField (parts ! 1) 0 23) (\<lambda>hr.
        with_field ''day-of-month'' (parseField (parts ! 2) 1 31) (\<lambda>dom.
        with_field ''month'' (parseField (parts ! 3) 1 12) (\<lambda>mon.
        with_field ''day-of-week'' (parseField (parts ! 4) 0 7) (\<lambda>dow.
          Some (Inr
            \<lparr>c_expr = expr, c_min = mn, c_hour = hr, c_dom = dom, c_month = mon,
             c_dow = sunday0 dow,
             c_rawDOM = parts ! 2 \<noteq> ''*'', c_rawDOW = parts ! 4 \<noteq> ''*''\<rparr>)))))))"

record Time =
  t_Minute :: int
  t_Hour :: int
  t_Day :: int
  t_Month :: int
  t_Weekday :: int

definition Matches :: "Cron \<Rightarrow> Time \<Rightarrow> bool" where
  "Matches c t =
     (if c_min c AND shl1 (t_Minute t) = 0 then False
      else if c_hour c AND shl1 (t_Hour t) = 0 then False
      else if c_month c AND shl1 (t_Month t) = 0 then False
      else
        let domHit = c_dom c AND shl1 (t_Day t) \<noteq> 0;
            dowHit = c_dow c AND shl1 (t_Weekday t) \<noteq> 0 in
        if c_rawDOM c \<and> c_rawDOW c then domHit \<or> dowHit
        else if c_rawDOM c then domHit
        else if c_rawDOW c then dowHit
        else True)"

section \<open>The loop ends\<close>

lemma wrap64_over: "2 ^ 63 \<le> i \<Longrightarrow> i < 3 * 2 ^ 63 \<Longrightarrow> wrap64 i = i - 2 ^ 64"
proof -
  assume i: "2 ^ 63 \<le> i" "i < 3 * 2 ^ 63"
  have "(i + 2 ^ 63) mod 2 ^ 64 = (i - 2 ^ 63 + 2 ^ 64) mod 2 ^ 64" by (rule arg_cong [where f = "\<lambda>x. x mod 2 ^ 64"]) simp
  also have "\<dots> = i - 2 ^ 63" unfolding mod_add_self2 using i by (intro mod_pos_pos_trivial) simp_all
  finally show ?thesis by (simp add: wrap64_def)
qed

text \<open>A step that cannot overflow walks up to the end of the range.\<close>

lemma mask_loop_plain:
  assumes "0 < s" "s + b < 2 ^ 63" "- (2 ^ 62) \<le> i" "b < 64"
  shows "\<exists>m'. mask_loop i b s m = Some m' \<and>
    (\<forall>v < 64. bit m' v \<longleftrightarrow> bit m v \<or> (\<exists>k \<ge> 0. int v = i + k * s \<and> int v \<le> b))"
  using assms(3)
proof (induction "nat (b + 1 - i)" arbitrary: i m rule: less_induct)
  case less
  show ?case
  proof (cases "i \<le> b")
    case True
    have w: "wrap64 (i + s) = i + s" using assms True less.prems by (intro wrap64_id) (simp add: in_i64_def)
    obtain m' where m': "mask_loop (i + s) b s (m OR shl1 i) = Some m'"
      "\<forall>v < 64. bit m' v \<longleftrightarrow> bit (m OR shl1 i) v \<or> (\<exists>k \<ge> 0. int v = i + s + k * s \<and> int v \<le> b)"
      using less.hyps [of "i + s" "m OR shl1 i"] True less.prems assms(1) by auto
    have "bit m' v \<longleftrightarrow> bit m v \<or> (\<exists>k \<ge> 0. int v = i + k * s \<and> int v \<le> b)" if "v < 64" for v
    proof -
      have "bit (m OR shl1 i) v \<longleftrightarrow> bit m v \<or> int v = i"
        using that by (auto simp: shl1_def bit_simps)
      moreover have "(\<exists>k \<ge> 0. int v = i + k * s \<and> int v \<le> b) \<longleftrightarrow> int v = i \<or> (\<exists>k \<ge> 0. int v = i + s + k * s \<and> int v \<le> b)"
      proof
        assume "\<exists>k \<ge> 0. int v = i + k * s \<and> int v \<le> b"
        then obtain k where k: "0 \<le> k" "int v = i + k * s" "int v \<le> b" by blast
        show "int v = i \<or> (\<exists>k \<ge> 0. int v = i + s + k * s \<and> int v \<le> b)"
        proof (cases "k = 0")
          case False
          then show ?thesis using k by (intro disjI2 exI [of _ "k - 1"]) (simp add: algebra_simps)
        qed (use k in simp)
      next
        assume "int v = i \<or> (\<exists>k \<ge> 0. int v = i + s + k * s \<and> int v \<le> b)"
        then show "\<exists>k \<ge> 0. int v = i + k * s \<and> int v \<le> b"
        proof
          assume "\<exists>k \<ge> 0. int v = i + s + k * s \<and> int v \<le> b"
          then obtain k where "0 \<le> k" "int v = i + s + k * s" "int v \<le> b" by blast
          then show ?thesis by (intro exI [of _ "k + 1"]) (simp add: algebra_simps)
        qed (use True in \<open>intro exI [of _ 0], simp\<close>)
      qed
      ultimately show ?thesis using m'(2) that by blast
    qed
    then show ?thesis using m'(1) True w by (subst mask_loop.simps) auto
  next
    case False
    have "\<not> (\<exists>k \<ge> 0. int v = i + k * s \<and> int v \<le> b)" for v
    proof
      assume "\<exists>k \<ge> 0. int v = i + k * s \<and> int v \<le> b"
      then obtain k where "0 \<le> k" "int v = i + k * s" "int v \<le> b" by blast
      moreover have "0 \<le> k * s" using calculation(1) assms(1) by simp
      ultimately show False using False by linarith
    qed
    then show ?thesis using False by (subst mask_loop.simps) auto
  qed
qed

text \<open>A step that can overflow leaves the range at once, or comes back below where it was.\<close>

lemma mask_loop_ends:
  assumes "0 < s" "s < 2 ^ 63" "0 \<le> b" "b < 64" "- (2 ^ 62) \<le> i"
  shows "\<exists>m'. mask_loop i b s m = Some m'"
proof (cases "s + b < 2 ^ 63")
  case True
  then show ?thesis using mask_loop_plain [OF assms(1) True assms(5,4)] by blast
next
  case over: False
  show ?thesis using assms(5)
  proof (induction "nat (i + 2 ^ 62)" arbitrary: i m rule: less_induct)
    case less
    show ?case
    proof (cases "i \<le> b \<and> 2 ^ 63 \<le> i + s")
      case True
      let ?j = "i + s - 2 ^ 64" and ?i = "i + 2 * s - 2 ^ 64"
      have j: "wrap64 (i + s) = ?j" using True assms over by (intro wrap64_over) simp_all
      have i': "wrap64 (?j + s) = ?i" using True assms over by (subst wrap64_id) (simp_all add: in_i64_def)
      have "?i < i" "- (2 ^ 62) \<le> ?i" "?j \<le> b" using True assms over by simp_all
      then have "\<exists>m'. mask_loop ?i b s ((m OR shl1 i) OR shl1 ?j) = Some m'"
        using less.hyps [of ?i] by simp
      then show ?thesis using True j i' \<open>?j \<le> b\<close> by (subst mask_loop.simps, subst mask_loop.simps) simp
    next
      case False
      show ?thesis
      proof (cases "i \<le> b")
        case True
        then have "wrap64 (i + s) = i + s" "\<not> i + s \<le> b"
          using False assms over less.prems by (simp_all add: in_i64_def)
        then show ?thesis using True by (subst mask_loop.simps, subst mask_loop.simps) simp
      next
        case False
        then show ?thesis by (subst mask_loop.simps) simp
      qed
    qed
  qed
qed

lemma term_step_pos: "term_step t = Inr (s, t') \<Longrightarrow> 0 < s \<and> s < 2 ^ 63"
  by (auto simp: term_step_def ParseInt_def Let_def in_i64_def split: option.splits if_splits list.splits)

lemma term_range_in_field: "term_range t lo hi = Inr (a, b) \<Longrightarrow> lo \<le> hi \<Longrightarrow> lo \<le> a \<and> a \<le> b \<and> b \<le> hi"
  by (auto simp: term_range_def split: option.splits if_splits)

lemma parseTerm_total:
  assumes "0 \<le> lo" "lo \<le> hi" "hi < 64"
  shows "\<exists>r. parseTerm t lo hi = Some r"
proof (cases "\<exists>s t' a b. term_step t = Inr (s, t') \<and> term_range t' lo hi = Inr (a, b)")
  case True
  then obtain s t' a b where e: "term_step t = Inr (s, t')" "term_range t' lo hi = Inr (a, b)" by blast
  then have "\<exists>m'. mask_loop a b s 0 = Some m'"
    using assms term_step_pos [OF e(1)] term_range_in_field [OF e(2) assms(2)] by (intro mask_loop_ends) auto
  then show ?thesis using e by (auto simp: parseTerm_def)
next
  case False
  then show ?thesis by (auto simp: parseTerm_def split: sum.split)
qed

lemma parse_terms_total:
  assumes "0 \<le> lo" "lo \<le> hi" "hi < 64"
  shows "\<exists>r. parse_terms ts lo hi m = Some r"
proof (induction ts arbitrary: m)
  case (Cons t ts)
  then show ?case using parseTerm_total [OF assms, of t] by (auto split: sum.split)
qed simp

lemma parseField_total:
  assumes "0 \<le> lo" "lo \<le> hi" "hi < 64"
  shows "\<exists>r. parseField spec lo hi = Some r"
  using parse_terms_total [OF assms] by (simp add: parseField_def)

lemma with_field_total: "\<exists>r. x = Some r \<Longrightarrow> (\<And>m. \<exists>r. k m = Some r) \<Longrightarrow> \<exists>r. with_field what x k = Some r"
  by (auto simp: with_field_def split: sum.split)

text \<open>
  Parsing a cron expression returns on every string, steps near the limit of a 64-bit integer included, whose
  addition overflows inside the loop.
\<close>

theorem ParseCron_terminates: "\<exists>r. ParseCron expr = Some r"
proof (cases "length (Fields expr) = 5")
  case True
  then show ?thesis
    unfolding ParseCron_def Let_def by simp (intro with_field_total parseField_total; simp)
qed (simp add: ParseCron_def)

section \<open>What an expression means\<close>

text \<open>The values a term and a field stand for.\<close>

definition term_allows :: "string \<Rightarrow> int \<Rightarrow> int \<Rightarrow> int \<Rightarrow> bool" where
  "term_allows t lo hi v \<longleftrightarrow>
     (case term_step t of Inl _ \<Rightarrow> False
      | Inr (s, t') \<Rightarrow> (case term_range t' lo hi of Inl _ \<Rightarrow> False | Inr (a, b) \<Rightarrow> a \<le> v \<and> v \<le> b \<and> s dvd v - a))"

lemma term_allows_iff:
  "term_allows t lo hi v \<longleftrightarrow>
     (\<exists>s t' a b. term_step t = Inr (s, t') \<and> term_range t' lo hi = Inr (a, b) \<and> a \<le> v \<and> v \<le> b \<and> s dvd v - a)"
proof (cases "term_step t")
  case (Inr x)
  then show ?thesis by (cases x; cases "term_range (snd x) lo hi") (auto simp: term_allows_def)
qed (simp add: term_allows_def)

definition field_allows :: "string \<Rightarrow> int \<Rightarrow> int \<Rightarrow> int \<Rightarrow> bool" where
  "field_allows spec lo hi v \<longleftrightarrow> (\<exists>t \<in> set (split_on (CHR '','') spec). term_allows t lo hi v)"

definition small_step :: "string \<Rightarrow> bool" where
  "small_step t \<longleftrightarrow> (case term_step t of Inl _ \<Rightarrow> True | Inr (s, _) \<Rightarrow> s \<le> 2 ^ 62)"

definition small_steps :: "string \<Rightarrow> bool" where
  "small_steps expr \<longleftrightarrow> (\<forall>spec \<in> set (Fields expr). \<forall>t \<in> set (split_on (CHR '','') spec). small_step t)"

lemma parseTerm_bit:
  assumes "0 \<le> lo" "lo \<le> hi" "hi < 64" "parseTerm t lo hi = Some (Inr m)" "small_step t"
  shows "bit m v \<longleftrightarrow> v < 64 \<and> term_allows t lo hi (int v)"
proof (cases "v < 64")
  case True
  obtain s t' a b where e: "term_step t = Inr (s, t')" "term_range t' lo hi = Inr (a, b)" "mask_loop a b s 0 = Some m"
    using assms(4) by (auto simp: parseTerm_def split: sum.splits)
  note p = term_step_pos [OF e(1)] term_range_in_field [OF e(2) assms(2)]
  have "s \<le> 2 ^ 62" using assms(5) e(1) by (simp add: small_step_def)
  then have "\<forall>v < 64. bit m v \<longleftrightarrow> bit (0 :: fieldMask) v \<or> (\<exists>k \<ge> 0. int v = a + k * s \<and> int v \<le> b)"
    using mask_loop_plain [of s b a 0] p assms e(3) by auto
  then have "bit m v \<longleftrightarrow> (\<exists>k \<ge> 0. int v = a + k * s \<and> int v \<le> b)" using True by simp
  also have "\<dots> \<longleftrightarrow> a \<le> int v \<and> int v \<le> b \<and> s dvd int v - a"
  proof
    assume "a \<le> int v \<and> int v \<le> b \<and> s dvd int v - a"
    then obtain k where "int v - a = s * k" "a \<le> int v" "int v \<le> b" by (auto elim: dvdE)
    moreover have "0 \<le> k" using calculation p(1) by (metis diff_ge_0_iff_ge zero_le_mult_iff not_less)
    ultimately show "\<exists>k \<ge> 0. int v = a + k * s \<and> int v \<le> b" by (intro exI [of _ k]) (simp add: algebra_simps)
  qed (use p in auto)
  finally show ?thesis using True e by (simp add: term_allows_iff)
qed (use bit_imp_le_length [of m v] in auto)

lemma parse_terms_bit:
  assumes "0 \<le> lo" "lo \<le> hi" "hi < 64"
  shows "parse_terms ts lo hi m0 = Some (Inr m) \<Longrightarrow> \<forall>t \<in> set ts. small_step t \<Longrightarrow>
    bit m v \<longleftrightarrow> bit m0 v \<or> v < 64 \<and> (\<exists>t \<in> set ts. term_allows t lo hi (int v))"
proof (induction ts arbitrary: m0)
  case (Cons t ts)
  then obtain m1 where m1: "parseTerm t lo hi = Some (Inr m1)" "parse_terms ts lo hi (m0 OR m1) = Some (Inr m)"
    by (auto split: option.splits sum.splits)
  show ?case
    using Cons.IH [OF m1(2)] Cons.prems(2) parseTerm_bit [OF assms m1(1), of v] by (auto simp: bit_or_iff)
qed simp

lemma parseField_bit:
  assumes "0 \<le> lo" "lo \<le> hi" "hi < 64" "parseField spec lo hi = Some (Inr m)"
    and "\<forall>t \<in> set (split_on (CHR '','') spec). small_step t"
  shows "bit m v \<longleftrightarrow> v < 64 \<and> field_allows spec lo hi (int v)"
  using parse_terms_bit [OF assms(1-3) _ assms(5)] assms(4)
  by (auto simp: parseField_def field_allows_def split: if_splits)

lemma and_shl1: "m AND shl1 v \<noteq> 0 \<longleftrightarrow> 0 \<le> v \<and> v < 64 \<and> bit m (nat v)"
  by (auto simp: shl1_def and_exp_eq_0_iff_not_bit push_bit_eq_mult)

lemma field_allows_in_field:
  assumes "field_allows spec lo hi v" "lo \<le> hi"
  shows "lo \<le> v \<and> v \<le> hi"
proof -
  obtain t s t' a b where "term_step t = Inr (s, t')" "term_range t' lo hi = Inr (a, b)" "a \<le> v" "v \<le> b"
    using assms(1) by (auto simp: field_allows_def term_allows_iff)
  then show ?thesis using term_range_in_field [OF _ assms(2), of t' a b] by simp
qed

lemma parseField_hit:
  assumes "0 \<le> lo" "lo \<le> hi" "hi < 64" "parseField spec lo hi = Some (Inr m)"
    and "\<forall>t \<in> set (split_on (CHR '','') spec). small_step t"
  shows "m AND shl1 v \<noteq> 0 \<longleftrightarrow> field_allows spec lo hi v"
  using field_allows_in_field [OF _ assms(2), of spec v] parseField_bit [OF assms, of "nat v"] assms(1,3)
  by (auto simp: and_shl1)

text \<open>A parsed field allows at least one value: the first of each of its terms.\<close>

lemma term_allows_first:
  assumes "lo \<le> hi" "parseTerm t lo hi = Some (Inr m)"
  shows "\<exists>v. term_allows t lo hi v"
proof -
  obtain s t' a b where "term_step t = Inr (s, t')" "term_range t' lo hi = Inr (a, b)"
    using assms(2) by (auto simp: parseTerm_def split: sum.splits)
  then have "term_allows t lo hi a" using term_range_in_field [OF _ assms(1), of t' a b] by (simp add: term_allows_iff)
  then show ?thesis ..
qed

lemma parse_terms_each: "parse_terms ts lo hi m0 = Some (Inr m) \<Longrightarrow> t \<in> set ts \<Longrightarrow> \<exists>m. parseTerm t lo hi = Some (Inr m)"
  by (induction ts arbitrary: m0) (auto split: option.splits sum.splits)

lemma field_allows_some:
  assumes "lo \<le> hi" "parseField spec lo hi = Some (Inr m)"
  shows "\<exists>v. field_allows spec lo hi v"
proof -
  let ?t = "hd (split_on (CHR '','') spec)"
  have t: "?t \<in> set (split_on (CHR '','') spec)" by simp
  have "parse_terms (split_on (CHR '','') spec) lo hi 0 = Some (Inr m)"
    using assms(2) by (simp add: parseField_def split: if_splits)
  from parse_terms_each [OF this t] obtain m' where "parseTerm ?t lo hi = Some (Inr m')" ..
  from term_allows_first [OF assms(1) this] show ?thesis unfolding field_allows_def using t by blast
qed

text \<open>The fields of a parsed expression.\<close>

lemma with_field_Inr: "with_field what r k = Some (Inr c) \<longleftrightarrow> (\<exists>m. r = Some (Inr m) \<and> k m = Some (Inr c))"
  by (auto simp: with_field_def split: option.splits sum.splits)

lemma ParseCron_fields:
  assumes "ParseCron expr = Some (Inr c)"
  obtains dow where "length (Fields expr) = 5"
    "parseField (Fields expr ! 0) 0 59 = Some (Inr (c_min c))" "parseField (Fields expr ! 1) 0 23 = Some (Inr (c_hour c))"
    "parseField (Fields expr ! 2) 1 31 = Some (Inr (c_dom c))" "parseField (Fields expr ! 3) 1 12 = Some (Inr (c_month c))"
    "parseField (Fields expr ! 4) 0 7 = Some (Inr dow)"
    "c_dow c = sunday0 dow"
    "c_rawDOM c = (Fields expr ! 2 \<noteq> ''*'')" "c_rawDOW c = (Fields expr ! 4 \<noteq> ''*'')"
  using assms unfolding ParseCron_def Let_def
  by (auto simp: with_field_Inr split: if_splits)

lemma sunday_bit: "bit (sunday0 dow) n \<longleftrightarrow> n \<noteq> 7 \<and> (bit dow n \<or> n = 0 \<and> bit dow 7)"
proof -
  have "dow AND push_bit 7 1 \<noteq> 0 \<longleftrightarrow> bit dow 7" using and_shl1 [of dow 7] by (simp add: shl1_def)
  moreover have "bit (push_bit 7 1 :: fieldMask) n \<longleftrightarrow> n = 7" unfolding bit_push_bit_iff bit_1_iff by auto
  moreover have "bit dow n \<Longrightarrow> n < LENGTH(64)" by (rule bit_imp_le_length)
  ultimately show ?thesis
    unfolding sunday0_def by (auto simp only: bit_or_iff bit_and_iff bit_not_iff bit_1_iff possible_bit_word split: if_splits)
qed

lemma parsed_hits:
  assumes "ParseCron expr = Some (Inr c)" "small_steps expr"
  shows "c_min c AND shl1 v \<noteq> 0 \<longleftrightarrow> field_allows (Fields expr ! 0) 0 59 v"
    "c_hour c AND shl1 v \<noteq> 0 \<longleftrightarrow> field_allows (Fields expr ! 1) 0 23 v"
    "c_dom c AND shl1 v \<noteq> 0 \<longleftrightarrow> field_allows (Fields expr ! 2) 1 31 v"
    "c_month c AND shl1 v \<noteq> 0 \<longleftrightarrow> field_allows (Fields expr ! 3) 1 12 v"
    "c_dow c AND shl1 v \<noteq> 0 \<longleftrightarrow>
       v \<noteq> 7 \<and> (field_allows (Fields expr ! 4) 0 7 v \<or> v = 0 \<and> field_allows (Fields expr ! 4) 0 7 7)"
proof -
  obtain dow where f: "length (Fields expr) = 5"
    "parseField (Fields expr ! 0) 0 59 = Some (Inr (c_min c))" "parseField (Fields expr ! 1) 0 23 = Some (Inr (c_hour c))"
    "parseField (Fields expr ! 2) 1 31 = Some (Inr (c_dom c))" "parseField (Fields expr ! 3) 1 12 = Some (Inr (c_month c))"
    "parseField (Fields expr ! 4) 0 7 = Some (Inr dow)"
    "c_dow c = sunday0 dow"
    using assms(1) by (rule ParseCron_fields)
  have s: "\<forall>t \<in> set (split_on (CHR '','') (Fields expr ! i)). small_step t" if "i < 5" for i
    using bspec [OF assms(2) [unfolded small_steps_def] nth_mem, of i] f(1) that by simp
  show "c_min c AND shl1 v \<noteq> 0 \<longleftrightarrow> field_allows (Fields expr ! 0) 0 59 v" by (rule parseField_hit [OF _ _ _ f(2) s]) simp_all
  show "c_hour c AND shl1 v \<noteq> 0 \<longleftrightarrow> field_allows (Fields expr ! 1) 0 23 v" by (rule parseField_hit [OF _ _ _ f(3) s]) simp_all
  show "c_dom c AND shl1 v \<noteq> 0 \<longleftrightarrow> field_allows (Fields expr ! 2) 1 31 v" by (rule parseField_hit [OF _ _ _ f(4) s]) simp_all
  show "c_month c AND shl1 v \<noteq> 0 \<longleftrightarrow> field_allows (Fields expr ! 3) 1 12 v" by (rule parseField_hit [OF _ _ _ f(5) s]) simp_all
  have d: "dow AND shl1 x \<noteq> 0 \<longleftrightarrow> field_allows (Fields expr ! 4) 0 7 x" for x by (rule parseField_hit [OF _ _ _ f(6) s]) simp_all
  show "c_dow c AND shl1 v \<noteq> 0 \<longleftrightarrow>
      v \<noteq> 7 \<and> (field_allows (Fields expr ! 4) 0 7 v \<or> v = 0 \<and> field_allows (Fields expr ! 4) 0 7 7)"
    unfolding d [symmetric] and_shl1 f(7) sunday_bit by (auto simp: nat_eq_iff)
qed



lemma sample_schedule:
  "small_steps ''*/15 9-17 1,15 * 7''"
  "\<exists>c. ParseCron ''*/15 9-17 1,15 * 7'' = Some (Inr c)"
proof -
  show "small_steps ''*/15 9-17 1,15 * 7''" by code_simp
  have "case ParseCron ''*/15 9-17 1,15 * 7'' of Some (Inr _) \<Rightarrow> True | _ \<Rightarrow> False" by code_simp
  then show "\<exists>c. ParseCron ''*/15 9-17 1,15 * 7'' = Some (Inr c)" by (auto split: option.splits sum.splits)
qed



text \<open>
  A step close to the limit overflows inside the loop and allows a value outside the range it was written for: the
  day-of-month term below, the 31st alone, also allows the 9th.
\<close>

theorem cron_step_overflows:
  "parseField ''31-31/9223372036854775797'' 1 31 = Some (Inr (shl1 31 OR shl1 9))"
  by code_simp

end
