(* ===== verification/Spec2Isabelle.thy ===== *)
theory Spec2Isabelle
  imports ClaimProtocol Merges Users Qcow2Grow DiskSizes Cron
begin

text \<open>
  litevirt is a cluster manager for virtual machines without a central store: every node holds a
  SQLite replica, writes it locally and replicates the rows. What keeps such a cluster safe is a
  handful of algorithms in \<^verbatim>\<open>src/internal\<close>, and this development models those, each in a theory of its
  own, and proves what they promise.

  \<^bold>\<open>How the parts interact.\<close> A node stamps its rows with a hybrid logical clock (\<^verbatim>\<open>hlc\<close>). Two versions
  of a row are ordered by these stamps (\<^verbatim>\<open>corrosion/sync.go\<close>); a tie goes to a chain of rules per table
  (\<^verbatim>\<open>corrosion/resolver.go\<close>); tables whose rows no clock may decide have merges of their own. A
  leader lease with a ledger of terms says which node coordinates (\<^verbatim>\<open>corrosion/leader_lease*.go\<close>), and a
  recovery that takes a workload from a lost host must first win a claim: one value per key, chosen by a
  majority of voters (\<^verbatim>\<open>claims\<close>, \<^verbatim>\<open>corrosion/recovery_claims*.go\<close>, \<^verbatim>\<open>corrosion/voter_config.go\<close>), whose
  certificate travels in the action proof. Who may ask for any of this is decided by path-based roles
  (\<^verbatim>\<open>auth/permissions.go\<close>, \<^verbatim>\<open>grpcapi/auth.go\<close>) over accounts that must always include an administrator
  (\<^verbatim>\<open>corrosion/users.go\<close>, \<^verbatim>\<open>corrosion/admin_floor.go\<close>). The disks of a VM are qcow2 images that the nodes
  create, check, inspect and grow themselves (\<^verbatim>\<open>qcow2\<close>), with sizes an operator writes as text; a creation and
  a resize both run the consistency check on what they wrote. Recurring work is started by cron
  expressions (\<^verbatim>\<open>scheduler/cron.go\<close>).

  \<^bold>\<open>The theories.\<close>

  \<^item> \<open>Prelude\<close>, \<open>GoStrings\<close>, \<open>ByteFile\<close>: Go's integers, decimal text, byte strings and the counting lemma on
    majorities; the functions of \<^verbatim>\<open>strings\<close> and \<^verbatim>\<open>strconv\<close> the components share; files as lists of bytes with
    big-endian words, positioned reads and writes, and the laws of a random-access file.

  \<^item> \<open>Hlc\<close> (\<^verbatim>\<open>hlc/clock.go\<close>): timestamps, their text, the clock with its durable ceiling, restarts. Every
    timestamp a clock hands out is after the one before; the text order is the causal order; parsing
    undoes printing; a restart never goes below what was issued, but can repeat the timestamp at the ceiling.

  \<^item> \<open>GoTime\<close>, \<open>Lww\<close>, \<open>Cells\<close>, \<open>TieResolver\<close> (\<^verbatim>\<open>corrosion/sync.go\<close>, \<^verbatim>\<open>corrosion/resolver.go\<close>): RFC 3339 text as
    \<^verbatim>\<open>time\<close> reads and prints it, the comparison of stamps, cell values with their dynamic types, the
    order-invariant row encoding, and every rule and chain of the tie resolver. The comparison is a total
    preorder on the stamps writers emit; two row encodings agree exactly on equal rows; the two nodes
    of a tie reach one outcome, no tie moves a VM or revives a deleted row, and every repaired table has
    a decision.

  \<^item> \<open>Merges\<close> (\<^verbatim>\<open>corrosion/sync.go\<close>, \<^verbatim>\<open>corrosion/project_authority_merge.go\<close>,
    \<^verbatim>\<open>corrosion/recovery_claims_proof.go\<close>): the merges of \<open>customMergeTables\<close>. A merged action proof never
    moves back in its lifecycle and two replicas merge it alike, up to the order of its checkpoints,
    which never settles; conflicting project authorities converge.

  \<^item> \<open>LeaderLease\<close> (\<^verbatim>\<open>corrosion/leader_lease*.go\<close>): a call is a function of an environment that says what
    other writers do before each access, which accesses fail, and what the clock reads. Terms handed
    out are fencing tokens under every such environment; a contested term leaves one claimant acting;
    a term lasts as long as its tenure.

  \<^item> \<open>ClaimTypes\<close>, \<open>VoterSet\<close>, \<open>ClaimVoter\<close>, \<open>ClaimProposer\<close>, \<open>ClaimProtocol\<close>: keys, ballots, digests and
    certificates; generations of the voter set; the voter's transactions on its tables; the proposer's
    rounds; and a step relation that runs any number of them with messages lost, repeated and
    reordered. Voters keep their promises and their state only grows; a proposer sends one value per
    ballot; what \<open>Decide\<close> returns is certified and it does return when a quorum answers; and in
    every run within a generation two certificates for a key certify the same value.

  \<^item> \<open>Permissions\<close>, \<open>Authz\<close>, \<open>Users\<close>: the engine, the gates and binding handlers of the API, and
    accounts. The engine implements a policy over path and verb components; the gates decide by it and by
    token scopes; an unknown resource is not authorized on a guess unless a root grant does not
    propagate; a revoked binding is never enforced again whatever reloads are in flight; deleting
    users keeps an administrator and the periodic check restores one, the same on every replica.

  \<^item> \<open>Qcow2Header\<close>, \<open>Qcow2Refcount\<close>, \<open>Qcow2Check\<close>, \<open>Qcow2Create\<close>, \<open>Qcow2Created\<close>, \<open>Qcow2SelfCheck\<close>, \<open>Qcow2Resize\<close>,
    \<open>Qcow2Grow\<close> (\<^verbatim>\<open>qcow2/*.go\<close> but \<^verbatim>\<open>convert.go\<close>): headers and their extensions, refcounts of every width, the
    consistency check, creation with its layout loop and publication, and growing in place. What an
    accepted header controls lies in the file; writing and reading a header or a refcount are inverse; a
    created image passes the check and reads back, and no creation replaces a file; a resize ends
    on every file, gives the size asked for when it succeeds, and within the L1 table gives the very image
    that creation would; a size past 32 bits of L1 entries ruins the image.

  \<^item> \<open>DiskSizes\<close> (\<^verbatim>\<open>qcow2/header.go\<close>, \<^verbatim>\<open>grpcapi/vm.go\<close>): the two readers of a size. An accepted size is exact; the
    two agree on plain sizes; the one of the handlers skips what it does not know.

  \<^item> \<open>Cron\<close> (\<^verbatim>\<open>scheduler/cron.go\<close>): parsing ends on every text, masks stay in their fields and a schedule
    fires exactly when its text says, as long as no step is near the limit of 64 bits, where it can overflow.

  \<^bold>\<open>Conventions.\<close> A Go string is a list of bytes. A struct is a record whose fields carry a short prefix; a
  table is a list of records. An error is a value: \<open>Inl\<close>, an \<open>option\<close>, or a constructor that carries
  what the message prints. A failing database access, a clock reading, a random id and the answer of
  a peer are arguments, so every theorem quantifies over them. SHA-256, X.509, ECDSA, bcrypt, JSON and the
  network are parameters; where a proof needs one of them not to collide or to round-trip, the theorem
  says so. An interface one component relies on is a locale (\<open>quorum_system\<close> and \<open>single_decree\<close>,
  \<open>term_ledger\<close>, \<open>tie_rule\<close> and \<open>tie_chain\<close>, \<open>path_cover\<close>, \<open>random_access\<close>) interpreted on the definitions that
  provide it. Of the operations on image files, opening and publishing can fail, removing a name can fail,
  and a write past the largest offset fails; other I/O errors, sync and close are taken not to happen.

  \<^bold>\<open>Bounds.\<close> The acquire loop of the lease runs \<open>maxLeaseAttempts\<close> times, the source's constant 3; the
  proposer's loop runs the rounds its \<open>Spec\<close> asks for, 8 by default as in the source, and the liveness
  theorem needs one. A walk over header extensions stops after 64, as in the source. The layout loop of a new
  image, the recursion that allocates refcount blocks and the loop that fills a cron mask are partial
  functions, each proved to return. Everything else is structural recursion or has a termination proof.
  Where 64-bit arithmetic could wrap, \<open>wrap64\<close> is written out and a theorem that needs room assumes it.

  \<^bold>\<open>Not modelled.\<close> The transport of replication, SQL text and schema migration; the workload-identity
  fences of anti-entropy; the remaining API handlers; authentication realms, sessions, API tokens and
  second factors; health checking, the failover coordinator's control flow, fencing and the watchdog;
  placement, rebalancing and compose; the conversion of image data (zlib over cluster contents); the
  hypervisor, storage, network and load-balancer drivers; the
  command line, the web interface and integrations. Most of these are I/O around external programs; the
  coordinator, the capability latches, placement and the firewall compiler are pure enough to model
  and are left for later work. Logging, metrics and audit rows are omitted throughout.
\<close>

end
